(* ===== verification/Aoa_Prelude.thy ===== *)
theory Aoa_Prelude
  imports Main "HOL-Library.Word" "HOL-Library.Monad_Syntax"
begin

text \<open>
  Shared vocabulary of the development: the machine types of the Go sources, the parts of the
  Go standard library several components use (\<open>sort.Search\<close>, slice insertion and deletion),
  the collections of simplification rules, and the interface of a journaled state that both
  state databases of the program implement.

  A computation of the source that panics is a value \<open>None\<close> of an \<open>option\<close> type; a call that
  returns an \<open>error\<close> is a value of a sum type or of an explicit error datatype.
\<close>

named_theorems view_simps \<open>equations for observations after an operation\<close>
named_theorems frame_simps \<open>fields an operation leaves alone\<close>
named_theorems keeps_inv \<open>operations that keep an invariant\<close>

section \<open>Machine types\<close>

text \<open>\<open>common.Address\<close> is a 20 byte and \<open>common.Hash\<close> a 32 byte array; \<open>bytes.Compare\<close> on
  arrays of one length is the order of the big-endian numbers they spell.\<close>

type_synonym address = "160 word"
type_synonym hash = "256 word"
type_synonym uint64 = "64 word"
type_synonym byte = "8 word"

lemma unat_bound: "unat (w :: 'a::len word) < 2 ^ LENGTH('a)"
  by (rule unsigned_less)

section \<open>\<open>sort.Search\<close>\<close>

text \<open>Binary search of the Go library: the loop keeps \<open>i\<close> and \<open>j\<close> and probes the midpoint.\<close>

function search_loop :: "(nat \<Rightarrow> bool) \<Rightarrow> nat \<Rightarrow> nat \<Rightarrow> nat" where
  "search_loop f i j =
     (if i < j then
        (let h = (i + j) div 2 in
         if \<not> f h then search_loop f (h + 1) j else search_loop f i h)
      else i)"
  by pat_completeness auto
termination
  by (relation "measure (\<lambda>(f, i, j). j - i)") auto

declare search_loop.simps [simp del]

definition sort_Search :: "nat \<Rightarrow> (nat \<Rightarrow> bool) \<Rightarrow> nat" where
  "sort_Search n f = search_loop f 0 n"

text \<open>If \<open>f\<close> is false below some index \<open>m\<close> of the range and true from it on, the search
  returns \<open>m\<close>.\<close>

lemma search_loop_finds:
  assumes "i \<le> m" "m \<le> j" "\<And>k. k < m \<Longrightarrow> \<not> f k" "\<And>k. m \<le> k \<Longrightarrow> k < j \<Longrightarrow> f k"
  shows "search_loop f i j = m"
  using assms
proof (induction f i j rule: search_loop.induct)
  case (1 f i j)
  show ?case
  proof (cases "i < j")
    case False
    with "1.prems" show ?thesis by (simp add: search_loop.simps)
  next
    case True
    define h where "h = (i + j) div 2"
    have h: "i \<le> h" "h < j" using True by (auto simp: h_def)
    show ?thesis
    proof (cases "f h")
      case False
      then have "h < m" using "1.prems"(4) h by (meson not_less)
      moreover have "\<not> f ((i + j) div 2)" using False by (simp add: h_def)
      ultimately have "search_loop f (h + 1) j = m"
        using "1.IH"(1)[OF True refl] "1.prems" h_def by simp
      then show ?thesis using True False by (simp add: search_loop.simps[of f i j] h_def)
    next
      case fh: True
      then have "m \<le> h" using "1.prems"(3) by (meson not_less)
      moreover have "\<not> \<not> f ((i + j) div 2)" using fh by (simp add: h_def)
      ultimately have "search_loop f i h = m"
        using "1.IH"(2)[OF True refl] "1.prems" h h_def by simp
      then show ?thesis using True fh by (simp add: search_loop.simps[of f i j] h_def)
    qed
  qed
qed

lemma sort_Search_finds:
  assumes "m \<le> n" "\<And>k. k < m \<Longrightarrow> \<not> f k" "\<And>k. m \<le> k \<Longrightarrow> k < n \<Longrightarrow> f k"
  shows "sort_Search n f = m"
  unfolding sort_Search_def by (rule search_loop_finds) (use assms in auto)

text \<open>The result never leaves the range, whatever the predicate does.\<close>

lemma search_loop_le: "i \<le> j \<Longrightarrow> search_loop f i j \<le> j"
proof (induction f i j rule: search_loop.induct)
  case (1 f i j)
  then show ?case
    by (subst search_loop.simps) (fastforce simp: Let_def)
qed

lemma sort_Search_le: "sort_Search n f \<le> n"
  by (simp add: sort_Search_def search_loop_le)

section \<open>Slices\<close>

text \<open>\<open>append(xs[:i], append([]T{x}, xs[i:]...)...)\<close> and \<open>append(xs[:i], xs[i+1:]...)\<close> as values.\<close>

definition insert_at :: "nat \<Rightarrow> 'a \<Rightarrow> 'a list \<Rightarrow> 'a list" where
  "insert_at i x xs = take i xs @ [x] @ drop i xs"

definition remove_at :: "nat \<Rightarrow> 'a list \<Rightarrow> 'a list" where
  "remove_at i xs = take i xs @ drop (Suc i) xs"

lemma insert_at_append [simp]: "insert_at (length xs) x (xs @ ys) = xs @ x # ys"
  by (simp add: insert_at_def)

lemma remove_at_append [simp]: "remove_at (length xs) (xs @ y # ys) = xs @ ys"
  by (simp add: remove_at_def)

lemma length_remove_at: "i < length xs \<Longrightarrow> length (remove_at i xs) = length xs - 1"
  by (simp add: remove_at_def)

section \<open>\<open>sort.Sort\<close>\<close>

text \<open>Sorting with a comparison. The algorithm of the Go library is not specified (and not stable);
  where the comparison is a strict total order on the elements the result is unique, so insertion
  stands for all of them.\<close>

fun insert_by :: "('a \<Rightarrow> 'a \<Rightarrow> bool) \<Rightarrow> 'a \<Rightarrow> 'a list \<Rightarrow> 'a list" where
  "insert_by lt x [] = [x]"
| "insert_by lt x (y # ys) = (if lt x y then x # y # ys else y # insert_by lt x ys)"

definition sort_by :: "('a \<Rightarrow> 'a \<Rightarrow> bool) \<Rightarrow> 'a list \<Rightarrow> 'a list" where
  "sort_by lt xs = foldr (insert_by lt) xs []"

definition strict_total_on :: "'a set \<Rightarrow> ('a \<Rightarrow> 'a \<Rightarrow> bool) \<Rightarrow> bool" where
  "strict_total_on A lt \<longleftrightarrow> (\<forall>x\<in>A. \<not> lt x x) \<and>
     (\<forall>x\<in>A. \<forall>y\<in>A. \<forall>z\<in>A. lt x y \<longrightarrow> lt y z \<longrightarrow> lt x z) \<and>
     (\<forall>x\<in>A. \<forall>y\<in>A. x \<noteq> y \<longrightarrow> lt x y \<or> lt y x)"

lemma set_insert_by [simp]: "set (insert_by lt x ys) = insert x (set ys)"
  by (induction ys) auto

lemma length_insert_by [simp]: "length (insert_by lt x ys) = Suc (length ys)"
  by (induction ys) auto

lemma set_sort_by [simp]: "set (sort_by lt xs) = set xs"
  by (induction xs) (simp_all add: sort_by_def)

lemma length_sort_by [simp]: "length (sort_by lt xs) = length xs"
  by (induction xs) (simp_all add: sort_by_def)

lemma strict_total_onD:
  assumes "strict_total_on A lt"
  shows "x \<in> A \<Longrightarrow> \<not> lt x x"
    "x \<in> A \<Longrightarrow> y \<in> A \<Longrightarrow> z \<in> A \<Longrightarrow> lt x y \<Longrightarrow> lt y z \<Longrightarrow> lt x z"
    "x \<in> A \<Longrightarrow> y \<in> A \<Longrightarrow> x \<noteq> y \<Longrightarrow> \<not> lt x y \<Longrightarrow> lt y x"
  using assms unfolding strict_total_on_def by blast+

lemma sorted_insert_by:
  assumes total: "strict_total_on A lt"
  shows "insert x (set ys) \<subseteq> A \<Longrightarrow> x \<notin> set ys \<Longrightarrow> sorted_wrt lt ys \<Longrightarrow> sorted_wrt lt (insert_by lt x ys)"
proof (induction ys)
  case (Cons y ys)
  have "lt y x" if "\<not> lt x y"
    using that Cons.prems(1,2) by (intro strict_total_onD(3)[OF total, of x y]) auto
  moreover have "lt x z" if "lt x y" "z \<in> set ys" for z
    using that Cons.prems by (intro strict_total_onD(2)[OF total, of x y z]) auto
  ultimately show ?case using Cons by simp
qed simp

lemma sorted_sort_by:
  assumes "strict_total_on A lt" "set xs \<subseteq> A" "distinct xs"
  shows "sorted_wrt lt (sort_by lt xs)"
  using assms(2,3)
proof (induction xs)
  case (Cons x xs)
  then show ?case
    using sorted_insert_by[OF assms(1), of x "sort_by lt xs"] set_sort_by[of lt xs]
    by (simp add: sort_by_def)
qed (simp add: sort_by_def)

lemma sorted_unique:
  assumes "strict_total_on A lt" "set xs \<subseteq> A" "set ys = set xs" "sorted_wrt lt xs" "sorted_wrt lt ys"
  shows "ys = xs"
  using assms(2-)
proof (induction xs arbitrary: ys)
  case (Cons x xs)
  then obtain y ys' where ys: "ys = y # ys'" by (cases ys) auto
  have xA: "x \<in> A" using Cons.prems(1) by simp
  have "y = x"
  proof (rule ccontr)
    assume "y \<noteq> x"
    then have "y \<in> set xs" "x \<in> set ys'" using Cons.prems(2) ys by auto
    then have "lt x y" "lt y x" using Cons.prems(3,4) ys by auto
    moreover have "y \<in> A" using \<open>y \<in> set xs\<close> Cons.prems(1) by auto
    ultimately show False
      using strict_total_onD(1,2)[OF assms(1)] xA by blast
  qed
  have "x \<notin> set xs" "x \<notin> set ys'"
    using Cons.prems(3,4) ys \<open>y = x\<close> strict_total_onD(1)[OF assms(1) xA] by auto
  then have "set ys' = set xs" using Cons.prems(2) ys \<open>y = x\<close> by auto
  then have "ys' = xs" using Cons.IH[of ys'] Cons.prems(1,3,4) ys by simp
  then show ?case using ys \<open>y = x\<close> by simp
qed simp

section \<open>Journaled state\<close>

text \<open>
  Both databases keep a journal of undo entries and return to a snapshot by undoing the entries
  after it, newest first. An operation is reversible when undoing the entries it appended brings
  back what can be observed. The laws the databases promise are that undoing an entry depends on
  observations only and keeps the invariant; the client's result is that reversible operations
  compose, so that a snapshot undoes any sequence of them.
\<close>

fun undo_list :: "('e \<Rightarrow> 's \<Rightarrow> 's option) \<Rightarrow> 'e list \<Rightarrow> 's \<Rightarrow> 's option" where
  "undo_list undo [] s = Some s"
| "undo_list undo (e # es) s = Option.bind (undo e s) (undo_list undo es)"

lemma undo_list_append:
  "undo_list undo (es @ fs) s = Option.bind (undo_list undo es s) (undo_list undo fs)"
  by (induction es arbitrary: s) (auto split: Option.bind_splits)

text \<open>The binary search over the snapshots finds the one that was taken.\<close>

lemma find_revision:
  fixes rid :: nat
  assumes "\<And>r. r \<in> set old \<Longrightarrow> fst r < rid" "\<And>r. r \<in> set newer \<Longrightarrow> rid < fst r"
  shows "sort_Search (length (old @ (rid, n) # newer)) (\<lambda>i. rid \<le> fst ((old @ (rid, n) # newer) ! i)) = length old"
proof (rule sort_Search_finds)
  fix k assume "k < length old"
  then show "\<not> rid \<le> fst ((old @ (rid, n) # newer) ! k)"
    using assms(1)[of "old ! k"] by (simp add: nth_append)
next
  fix k assume k: "length old \<le> k" "k < length (old @ (rid, n) # newer)"
  then have "(old @ (rid, n) # newer) ! k \<in> set ((rid, n) # newer)"
    by (metis nth_append_right nth_mem not_less length_append add_diff_cancel_left' nat_add_left_cancel_less le_add_diff_inverse)
  then show "rid \<le> fst ((old @ (rid, n) # newer) ! k)" using assms(2) by fastforce
qed simp

locale journaled =
  fixes undo :: "'e \<Rightarrow> 's \<Rightarrow> 's option"
    and journal_of :: "'s \<Rightarrow> 'e list"
    and obs :: "'s \<Rightarrow> 'o"
    and inv :: "'s \<Rightarrow> bool"
    and ok :: "'e \<Rightarrow> bool"
  assumes undo_cong: "inv s \<Longrightarrow> inv t \<Longrightarrow> obs s = obs t \<Longrightarrow> ok e \<Longrightarrow> undo e t = Some t'
      \<Longrightarrow> \<exists>s'. undo e s = Some s' \<and> obs s' = obs t'"
    and undo_inv: "inv s \<Longrightarrow> ok e \<Longrightarrow> undo e s = Some s' \<Longrightarrow> inv s'"
begin

lemma undo_list_inv:
  "inv s \<Longrightarrow> list_all ok es \<Longrightarrow> undo_list undo es s = Some s' \<Longrightarrow> inv s'"
  by (induction es arbitrary: s) (auto simp: Option.bind_eq_Some_conv intro: undo_inv)

lemma undo_list_cong:
  "inv s \<Longrightarrow> inv t \<Longrightarrow> obs s = obs t \<Longrightarrow> list_all ok es \<Longrightarrow> undo_list undo es t = Some t'
   \<Longrightarrow> \<exists>s'. undo_list undo es s = Some s' \<and> obs s' = obs t'"
proof (induction es arbitrary: s t)
  case Nil
  then show ?case by simp
next
  case (Cons e es)
  from Cons.prems obtain t1 where t1: "undo e t = Some t1" "undo_list undo es t1 = Some t'"
    by (auto simp: Option.bind_eq_Some_conv)
  with Cons.prems obtain s1 where s1: "undo e s = Some s1" "obs s1 = obs t1"
    using undo_cong[of s t e t1] by auto
  moreover have "inv s1" "inv t1"
    using Cons.prems s1 t1 undo_inv by auto
  ultimately show ?case
    using Cons.IH[of s1 t1] Cons.prems t1 by auto
qed

definition reversible :: "'s \<Rightarrow> 's \<Rightarrow> bool" where
  "reversible s t \<longleftrightarrow> inv s \<and> inv t \<and>
     (\<exists>es u. journal_of t = journal_of s @ es \<and> list_all ok es \<and>
             undo_list undo (rev es) t = Some u \<and> obs u = obs s)"

lemma reversible_refl: "inv s \<Longrightarrow> reversible s s"
  by (auto simp: reversible_def)

lemma reversible_silent:
  "inv s \<Longrightarrow> inv t \<Longrightarrow> journal_of t = journal_of s \<Longrightarrow> obs t = obs s \<Longrightarrow> reversible s t"
  by (auto simp: reversible_def)

lemma reversible_single:
  "inv s \<Longrightarrow> inv t \<Longrightarrow> journal_of t = journal_of s @ [e] \<Longrightarrow> ok e \<Longrightarrow> undo e t = Some u
   \<Longrightarrow> obs u = obs s \<Longrightarrow> reversible s t"
  by (auto simp: reversible_def)

lemma reversible_trans:
  assumes "reversible s t" "reversible t u"
  shows "reversible s u"
proof -
  from assms(1) obtain es s' where es: "journal_of t = journal_of s @ es" "list_all ok es"
      "undo_list undo (rev es) t = Some s'" "obs s' = obs s" and inv: "inv s" "inv t"
    by (auto simp: reversible_def)
  from assms(2) obtain fs t' where fs: "journal_of u = journal_of t @ fs" "list_all ok fs"
      "undo_list undo (rev fs) u = Some t'" "obs t' = obs t" and invu: "inv u"
    by (auto simp: reversible_def)
  have "inv t'" using undo_list_inv[OF invu _ fs(3)] fs(2) by simp
  then obtain s'' where "undo_list undo (rev es) t' = Some s''" "obs s'' = obs s'"
    using undo_list_cong[OF _ inv(2) fs(4) _ es(3)] es(2) by auto
  then show ?thesis
    using es fs inv invu by (auto simp: reversible_def undo_list_append)
qed

end

end
