(* ===== verification/Asset_Info.thy ===== *)
theory Asset_Info
  imports Aoa_Prelude
begin

text \<open>
  Validation of an asset that is going to be published, \<open>core/types/asset_info.go\<close>. Go strings are
  byte strings; they are \<open>string\<close> here, one \<open>char\<close> per byte. The names the regular expressions and
  the \<open>strings\<close> package treat specially are ASCII, apart from the Unicode white space of
  \<open>strings.TrimSpace\<close> and one Chinese name, which are written out in UTF-8.
\<close>

record AssetInfo =
  Issuer :: "address option"
  Name :: string
  Symbol :: string
  Supply :: "int option"
  Desc :: string

datatype asset_error =
    EmptyNameOrSymbol | TooLong | IllegalName | IllegalSymbol | InvalidSymbol | ZeroSupply | NilAssetInfo

definition AssetNameMaxLen :: nat where "AssetNameMaxLen = 50"
definition AssetSymbolMaxLen :: nat where "AssetSymbolMaxLen = 20"
definition AssetDescMaxLen :: nat where "AssetDescMaxLen = 1024"

text \<open>\<open>len(strings.TrimSpace(s)) == 0\<close>: the string is a sequence of white space runes.\<close>

fun blank :: "string \<Rightarrow> bool" where
  "blank [] = True"
| "blank (c # cs) =
     (if c \<in> {CHR 0x09, CHR 0x0A, CHR 0x0B, CHR 0x0C, CHR 0x0D, CHR 0x20} then blank cs
      else if c = CHR 0xC2 then
        (case cs of d # ds \<Rightarrow> d \<in> {CHR 0x85, CHR 0xA0} \<and> blank ds | [] \<Rightarrow> False)
      else if c \<in> {CHR 0xE1, CHR 0xE2, CHR 0xE3} then
        (case cs of d # e # es \<Rightarrow>
             ((c = CHR 0xE1 \<and> d = CHR 0x9A \<and> e = CHR 0x80) \<or>
              (c = CHR 0xE2 \<and> d = CHR 0x80 \<and>
                 e \<in> {CHR 0x80, CHR 0x81, CHR 0x82, CHR 0x83, CHR 0x84, CHR 0x85, CHR 0x86,
                      CHR 0x87, CHR 0x88, CHR 0x89, CHR 0x8A, CHR 0xA8, CHR 0xA9, CHR 0xAF}) \<or>
              (c = CHR 0xE2 \<and> d = CHR 0x81 \<and> e = CHR 0x9F) \<or>
              (c = CHR 0xE3 \<and> d = CHR 0x80 \<and> e = CHR 0x80)) \<and> blank es
         | _ \<Rightarrow> False)
      else False)"

definition char_between :: "char \<Rightarrow> char \<Rightarrow> char \<Rightarrow> bool" where
  "char_between lo hi c \<longleftrightarrow> (of_char lo :: nat) \<le> of_char c \<and> (of_char c :: nat) \<le> of_char hi"

definition upper :: "char \<Rightarrow> char" where
  "upper c = (if char_between CHR ''a'' CHR ''z'' c then char_of ((of_char c :: nat) - 32) else c)"

fun starts_with :: "string \<Rightarrow> string \<Rightarrow> bool" where
  "starts_with [] s = True"
| "starts_with (p # ps) [] = False"
| "starts_with (p # ps) (c # cs) = (p = c \<and> starts_with ps cs)"

fun contains_sub :: "string \<Rightarrow> string \<Rightarrow> bool" where
  "contains_sub p [] = (p = [])"
| "contains_sub p (c # cs) = (starts_with p (c # cs) \<or> contains_sub p cs)"

text \<open>\<open>illegalSymbol\<close>: the expression \<open>AOA|AURORA|...\<close> matched against the upper-cased string.\<close>

definition illegalSymbol :: "string \<Rightarrow> bool" where
  "illegalSymbol s \<longleftrightarrow>
     contains_sub ''AOA'' s \<or> contains_sub ''AURORA'' s \<or>
     contains_sub [CHR 0xE6, CHR 0x9E, CHR 0x81, CHR 0xE5, CHR 0x85, CHR 0x89,
                   CHR 0xE9, CHR 0x93, CHR 0xBE] s"

definition letter :: "char \<Rightarrow> bool" where
  "letter c \<longleftrightarrow> char_between CHR ''a'' CHR ''z'' c \<or> char_between CHR ''A'' CHR ''Z'' c"

definition alnum :: "char \<Rightarrow> bool" where
  "alnum c \<longleftrightarrow> letter c \<or> char_between CHR ''0'' CHR ''9'' c"

text \<open>\<open>validSymbol\<close>: one letter, then one or more letters and digits.\<close>

definition validSymbol :: "string \<Rightarrow> bool" where
  "validSymbol s \<longleftrightarrow>
     (case s of [] \<Rightarrow> False | c # cs \<Rightarrow> letter c \<and> cs \<noteq> [] \<and> list_all alnum cs)"

definition IsAssetInfoValid :: "AssetInfo option \<Rightarrow> asset_error option" where
  "IsAssetInfoValid ai =
     (case ai of None \<Rightarrow> Some NilAssetInfo
      | Some ai \<Rightarrow>
          if blank (Symbol ai) \<or> blank (Name ai) then Some EmptyNameOrSymbol
          else if length (Symbol ai) > AssetSymbolMaxLen \<or> length (Name ai) > AssetNameMaxLen
                  \<or> length (Desc ai) > AssetDescMaxLen then Some TooLong
          else if illegalSymbol (map upper (Name ai)) then Some IllegalName
          else if illegalSymbol (map upper (Symbol ai)) then Some IllegalSymbol
          else if \<not> validSymbol (Symbol ai) then Some InvalidSymbol
          else if Supply ai = None \<or> Supply ai = Some 0 then Some ZeroSupply
          else None)"

text \<open>C3: an asset that passes validation has a symbol of two to twenty letters and digits
  beginning with a letter, a non-blank name of at most fifty bytes, a description of at most 1024
  bytes and a supply that is present and not zero (it may be negative). Neither the symbol nor the name
  contains one of the three names of the chain, in any case: \<open>AOA\<close>, \<open>AURORA\<close> and the Chinese name in
  UTF-8.\<close>

theorem valid_asset_info:
  assumes "IsAssetInfoValid (Some ai) = None"
  shows "2 \<le> length (Symbol ai) \<and> length (Symbol ai) \<le> 20 \<and> list_all alnum (Symbol ai) \<and>
    letter (hd (Symbol ai)) \<and> \<not> blank (Name ai) \<and> length (Name ai) \<le> 50 \<and> length (Desc ai) \<le> 1024 \<and>
    \<not> contains_sub ''AOA'' (map upper (Symbol ai)) \<and> \<not> contains_sub ''AOA'' (map upper (Name ai)) \<and>
    \<not> contains_sub ''AURORA'' (map upper (Symbol ai)) \<and> \<not> contains_sub ''AURORA'' (map upper (Name ai)) \<and>
    \<not> contains_sub [CHR 0xE6, CHR 0x9E, CHR 0x81, CHR 0xE5, CHR 0x85, CHR 0x89, CHR 0xE9, CHR 0x93, CHR 0xBE]
        (map upper (Symbol ai)) \<and>
    \<not> contains_sub [CHR 0xE6, CHR 0x9E, CHR 0x81, CHR 0xE5, CHR 0x85, CHR 0x89, CHR 0xE9, CHR 0x93, CHR 0xBE]
        (map upper (Name ai)) \<and>
    (\<exists>n. Supply ai = Some n \<and> n \<noteq> 0)"
proof -
  have "validSymbol (Symbol ai)"
    using assms by (auto simp: IsAssetInfoValid_def split: if_splits)
  then have "2 \<le> length (Symbol ai) \<and> list_all alnum (Symbol ai) \<and> letter (hd (Symbol ai))"
    by (cases "Symbol ai") (auto simp: validSymbol_def alnum_def Suc_le_eq)
  then show ?thesis
    using assms
    by (auto simp: IsAssetInfoValid_def illegalSymbol_def AssetNameMaxLen_def AssetSymbolMaxLen_def
        AssetDescMaxLen_def split: if_splits)
qed

theorem valid_asset_info_witness:
  "IsAssetInfoValid (Some \<lparr>Issuer = None, Name = ''Gold'', Symbol = ''G1'', Supply = Some 9, Desc = []\<rparr>) = None
   \<and> 2 \<le> length (Symbol \<lparr>Issuer = None, Name = ''Gold'', Symbol = ''G1'', Supply = Some 9, Desc = []\<rparr>)"
proof -
  let ?ai = "\<lparr>Issuer = None, Name = ''Gold'', Symbol = ''G1'', Supply = Some 9, Desc = []\<rparr>"
  have "IsAssetInfoValid (Some ?ai) = None" by code_simp
  with valid_asset_info[of ?ai] show ?thesis by simp
qed

text \<open>The rejection message for the supply reads "must be greater then 0"; the test is equality
  with zero, so a negative supply passes.\<close>

lemma negative_supply_passes:
  "IsAssetInfoValid (Some \<lparr>Issuer = None, Name = ''Gold'', Symbol = ''G1'', Supply = Some (- 9), Desc = []\<rparr>) = None"
  by code_simp

end
