(* ===== verification/Addresses.thy ===== *)
theory Addresses
  imports Aoa_Prelude "HOL-Library.List_Lexorder" "HOL-Library.Char_ord"
begin

text \<open>
  Addresses and their text form: \<open>common/types.go\<close>, \<open>common/bytes.go\<close> and the byte functions of
  \<open>common/hexutil/hexutil.go\<close>, with what they use of \<open>encoding/hex\<close>. An address prints as
  \<open>AOA\<close> and forty hexadecimal digits. The theory shows that printing and parsing are inverse, that
  the order of the texts is the order of the addresses, and that the checksum of the digits has no
  effect.
\<close>

section \<open>Big-endian bytes\<close>

fun be_bytes :: "nat \<Rightarrow> nat \<Rightarrow> byte list" where
  "be_bytes 0 x = []"
| "be_bytes (Suc n) x = be_bytes n (x div 256) @ [of_nat (x mod 256)]"

definition be_val :: "byte list \<Rightarrow> nat" where
  "be_val bs = foldl (\<lambda>acc b. acc * 256 + unat b) 0 bs"

definition AddressLength :: nat where
  "AddressLength = 20"

definition address_Bytes :: "address \<Rightarrow> byte list" where
  "address_Bytes a = be_bytes AddressLength (unat a)"

text \<open>\<open>SetBytes\<close>: a longer slice is cropped from the left, a shorter one is right aligned.\<close>

definition BytesToAddress :: "byte list \<Rightarrow> address" where
  "BytesToAddress b =
     (let c = (if AddressLength < length b then drop (length b - AddressLength) b else b) in
      of_nat (be_val (replicate (AddressLength - length c) 0 @ c)))"

section \<open>Hexadecimal digits\<close>

definition hexdigit :: "nat \<Rightarrow> char" where
  "hexdigit n = ''0123456789abcdef'' ! n"

definition EncodeToString :: "byte list \<Rightarrow> string" where
  "EncodeToString bs = concat (map (\<lambda>b. [hexdigit (unat b div 16), hexdigit (unat b mod 16)]) bs)"

definition fromHexChar :: "char \<Rightarrow> nat option" where
  "fromHexChar c =
     (let n = of_char c :: nat in
      if 48 \<le> n \<and> n \<le> 57 then Some (n - 48)
      else if 97 \<le> n \<and> n \<le> 102 then Some (n - 97 + 10)
      else if 65 \<le> n \<and> n \<le> 70 then Some (n - 65 + 10)
      else None)"

datatype hex_error = InvalidByteError char | ErrLength

text \<open>\<open>hex.DecodeString\<close> returns what it decoded before an error.\<close>

fun DecodeString :: "string \<Rightarrow> byte list \<times> hex_error option" where
  "DecodeString [] = ([], None)"
| "DecodeString [c] = ([], Some (if fromHexChar c = None then InvalidByteError c else ErrLength))"
| "DecodeString (c # d # cs) =
     (case (fromHexChar c, fromHexChar d) of
        (None, _) \<Rightarrow> ([], Some (InvalidByteError c))
      | (_, None) \<Rightarrow> ([], Some (InvalidByteError d))
      | (Some x, Some y) \<Rightarrow> (let (bs, e) = DecodeString cs in (of_nat (16 * x + y) # bs, e)))"

definition Bytes2Hex :: "byte list \<Rightarrow> string" where
  "Bytes2Hex d = EncodeToString d"

definition Hex2Bytes :: "string \<Rightarrow> byte list" where
  "Hex2Bytes s = fst (DecodeString s)"

definition ToHex :: "byte list \<Rightarrow> string" where
  "ToHex b = (let h = Bytes2Hex b in ''0x'' @ (if length h = 0 then ''0'' else h))"

definition FromHex :: "string \<Rightarrow> byte list" where
  "FromHex s =
     (let s1 = (if 1 < length s \<and> (take 2 s = ''0x'' \<or> take 2 s = ''0X'') then drop 2 s else s);
          s2 = (if length s1 mod 2 = 1 then CHR ''0'' # s1 else s1)
      in Hex2Bytes s2)"

definition lower :: "char \<Rightarrow> char" where
  "lower c = (let n = of_char c :: nat in if 65 \<le> n \<and> n \<le> 90 then char_of (n + 32) else c)"

text \<open>\<open>FromAoAHex\<close> slices the first three bytes of every string longer than one, which panics on a
  string of two. (\<open>strings.EqualFold\<close> on ASCII input.)\<close>

definition FromAoAHex :: "string \<Rightarrow> byte list option" where
  "FromAoAHex s =
     (if 1 < length s then
        (if length s < 3 then None
         else Some (Hex2Bytes (if map lower (take 3 s) = ''aoa'' then drop 3 s else s)))
      else Some (Hex2Bytes s))"

definition hasHexPrefix :: "string \<Rightarrow> bool" where
  "hasHexPrefix s \<longleftrightarrow> 2 \<le> length s \<and> s ! 0 = CHR ''0'' \<and> (s ! 1 = CHR ''x'' \<or> s ! 1 = CHR ''X'')"

definition hasAOAPrefix :: "string \<Rightarrow> bool" where
  "hasAOAPrefix s \<longleftrightarrow> 3 \<le> length s \<and> (s ! 0 = CHR ''A'' \<or> s ! 0 = CHR ''a'') \<and>
     (s ! 1 = CHR ''O'' \<or> s ! 1 = CHR ''o'') \<and> (s ! 2 = CHR ''A'' \<or> s ! 2 = CHR ''a'')"

definition isHexCharacter :: "char \<Rightarrow> bool" where
  "isHexCharacter c \<longleftrightarrow>
     (let n = of_char c :: nat in (48 \<le> n \<and> n \<le> 57) \<or> (97 \<le> n \<and> n \<le> 102) \<or> (65 \<le> n \<and> n \<le> 70))"

definition isHex :: "string \<Rightarrow> bool" where
  "isHex s \<longleftrightarrow> length s mod 2 = 0 \<and> list_all isHexCharacter s"

definition IsHexAddress :: "string \<Rightarrow> bool" where
  "IsHexAddress s =
     (let s1 = (if hasHexPrefix s then drop 2 s else s) in length s1 = 2 * AddressLength \<and> isHex s1)"

definition IsAOAAddress :: "string \<Rightarrow> bool" where
  "IsAOAAddress s =
     (let s1 = (if hasAOAPrefix s then drop 3 s else s) in length s1 = 2 * AddressLength \<and> isHex s1)"

definition HexToAddress :: "string \<Rightarrow> address option" where
  "HexToAddress s =
     (if hasAOAPrefix s then map_option BytesToAddress (FromAoAHex s)
      else Some (BytesToAddress (FromHex s)))"

section \<open>Printing an address\<close>

text \<open>The digits are put in upper case where the hash of the text has a high nibble, and the result is
  put in lower case again. The hash is a parameter.\<close>

definition checksum_char :: "byte list \<Rightarrow> nat \<Rightarrow> char \<Rightarrow> char" where
  "checksum_char h i c =
     (let hashByte = (if i mod 2 = 0 then drop_bit 4 (h ! (i div 2)) else and (h ! (i div 2)) 0xf) in
      if 57 < (of_char c :: nat) \<and> 7 < hashByte then char_of ((of_char c :: nat) - 32) else c)"

definition Hex :: "(string \<Rightarrow> byte list) \<Rightarrow> address \<Rightarrow> string" where
  "Hex sha3 a =
     (let unchecksummed = EncodeToString (address_Bytes a);
          h = sha3 unchecksummed;
          result = map (\<lambda>(i, c). checksum_char h i c) (enumerate 0 unchecksummed)
      in ''AOA'' @ map lower result)"

section \<open>\<open>hexutil\<close>\<close>

datatype hexutil_error = ErrEmptyString | ErrMissingPrefix | ErrOddLength | ErrSyntax

definition mapError :: "hex_error \<Rightarrow> hexutil_error" where
  "mapError e = (case e of InvalidByteError _ \<Rightarrow> ErrSyntax | ErrLength \<Rightarrow> ErrOddLength)"

definition hexutil_Encode :: "byte list \<Rightarrow> string" where
  "hexutil_Encode b = ''0x'' @ EncodeToString b"

definition hexutil_Decode :: "string \<Rightarrow> byte list \<times> hexutil_error option" where
  "hexutil_Decode s =
     (if length s = 0 then ([], Some ErrEmptyString)
      else if \<not> hasHexPrefix s \<and> \<not> hasAOAPrefix s then ([], Some ErrMissingPrefix)
      else let (b, e) = DecodeString (if hasAOAPrefix s then drop 3 s else drop 2 s) in
           (b, map_option mapError e))"

section \<open>Digits and bytes\<close>

lemma hexdigit_facts:
  assumes "n < 16"
  shows "fromHexChar (hexdigit n) = Some n" "isHexCharacter (hexdigit n)"
    "lower (hexdigit n) = hexdigit n"
    "57 < (of_char (hexdigit n) :: nat) \<Longrightarrow> lower (char_of ((of_char (hexdigit n) :: nat) - 32)) = hexdigit n"
proof -
  have "\<forall>m \<in> set [0..<16]. fromHexChar (hexdigit m) = Some m \<and> isHexCharacter (hexdigit m) \<and>
      lower (hexdigit m) = hexdigit m \<and>
      (57 < (of_char (hexdigit m) :: nat) \<longrightarrow> lower (char_of ((of_char (hexdigit m) :: nat) - 32)) = hexdigit m)"
    by code_simp
  with assms show "fromHexChar (hexdigit n) = Some n" "isHexCharacter (hexdigit n)"
    "lower (hexdigit n) = hexdigit n"
    "57 < (of_char (hexdigit n) :: nat) \<Longrightarrow> lower (char_of ((of_char (hexdigit n) :: nat) - 32)) = hexdigit n"
    by auto
qed

lemma hexdigit_less: "m < 16 \<Longrightarrow> n < 16 \<Longrightarrow> hexdigit m < hexdigit n \<longleftrightarrow> m < n"
proof -
  have "\<forall>m \<in> set [0..<16]. \<forall>n \<in> set [0..<16]. (hexdigit m < hexdigit n) = (m < n)"
    by code_simp
  then show "m < 16 \<Longrightarrow> n < 16 \<Longrightarrow> hexdigit m < hexdigit n \<longleftrightarrow> m < n" by simp
qed

lemma nibbles: "unat b div 16 < 16" "unat b mod 16 < 16" for b :: byte
  using unat_bound[of b] by simp_all

lemma DecodeString_Encode: "DecodeString (EncodeToString bs) = (bs, None)"
  by (induction bs) (simp_all add: EncodeToString_def hexdigit_facts nibbles)

lemma EncodeToString_Cons:
  "EncodeToString (b # bs) = hexdigit (unat b div 16) # hexdigit (unat b mod 16) # EncodeToString bs"
  by (simp add: EncodeToString_def)

lemma EncodeToString_Nil [simp]: "EncodeToString [] = []"
  by (simp add: EncodeToString_def)

lemma EncodeToString_digits: "c \<in> set (EncodeToString bs) \<Longrightarrow> \<exists>n < 16. c = hexdigit n"
proof (induction bs)
  case (Cons b bs)
  from Cons.prems consider "c = hexdigit (unat b div 16)" | "c = hexdigit (unat b mod 16)"
    | "c \<in> set (EncodeToString bs)"
    by (auto simp: EncodeToString_Cons)
  then show ?case using Cons.IH nibbles[of b] by cases blast+
qed simp

lemma length_EncodeToString [simp]: "length (EncodeToString bs) = 2 * length bs"
  by (induction bs) (simp_all add: EncodeToString_Cons)

lemma byte_less: "(b :: byte) < c \<longleftrightarrow>
    unat b div 16 < unat c div 16 \<or> (unat b div 16 = unat c div 16 \<and> unat b mod 16 < unat c mod 16)"
proof -
  have "unat b = 16 * (unat b div 16) + unat b mod 16" "unat c = 16 * (unat c div 16) + unat c mod 16"
    by simp_all
  then show ?thesis using nibbles[of b] nibbles[of c] unfolding word_less_nat_alt by linarith
qed

lemma EncodeToString_less:
  "length bs = length cs \<Longrightarrow> EncodeToString bs < EncodeToString cs \<longleftrightarrow> bs < cs"
proof (induction bs cs rule: list_induct2)
  case (Cons b bs c cs)
  have "hexdigit m = hexdigit n \<longleftrightarrow> m = n" if "m < 16" "n < 16" for m n
    using hexdigit_less[OF that] hexdigit_less[OF that(2,1)] by (metis linorder_neq_iff)
  moreover have "b = c \<longleftrightarrow> unat b div 16 = unat c div 16 \<and> unat b mod 16 = unat c mod 16"
    by (metis mult_div_mod_eq word_unat_eq_iff)
  ultimately show ?case
    using Cons by (auto simp: EncodeToString_Cons hexdigit_less nibbles byte_less)
qed simp

lemma be_val_append: "be_val (bs @ [b]) = be_val bs * 256 + unat b"
  by (simp add: be_val_def)

lemma be_val_bytes: "be_val (be_bytes n x) = x mod 256 ^ n"
proof (induction n arbitrary: x)
  case 0
  then show ?case by (simp add: be_val_def)
next
  case (Suc n)
  have "x mod 256 ^ Suc n = (x div 256 mod 256 ^ n) * 256 + x mod 256"
    by (simp add: mod_mult2_eq mult.commute)
  moreover have "unat (of_nat (x mod 256) :: byte) = x mod 256" by (simp add: unat_of_nat)
  ultimately show ?case using Suc by (simp add: be_val_append)
qed

lemma length_be_bytes [simp]: "length (be_bytes n x) = n"
  by (induction n arbitrary: x) simp_all

lemma be_val_Cons: "be_val (b # bs) = unat b * 256 ^ length bs + be_val bs"
proof (induction bs rule: rev_induct)
  case Nil
  then show ?case by (simp add: be_val_def)
next
  case (snoc c cs)
  have "be_val ((b # cs) @ [c]) = be_val (b # cs) * 256 + unat c" by (rule be_val_append)
  with snoc show ?case by (simp add: be_val_append algebra_simps)
qed

lemma be_val_bound: "be_val bs < 256 ^ length bs"
proof (induction bs)
  case Nil
  then show ?case by (simp add: be_val_def)
next
  case (Cons b bs)
  have "unat b \<le> 255" using unat_bound[of b] by simp
  then have "unat b * 256 ^ length bs \<le> 255 * 256 ^ length bs" by (rule mult_right_mono) simp
  moreover have "(256 :: nat) ^ length (b # bs) = 255 * 256 ^ length bs + 256 ^ length bs" by simp
  ultimately show ?case using Cons unfolding be_val_Cons by linarith
qed

lemma be_val_less: "length bs = length cs \<Longrightarrow> bs < cs \<longleftrightarrow> be_val bs < be_val cs"
proof (induction bs cs rule: list_induct2)
  case (Cons b bs c cs)
  have step: "u * (256 ^ length cs :: nat) + x < v * 256 ^ length cs + y"
    if "u < v" "x < 256 ^ length cs" for u v x y
  proof -
    have "Suc u * 256 ^ length cs \<le> v * 256 ^ length cs" using that(1) by (intro mult_right_mono) simp_all
    with that(2) show ?thesis by simp
  qed
  show ?case
    using Cons step[of "unat b" "unat c" "be_val bs" "be_val cs"] step[of "unat c" "unat b" "be_val cs" "be_val bs"]
      be_val_bound[of bs] be_val_bound[of cs]
    by (cases "unat b" "unat c" rule: linorder_cases)
      (auto simp: be_val_Cons word_less_nat_alt word_unat_eq_iff dest: order.asym)
qed (simp add: be_val_def)

section \<open>Properties\<close>

lemma address_roundtrip: "BytesToAddress (address_Bytes a) = a"
proof -
  have "unat a < 256 ^ AddressLength" using unat_bound[of a] by (simp add: AddressLength_def)
  then show ?thesis by (simp add: BytesToAddress_def address_Bytes_def be_val_bytes Let_def)
qed

lemma Hex_eq: "Hex sha3 a = ''AOA'' @ EncodeToString (address_Bytes a)"
proof -
  let ?s = "EncodeToString (address_Bytes a)"
  have lower: "lower (checksum_char h i c) = c" if "c \<in> set ?s" for h i c
    using EncodeToString_digits[OF that] hexdigit_facts by (auto simp: checksum_char_def Let_def)
  have "map lower (map (\<lambda>(i, c). checksum_char h i c) (enumerate 0 ?s)) = map snd (enumerate 0 ?s)" for h
    by (rule nth_equalityI) (auto simp: lower nth_enumerate_eq)
  then show ?thesis by (simp add: Hex_def Let_def)
qed

text \<open>C12: text and addresses. An address prints as \<open>AOA\<close> and its forty lower-case digits: the
  checksum the code computes is undone by the final conversion to lower case. The text is accepted by
  \<open>IsAOAAddress\<close> and parses back to the address, and texts are ordered as the addresses are.\<close>

theorem address_text:
  "Hex sha3 a = ''AOA'' @ EncodeToString (address_Bytes a) \<and>
   HexToAddress (Hex sha3 a) = Some a \<and> IsAOAAddress (Hex sha3 a) \<and>
   (Hex sha3 a < Hex sha3 b \<longleftrightarrow> a < b)"
proof -
  let ?s = "EncodeToString (address_Bytes a)"
  have pre: "hasAOAPrefix (''AOA'' @ ?s)" by (simp add: hasAOAPrefix_def)
  have low: "map lower ''AOA'' = ''aoa''" by code_simp
  have "HexToAddress (''AOA'' @ ?s) = Some a"
    using pre low by (simp add: HexToAddress_def FromAoAHex_def Hex2Bytes_def DecodeString_Encode address_roundtrip)
  moreover have "IsAOAAddress (''AOA'' @ ?s)"
    using pre EncodeToString_digits[of _ "address_Bytes a"] hexdigit_facts(2)
    by (auto simp: IsAOAAddress_def isHex_def list_all_iff address_Bytes_def)
  moreover have "?s < EncodeToString (address_Bytes b) \<longleftrightarrow> a < b"
  proof -
    have "unat x mod 256 ^ AddressLength = unat x" for x :: address
      using unat_bound[of x] by (simp add: AddressLength_def)
    then show ?thesis
      by (simp add: EncodeToString_less be_val_less address_Bytes_def be_val_bytes word_less_nat_alt)
  qed
  ultimately show ?thesis by (simp add: Hex_eq)
qed

lemma of_char_lower:
  "(of_char (lower c) :: nat) = (if 65 \<le> (of_char c :: nat) \<and> (of_char c :: nat) \<le> 90 then of_char c + 32 else of_char c)"
  by (simp add: lower_def Let_def)

lemma of_char_hexdigit:
  assumes "n < 16"
  shows "(of_char (hexdigit n) :: nat) = (if n < 10 then 48 + n else 87 + n)"
proof -
  have "\<forall>m \<in> set [0..<16]. (of_char (hexdigit m) :: nat) = (if m < 10 then 48 + m else 87 + m)" by code_simp
  with assms show ?thesis by simp
qed

lemma char_eq_nat: "c = d \<longleftrightarrow> (of_char c :: nat) = of_char d"
  by (simp add: of_char_eq_iff)

lemma fromHexChar_iff: "fromHexChar c = Some n \<longleftrightarrow> n < 16 \<and> lower c = hexdigit n"
proof (cases "n < 16")
  case True
  then show ?thesis
    unfolding char_eq_nat of_char_lower of_char_hexdigit[OF True] by (simp add: fromHexChar_def Let_def) linarith
next
  case False
  then show ?thesis by (auto simp: fromHexChar_def Let_def)
qed

lemma of_digits: "x < 16 \<Longrightarrow> y < 16 \<Longrightarrow> unat (of_nat (16 * x + y) :: byte) = 16 * x + y"
  unfolding unat_of_nat by simp

lemma DecodeString_iff: "DecodeString s = (bs, None) \<longleftrightarrow> map lower s = EncodeToString bs"
proof (induction s arbitrary: bs rule: induct_list012)
  case (1 bs)
  then show ?case by (cases bs) (auto simp: EncodeToString_Cons)
next
  case (2 c bs)
  then show ?case by (cases bs) (auto simp: EncodeToString_Cons)
next
  case (3 c d cs bs)
  show ?case
  proof (cases bs)
    case Nil
    then show ?thesis by (auto split: option.splits prod.splits)
  next
    case (Cons b bs')
    have "(\<exists>x y. fromHexChar c = Some x \<and> fromHexChar d = Some y \<and> (of_nat (16 * x + y) :: byte) = b) \<longleftrightarrow>
        lower c = hexdigit (unat b div 16) \<and> lower d = hexdigit (unat b mod 16)"
    proof
      assume "\<exists>x y. fromHexChar c = Some x \<and> fromHexChar d = Some y \<and> (of_nat (16 * x + y) :: byte) = b"
      then show "lower c = hexdigit (unat b div 16) \<and> lower d = hexdigit (unat b mod 16)"
        using of_digits by (auto simp: fromHexChar_iff)
    next
      assume "lower c = hexdigit (unat b div 16) \<and> lower d = hexdigit (unat b mod 16)"
      then show "\<exists>x y. fromHexChar c = Some x \<and> fromHexChar d = Some y \<and> (of_nat (16 * x + y) :: byte) = b"
        using nibbles[of b] by (intro exI[of _ "unat b div 16"] exI[of _ "unat b mod 16"]) (simp add: fromHexChar_iff)
    qed
    with Cons "3.IH"(1)[of bs'] show ?thesis
      by (auto simp: EncodeToString_Cons split: option.splits prod.splits)
  qed
qed

lemma lower_letter:
  "lower c = CHR ''a'' \<longleftrightarrow> c = CHR ''a'' \<or> c = CHR ''A''" "lower c = CHR ''o'' \<longleftrightarrow> c = CHR ''o'' \<or> c = CHR ''O''"
  "lower c = CHR ''x'' \<longleftrightarrow> c = CHR ''x'' \<or> c = CHR ''X''" "lower c = CHR ''0'' \<longleftrightarrow> c = CHR ''0''"
  unfolding char_eq_nat of_char_lower by auto

lemma prefix_split:
  "hasHexPrefix s \<longleftrightarrow> (\<exists>p t. s = p @ t \<and> map lower p = ''0x'')" "hasAOAPrefix s \<longleftrightarrow> (\<exists>p t. s = p @ t \<and> map lower p = ''aoa'')"
  "\<not> (hasHexPrefix s \<and> hasAOAPrefix s)"
proof -
  show "hasHexPrefix s \<longleftrightarrow> (\<exists>p t. s = p @ t \<and> map lower p = ''0x'')"
  proof
    assume "hasHexPrefix s"
    moreover from this obtain c d t where "s = c # d # t" by (auto simp: hasHexPrefix_def numeral_2_eq_2 Suc_le_length_iff)
    ultimately show "\<exists>p t. s = p @ t \<and> map lower p = ''0x''"
      by (intro exI[of _ "[c, d]"] exI[of _ t]) (auto simp: hasHexPrefix_def lower_letter)
  qed (auto simp: hasHexPrefix_def map_eq_Cons_conv lower_letter)
  show "hasAOAPrefix s \<longleftrightarrow> (\<exists>p t. s = p @ t \<and> map lower p = ''aoa'')"
  proof
    assume "hasAOAPrefix s"
    moreover from this obtain c d e t where "s = c # d # e # t" by (auto simp: hasAOAPrefix_def numeral_3_eq_3 Suc_le_length_iff)
    ultimately show "\<exists>p t. s = p @ t \<and> map lower p = ''aoa''"
      by (intro exI[of _ "[c, d, e]"] exI[of _ t]) (auto simp: hasAOAPrefix_def lower_letter)
  qed (auto simp: hasAOAPrefix_def map_eq_Cons_conv lower_letter)
  show "\<not> (hasHexPrefix s \<and> hasAOAPrefix s)" by (auto simp: hasHexPrefix_def hasAOAPrefix_def)
qed

lemma Decode_prefixed:
  assumes "map lower p = ''0x'' \<or> map lower p = ''aoa''"
  shows "hexutil_Decode (p @ t) = apsnd (map_option mapError) (DecodeString t)"
proof -
  have "hasAOAPrefix (p @ t) \<and> length p = 3 \<or> hasHexPrefix (p @ t) \<and> \<not> hasAOAPrefix (p @ t) \<and> length p = 2"
    using assms prefix_split[of "p @ t"] by (elim disjE) (auto dest: arg_cong[where f = length])
  then show ?thesis
    by (auto simp: hexutil_Decode_def Let_def apsnd_def map_prod_def split: prod.split)
qed

lemma Decode_unprefixed:
  assumes "\<nexists>p t. s = p @ t \<and> (map lower p = ''0x'' \<or> map lower p = ''aoa'')"
  shows "hexutil_Decode s = ([], Some (if s = [] then ErrEmptyString else ErrMissingPrefix))"
proof -
  have "\<not> hasHexPrefix s" "\<not> hasAOAPrefix s" using assms prefix_split(1,2)[of s] by auto
  then show ?thesis by (simp add: hexutil_Decode_def)
qed

lemma Decode_missing:
  "hexutil_Decode s = ([], Some ErrMissingPrefix) \<longleftrightarrow>
     s \<noteq> [] \<and> (\<nexists>p t. s = p @ t \<and> (map lower p = ''0x'' \<or> map lower p = ''aoa''))" (is "_ \<longleftrightarrow> _ \<and> \<not> ?P")
proof (cases ?P)
  case True
  then obtain p t where pt: "s = p @ t" "map lower p = ''0x'' \<or> map lower p = ''aoa''" by (elim exE conjE) (rule that)
  have "hexutil_Decode s = apsnd (map_option mapError) (DecodeString t)" unfolding pt(1) by (rule Decode_prefixed[OF pt(2)])
  moreover have "map_option mapError e \<noteq> Some ErrMissingPrefix" for e by (auto simp: mapError_def split: hex_error.splits)
  ultimately have "hexutil_Decode s \<noteq> ([], Some ErrMissingPrefix)" by (cases "DecodeString t") simp
  with True show ?thesis by (simp only: simp_thms)
next
  case False
  note d = Decode_unprefixed[OF False]
  show ?thesis unfolding d using False by (simp only: simp_thms prod.inject option.inject hexutil_error.distinct split: if_split)
qed

lemma Decode_iff:
  "hexutil_Decode s = (bs, None) \<longleftrightarrow>
     (\<exists>p t. s = p @ t \<and> (map lower p = ''0x'' \<or> map lower p = ''aoa'') \<and> map lower t = EncodeToString bs)" (is "?l = ?r")
proof
  assume l: ?l
  have "\<exists>p t. s = p @ t \<and> (map lower p = ''0x'' \<or> map lower p = ''aoa'')"
  proof (rule ccontr)
    assume n: "\<nexists>p t. s = p @ t \<and> (map lower p = ''0x'' \<or> map lower p = ''aoa'')"
    from Decode_unprefixed[OF n] l show False by simp
  qed
  then obtain p t where pt: "s = p @ t" "map lower p = ''0x'' \<or> map lower p = ''aoa''" by (elim exE conjE) (rule that)
  have "DecodeString t = (bs, None)" using Decode_prefixed[OF pt(2), of t] l pt(1) by (cases "DecodeString t") simp
  then have "map lower t = EncodeToString bs" unfolding DecodeString_iff .
  with pt show ?r by (intro exI[of _ p] exI[of _ t] conjI)
next
  assume ?r
  then obtain p t where pt: "s = p @ t" "map lower p = ''0x'' \<or> map lower p = ''aoa''" "map lower t = EncodeToString bs"
    by (elim exE conjE) (rule that)
  from pt(3) have "DecodeString t = (bs, None)" unfolding DecodeString_iff .
  then show ?l using Decode_prefixed[OF pt(2), of t] pt(1) by simp
qed

text \<open>C13: \<open>hexutil\<close> decodes what it encodes, and it decodes nothing else: a text decodes to \<open>bs\<close> without an
  error exactly when it is one of the two prefixes followed by the digits of \<open>bs\<close>, letters in either case.
  The empty text is its own error, and the error of a missing prefix is returned exactly for a text that is
  not empty and begins with neither prefix. \<open>FromAoAHex\<close> panics on every string of two bytes.\<close>

theorem hexutil_roundtrip:
  "hexutil_Decode (hexutil_Encode bs) = (bs, None) \<and>
   hexutil_Decode (''AOA'' @ EncodeToString bs) = (bs, None) \<and>
   (hexutil_Decode s = (bs, None) \<longleftrightarrow>
     (\<exists>p t. s = p @ t \<and> (map lower p = ''0x'' \<or> map lower p = ''aoa'') \<and> map lower t = EncodeToString bs)) \<and>
   hexutil_Decode [] = ([], Some ErrEmptyString) \<and>
   (hexutil_Decode s = ([], Some ErrMissingPrefix) \<longleftrightarrow>
     s \<noteq> [] \<and> (\<nexists>p t. s = p @ t \<and> (map lower p = ''0x'' \<or> map lower p = ''aoa''))) \<and>
   FromHex (hexutil_Encode bs) = bs \<and> FromAoAHex [c, d] = None"
proof -
  have pre: "map lower ''0x'' = ''0x''" "map lower ''AOA'' = ''aoa''" by code_simp+
  have "hexutil_Decode (hexutil_Encode bs) = (bs, None)" "hexutil_Decode (''AOA'' @ EncodeToString bs) = (bs, None)"
    using Decode_prefixed[of "''0x''" "EncodeToString bs"] Decode_prefixed[of "''AOA''" "EncodeToString bs"] pre
    by (simp_all add: hexutil_Encode_def DecodeString_Encode)
  moreover have "FromHex (hexutil_Encode bs) = bs" "FromAoAHex [c, d] = None" "hexutil_Decode [] = ([], Some ErrEmptyString)"
    by (simp_all add: hexutil_Encode_def DecodeString_Encode FromHex_def Hex2Bytes_def FromAoAHex_def hexutil_Decode_def)
  ultimately show ?thesis unfolding Decode_iff[symmetric] Decode_missing[symmetric] by simp
qed

end
