(* ===== verification/Assets.thy ===== *)
theory Assets
  imports Aoa_Prelude
begin

text \<open>
  The multi-asset balances of an account, \<open>core/types/asset.go\<close>: a slice of (asset, balance)
  pairs kept in ascending order of the asset's address and searched by bisection. The theory
  shows that the slice implements a map from assets to balances, that additions and successful
  subtractions undo each other, and what a zero entry does to that.
\<close>

section \<open>The operations\<close>

record asset =
  ID :: address
  Balance :: int

type_synonym assets = "asset list"

definition NewAssets :: assets where
  "NewAssets = []"

text \<open>\<open>indexOf\<close>: where the asset is or should be, and whether it is there.\<close>

definition indexOf :: "assets \<Rightarrow> address \<Rightarrow> nat \<times> bool" where
  "indexOf as aid =
     (let n = length as in
      if n = 0 then (0, False)
      else let i = sort_Search n (\<lambda>i. aid \<le> ID (as ! i));
               b = (if i < n then ID (as ! i) = aid else False)
           in (i, b))"

definition AddAsset :: "assets \<Rightarrow> asset \<Rightarrow> assets" where
  "AddAsset as a =
     (let (i, isContain) = indexOf as (ID a) in
      if isContain then as[i := (as ! i)\<lparr>Balance := Balance (as ! i) + Balance a\<rparr>]
      else insert_at i a as)"

text \<open>\<open>SubAsset\<close> returns whether it succeeded; an entry that reaches zero is removed.\<close>

definition SubAsset :: "assets \<Rightarrow> asset \<Rightarrow> bool \<times> assets" where
  "SubAsset as a =
     (let (i, isContain) = indexOf as (ID a) in
      if isContain \<and> Balance a \<le> Balance (as ! i) then
        (let dest = (as ! i)\<lparr>Balance := Balance (as ! i) - Balance a\<rparr> in
         if Balance dest = 0 then
           (True, if i < length as - 1 then take i as @ drop (i + 1) as else take i as)
         else (True, as[i := dest]))
      else (False, as))"

definition BalanceOf :: "assets \<Rightarrow> address \<Rightarrow> int" where
  "BalanceOf as aid =
     (let (i, isContain) = indexOf as aid in if isContain then Balance (as ! i) else 0)"

definition GetAssets :: "assets \<Rightarrow> assets option" where
  "GetAssets as =
     (if 0 < length as then Some (map (\<lambda>a. \<lparr>ID = ID a, Balance = Balance a\<rparr>) as) else None)"

definition IsEmpty :: "assets \<Rightarrow> bool" where
  "IsEmpty as \<longleftrightarrow> length as = 0"

section \<open>The representation invariant\<close>

definition assets_wf :: "assets \<Rightarrow> bool" where
  "assets_wf as \<longleftrightarrow> sorted_wrt (<) (map ID as)"

text \<open>Ascending order splits the slice at any asset.\<close>

lemma assets_split:
  assumes "assets_wf as"
  obtains pre post where "as = pre @ post" "\<And>a. a \<in> set pre \<Longrightarrow> ID a < aid"
    "\<And>a. a \<in> set post \<Longrightarrow> aid \<le> ID a"
proof -
  let ?P = "\<lambda>a. ID a < aid"
  have sorted: "sorted_wrt (\<lambda>x y. ID x < ID y) as"
    using assms by (simp add: assets_wf_def sorted_wrt_map)
  have post: "aid \<le> ID a" if "a \<in> set (dropWhile ?P as)" for a
  proof -
    from that obtain b bs where bs: "dropWhile ?P as = b # bs"
      by (cases "dropWhile ?P as") auto
    then have "\<not> ID b < aid" using hd_dropWhile[of ?P as] by simp
    moreover have "sorted_wrt (\<lambda>x y. ID x < ID y) (b # bs)"
      using sorted bs sorted_wrt_append[of _ "takeWhile ?P as" "b # bs"]
      by (metis takeWhile_dropWhile_id)
    ultimately show ?thesis using that bs by fastforce
  qed
  show thesis
    by (rule that[of "takeWhile ?P as" "dropWhile ?P as"]) (auto dest: set_takeWhileD post)
qed

lemma indexOf_split:
  assumes "\<And>a. a \<in> set pre \<Longrightarrow> ID a < aid" "\<And>a. a \<in> set post \<Longrightarrow> aid \<le> ID a"
  shows "indexOf (pre @ post) aid =
    (length pre, case post of [] \<Rightarrow> False | b # _ \<Rightarrow> ID b = aid)"
proof (cases "pre @ post = []")
  case True
  then show ?thesis by (simp add: indexOf_def)
next
  case False
  have "sort_Search (length (pre @ post)) (\<lambda>i. aid \<le> ID ((pre @ post) ! i)) = length pre"
  proof (rule sort_Search_finds)
    fix k assume "k < length pre"
    then show "\<not> aid \<le> ID ((pre @ post) ! k)"
      using assms(1)[of "pre ! k"] by (simp add: nth_append)
  next
    fix k assume "length pre \<le> k" "k < length (pre @ post)"
    then show "aid \<le> ID ((pre @ post) ! k)"
      using assms(2)[of "post ! (k - length pre)"] by (simp add: nth_append)
  qed simp
  with False show ?thesis by (auto simp: indexOf_def Let_def split: list.splits)
qed

lemma assets_wf_append:
  "assets_wf (pre @ post) \<longleftrightarrow>
     assets_wf pre \<and> assets_wf post \<and> (\<forall>a \<in> set pre. \<forall>b \<in> set post. ID a < ID b)"
  by (auto simp: assets_wf_def sorted_wrt_append)

lemma assets_wf_Cons:
  "assets_wf (a # as) \<longleftrightarrow> (\<forall>b \<in> set as. ID a < ID b) \<and> assets_wf as"
  by (auto simp: assets_wf_def)

lemma assets_wf_Nil [simp]: "assets_wf []"
  by (simp add: assets_wf_def)

text \<open>A slice either holds the asset at a unique place or has a gap for it.\<close>

lemma assets_cases:
  assumes wf: "assets_wf as"
  obtains (present) pre b post where "as = pre @ b # post" "ID b = aid"
      "\<And>a. a \<in> set pre \<Longrightarrow> ID a < aid" "\<And>a. a \<in> set post \<Longrightarrow> aid < ID a"
      "indexOf as aid = (length pre, True)" "assets_wf pre" "assets_wf post"
  | (absent) pre post where "as = pre @ post"
      "\<And>a. a \<in> set pre \<Longrightarrow> ID a < aid" "\<And>a. a \<in> set post \<Longrightarrow> aid < ID a"
      "indexOf as aid = (length pre, False)" "assets_wf pre" "assets_wf post"
proof -
  obtain pre post where split: "as = pre @ post" and pre: "\<And>a. a \<in> set pre \<Longrightarrow> ID a < aid"
    and post: "\<And>a. a \<in> set post \<Longrightarrow> aid \<le> ID a"
    using assets_split[OF wf] by blast
  note ix = indexOf_split[of pre aid post, OF pre post]
  show thesis
  proof (cases "\<exists>b bs. post = b # bs \<and> ID b = aid")
    case True
    then obtain b bs where b: "post = b # bs" "ID b = aid" by blast
    have "\<And>a. a \<in> set bs \<Longrightarrow> aid < ID a"
      using wf b by (auto simp: split assets_wf_append assets_wf_Cons)
    then show thesis
      using present[of pre b bs] split pre b ix wf by (simp add: assets_wf_append assets_wf_Cons)
  next
    case False
    have strict: "aid < ID a" if a: "a \<in> set post" for a
    proof -
      from a obtain b bs where b: "post = b # bs" by (cases post) auto
      with False have "ID b \<noteq> aid" by blast
      with post[of b] b have "aid < ID b" by simp
      moreover have "a = b \<or> ID b < ID a"
        using wf a b by (auto simp: split assets_wf_append assets_wf_Cons)
      ultimately show ?thesis by auto
    qed
    show thesis
      by (rule absent[of pre post]) (use split pre strict ix False wf in \<open>auto simp: assets_wf_append split: list.splits\<close>)
  qed
qed


section \<open>The slice implements a map\<close>

definition assets_abs :: "assets \<Rightarrow> address \<rightharpoonup> int" where
  "assets_abs as = map_of (map (\<lambda>a. (ID a, Balance a)) as)"

lemma assets_abs_None: "(\<And>a. a \<in> set as \<Longrightarrow> ID a \<noteq> aid) \<Longrightarrow> assets_abs as aid = None"
  by (force simp: assets_abs_def map_of_eq_None_iff)

lemma assets_abs_app:
  "assets_abs (pre @ post) = assets_abs post ++ assets_abs pre"
  by (simp add: assets_abs_def)

lemma assets_abs_Cons:
  "assets_abs (b # post) = (assets_abs post)(ID b \<mapsto> Balance b)"
  by (simp add: assets_abs_def)

lemma assets_abs_Nil [simp]: "assets_abs [] = Map.empty"
  by (simp add: assets_abs_def)

lemma assets_abs_mid:
  assumes "\<And>a. a \<in> set pre \<Longrightarrow> ID a \<noteq> ID b"
  shows "assets_abs (pre @ b # post) = (assets_abs (pre @ post))(ID b \<mapsto> Balance b)"
  using assets_abs_None[OF assms]
  by (auto simp: assets_abs_app assets_abs_Cons map_add_def fun_eq_iff split: option.splits)

lemma assets_abs_gap:
  "(\<And>a. a \<in> set pre \<Longrightarrow> ID a < aid) \<Longrightarrow> (\<And>a. a \<in> set post \<Longrightarrow> aid < ID a)
   \<Longrightarrow> assets_abs (pre @ post) aid = None"
  by (rule assets_abs_None) force

lemma indexOf_abs:
  "assets_wf as \<Longrightarrow> (case indexOf as aid of (i, b) \<Rightarrow> if b then Some (Balance (as ! i)) else None)
     = assets_abs as aid"
  by (erule assets_cases[of _ aid]) (auto simp: assets_abs_mid assets_abs_gap less_imp_neq)

lemma BalanceOf_abs:
  "assets_wf as \<Longrightarrow> BalanceOf as aid = (case assets_abs as aid of None \<Rightarrow> 0 | Some v \<Rightarrow> v)"
  using indexOf_abs[of as aid] by (auto simp: BalanceOf_def split: prod.splits if_splits option.splits)

lemma AddAsset_wf [keeps_inv]: "assets_wf as \<Longrightarrow> assets_wf (AddAsset as a)"
  by (erule assets_cases[of _ "ID a"])
    (auto simp: AddAsset_def assets_wf_append assets_wf_Cons dest: less_trans)

lemma AddAsset_abs:
  assumes wf: "assets_wf as"
  shows "assets_abs (AddAsset as a) =
    (assets_abs as)(ID a \<mapsto> (case assets_abs as (ID a) of None \<Rightarrow> Balance a | Some b \<Rightarrow> b + Balance a))"
  using wf
proof (cases rule: assets_cases[of _ "ID a", case_names present absent])
  case (present pre b post)
  then have "AddAsset as a = pre @ b\<lparr>Balance := Balance b + Balance a\<rparr> # post"
    by (simp add: AddAsset_def)
  moreover have "\<And>c. c \<in> set pre \<Longrightarrow> ID c \<noteq> ID b" using present by force
  ultimately show ?thesis using present by (simp add: assets_abs_mid)
next
  case (absent pre post)
  then have "AddAsset as a = pre @ a # post" by (simp add: AddAsset_def)
  moreover have "\<And>c. c \<in> set pre \<Longrightarrow> ID c \<noteq> ID a" using absent by force
  ultimately show ?thesis using absent by (simp add: assets_abs_mid assets_abs_gap)
qed

text \<open>The two ways a subtraction goes, on the slice itself.\<close>

lemma SubAsset_present:
  assumes "indexOf (pre @ b # post) (ID a) = (length pre, True)"
  shows "SubAsset (pre @ b # post) a =
    (if Balance a \<le> Balance b then
       (True, if Balance b = Balance a then pre @ post
              else pre @ b\<lparr>Balance := Balance b - Balance a\<rparr> # post)
     else (False, pre @ b # post))"
  using assms by (auto simp: SubAsset_def Let_def)

lemma SubAsset_absent:
  "indexOf as (ID a) = (i, False) \<Longrightarrow> SubAsset as a = (False, as)"
  by (simp add: SubAsset_def)

lemma SubAsset_wf [keeps_inv]: "assets_wf as \<Longrightarrow> assets_wf (snd (SubAsset as a))"
  by (erule assets_cases[of _ "ID a"])
    (auto simp: SubAsset_present SubAsset_absent assets_wf_append assets_wf_Cons dest: less_trans)

lemma SubAsset_abs:
  assumes wf: "assets_wf as"
  shows "(case assets_abs as (ID a) of
     None \<Rightarrow> SubAsset as a = (False, as)
   | Some b \<Rightarrow>
       if Balance a \<le> b then
         fst (SubAsset as a) \<and>
         assets_abs (snd (SubAsset as a)) =
           (assets_abs as)(ID a := (if b = Balance a then None else Some (b - Balance a)))
       else SubAsset as a = (False, as))"
  using wf
proof (cases rule: assets_cases[of _ "ID a", case_names present absent])
  case (present pre b post)
  have ne: "\<And>c. c \<in> set pre \<Longrightarrow> ID c \<noteq> ID b" using present by force
  have gap: "assets_abs (pre @ post) (ID a) = None"
    using present by (intro assets_abs_gap) auto
  have "indexOf (pre @ b # post) (ID a) = (length pre, True)" using present by simp
  from SubAsset_present[OF this] show ?thesis
    using present ne gap by (auto simp: assets_abs_mid fun_upd_idem)
next
  case (absent pre post)
  then show ?thesis by (simp add: SubAsset_absent assets_abs_gap)
qed

text \<open>A successful subtraction is undone exactly by adding the same amount back; an addition is
  undone exactly by subtracting it unless it landed on an entry that held zero, which the
  subtraction then removes.\<close>

lemma SubAsset_AddAsset:
  assumes wf: "assets_wf as" and ok: "SubAsset as a = (True, as')"
  shows "AddAsset as' a = as"
  using wf
proof (cases rule: assets_cases[of _ "ID a", case_names present absent])
  case (present pre b post)
  from SubAsset_present[of pre b post a] ok present
  have le: "Balance a \<le> Balance b" and as': "as' = (if Balance b = Balance a then pre @ post
      else pre @ b\<lparr>Balance := Balance b - Balance a\<rparr> # post)"
    by (auto split: if_splits)
  show ?thesis
  proof (cases "Balance b = Balance a")
    case True
    have "indexOf (pre @ post) (ID a) = (length pre, False)"
      using present indexOf_split[of pre "ID a" post] by (force split: list.splits)
    then have "AddAsset (pre @ post) a = pre @ a # post" by (simp add: AddAsset_def)
    moreover have "a = b" by (rule asset.equality) (use True present in simp_all)
    moreover have "as' = pre @ post" using as' unfolding if_P[OF True] .
    ultimately show ?thesis using present(1) by (simp only:)
  next
    case False
    let ?b = "b\<lparr>Balance := Balance b - Balance a\<rparr>"
    have "indexOf (pre @ ?b # post) (ID a) = (length pre, True)"
      using present indexOf_split[of pre "ID a" "?b # post"] by force
    then have "AddAsset (pre @ ?b # post) a = pre @ b # post" by (simp add: AddAsset_def)
    moreover have "as' = pre @ ?b # post" using as' unfolding if_not_P[OF False] .
    ultimately show ?thesis using present(1) by (simp only:)
  qed
next
  case (absent pre post)
  then show ?thesis using ok by (simp add: SubAsset_absent)
qed

lemma AddAsset_SubAsset:
  assumes wf: "assets_wf as" and pos: "\<And>b. assets_abs as (ID a) = Some b \<Longrightarrow> 0 < b"
  shows "SubAsset (AddAsset as a) a = (True, as)"
  using wf
proof (cases rule: assets_cases[of _ "ID a", case_names present absent])
  case (present pre b post)
  let ?b = "b\<lparr>Balance := Balance b + Balance a\<rparr>"
  have "\<And>c. c \<in> set pre \<Longrightarrow> ID c \<noteq> ID b" using present by force
  then have "0 < Balance b" using pos present by (simp add: assets_abs_mid)
  moreover have "indexOf (pre @ ?b # post) (ID a) = (length pre, True)"
    using present indexOf_split[of pre "ID a" "?b # post"] by force
  moreover have "AddAsset as a = pre @ ?b # post" using present(1,5) by (simp add: AddAsset_def)
  ultimately show ?thesis using present(1) by (simp add: SubAsset_present)
next
  case (absent pre post)
  have "indexOf (pre @ a # post) (ID a) = (length pre, True)"
    using absent indexOf_split[of pre "ID a" "a # post"] by force
  moreover have "AddAsset as a = pre @ a # post" using absent(1,4) by (simp add: AddAsset_def)
  ultimately show ?thesis using absent(1) by (simp add: SubAsset_present)
qed


section \<open>The ledger interface\<close>

text \<open>What the account state relies on: how a balance reads after each operation, for amounts
  that are not negative, and the laws a client derives from it (undoing an operation, moving an
  amount between two ledgers).\<close>

locale asset_ledger =
  fixes bal :: "'l \<Rightarrow> address \<Rightarrow> int"
    and add :: "'l \<Rightarrow> asset \<Rightarrow> 'l"
    and sub :: "'l \<Rightarrow> asset \<Rightarrow> bool \<times> 'l"
    and linv :: "'l \<Rightarrow> bool"
  assumes bal_nonneg: "linv l \<Longrightarrow> 0 \<le> bal l x"
    and inv_add: "linv l \<Longrightarrow> 0 \<le> Balance a \<Longrightarrow> linv (add l a)"
    and inv_sub: "linv l \<Longrightarrow> 0 \<le> Balance a \<Longrightarrow> linv (snd (sub l a))"
    and bal_add: "linv l \<Longrightarrow> bal (add l a) x = bal l x + (if x = ID a then Balance a else 0)"
    and bal_sub: "linv l \<Longrightarrow> 0 \<le> Balance a \<Longrightarrow>
      bal (snd (sub l a)) x = bal l x - (if x = ID a \<and> Balance a \<le> bal l x then Balance a else 0)"
    and sub_ok: "linv l \<Longrightarrow> 0 < Balance a \<Longrightarrow> fst (sub l a) \<longleftrightarrow> Balance a \<le> bal l (ID a)"
begin

lemma sub_covered: "linv l \<Longrightarrow> 0 \<le> Balance a \<Longrightarrow> fst (sub l a) \<Longrightarrow> Balance a \<le> bal l (ID a)"
  using sub_ok[of l a] bal_nonneg[of l "ID a"] by (cases "Balance a = 0") auto

lemma undo_add: "linv l \<Longrightarrow> 0 \<le> Balance a \<Longrightarrow> bal (snd (sub (add l a) a)) = bal l"
  by (rule ext) (simp add: bal_sub bal_add inv_add bal_nonneg)

lemma undo_sub:
  "linv l \<Longrightarrow> 0 \<le> Balance a \<Longrightarrow> fst (sub l a) \<Longrightarrow> bal (add (snd (sub l a)) a) = bal l"
  by (rule ext) (simp add: bal_sub bal_add inv_sub sub_covered)

lemma sub_cong:
  "linv l \<Longrightarrow> linv r \<Longrightarrow> 0 \<le> Balance a \<Longrightarrow> bal l = bal r
   \<Longrightarrow> bal (snd (sub l a)) = bal (snd (sub r a))"
  by (rule ext) (simp add: bal_sub)

lemma add_cong: "linv l \<Longrightarrow> linv r \<Longrightarrow> bal l = bal r \<Longrightarrow> bal (add l a) = bal (add r a)"
  by (rule ext) (simp add: bal_add)

lemma transfer_conserves:
  "linv l \<Longrightarrow> linv r \<Longrightarrow> 0 \<le> Balance a \<Longrightarrow> fst (sub l a)
   \<Longrightarrow> bal (snd (sub l a)) x + bal (add r a) x = bal l x + bal r x"
  using sub_covered[of l a] by (auto simp: bal_sub bal_add)

end

definition assets_ok :: "assets \<Rightarrow> bool" where
  "assets_ok as \<longleftrightarrow> assets_wf as \<and> (\<forall>a \<in> set as. 0 \<le> Balance a)"

lemma assets_ok_abs:
  "assets_wf as \<Longrightarrow> assets_ok as \<longleftrightarrow> (\<forall>x v. assets_abs as x = Some v \<longrightarrow> 0 \<le> v)"
proof -
  assume wf: "assets_wf as"
  then have "distinct (map ID as)"
    by (simp add: assets_wf_def strict_sorted_iff)
  then have "assets_abs as (ID a) = Some (Balance a)" if "a \<in> set as" for a
    using that unfolding assets_abs_def
    by (intro map_of_is_SomeI) (auto simp: comp_def)
  moreover have "\<exists>a \<in> set as. Balance a = v" if "assets_abs as x = Some v" for x v
    using map_of_SomeD[OF that[unfolded assets_abs_def]] by auto
  ultimately show ?thesis using wf by (force simp: assets_ok_def)
qed

lemma assets_ok_Nil [simp]: "assets_ok []"
  by (simp add: assets_ok_def)

interpretation al: asset_ledger BalanceOf AddAsset SubAsset assets_ok
proof
  fix l :: assets and a :: asset and x :: address
  assume ok: "assets_ok l"
  then have wf: "assets_wf l" by (simp add: assets_ok_def)
  note abs_ok = assets_ok_abs[OF wf, THEN iffD1, OF ok]
  note add = AddAsset_wf[OF wf, of a] AddAsset_abs[OF wf, of a]
  note sub = SubAsset_wf[OF wf, of a] SubAsset_abs[OF wf, of a]
  show "0 \<le> BalanceOf l x"
    using abs_ok by (auto simp: BalanceOf_abs[OF wf] split: option.splits)
  show "BalanceOf (AddAsset l a) x = BalanceOf l x + (if x = ID a then Balance a else 0)"
    using add by (auto simp: BalanceOf_abs wf split: option.splits)
  {
    assume a: "0 \<le> Balance a"
    show "assets_ok (AddAsset l a)"
      using add abs_ok a by (auto simp: assets_ok_abs split: option.splits)
    show "assets_ok (snd (SubAsset l a))"
      using sub abs_ok a ok by (auto simp: assets_ok_abs split: option.splits if_splits)
    show "BalanceOf (snd (SubAsset l a)) x =
        BalanceOf l x - (if x = ID a \<and> Balance a \<le> BalanceOf l x then Balance a else 0)"
      using sub a by (auto simp: BalanceOf_abs wf split: option.splits if_splits)
  }
  assume "0 < Balance a"
  then show "fst (SubAsset l a) \<longleftrightarrow> Balance a \<le> BalanceOf l (ID a)"
    using sub by (auto simp: BalanceOf_abs wf split: option.splits if_splits)
qed


section \<open>Properties\<close>

text \<open>C1: the sorted slice of \<open>core/types/asset.go\<close> implements a map from assets to balances.
  \<open>AddAsset\<close> and \<open>SubAsset\<close> keep the order the bisection needs; reading, adding and subtracting
  act on the represented map as on a finite map, and a subtraction that is not covered, or of an
  asset that is not held, changes nothing and reports failure.\<close>

theorem assets_refine_map:
  assumes "assets_wf as"
  shows "BalanceOf as x = (case assets_abs as x of None \<Rightarrow> 0 | Some v \<Rightarrow> v) \<and>
    assets_wf (AddAsset as a) \<and>
    assets_abs (AddAsset as a) = (assets_abs as)(ID a \<mapsto>
      (case assets_abs as (ID a) of None \<Rightarrow> Balance a | Some b \<Rightarrow> b + Balance a)) \<and>
    assets_wf (snd (SubAsset as a)) \<and>
    (case assets_abs as (ID a) of
       None \<Rightarrow> SubAsset as a = (False, as)
     | Some b \<Rightarrow>
         if Balance a \<le> b then fst (SubAsset as a) \<and>
           assets_abs (snd (SubAsset as a)) =
             (assets_abs as)(ID a := (if b = Balance a then None else Some (b - Balance a)))
         else SubAsset as a = (False, as))"
  using SubAsset_abs[OF assms, of a]
  by (simp add: assms BalanceOf_abs AddAsset_wf AddAsset_abs SubAsset_wf)

theorem assets_refine_map_witness:
  "assets_wf [\<lparr>ID = 5, Balance = 7\<rparr>] \<and>
   BalanceOf [\<lparr>ID = 5, Balance = 7\<rparr>] 5 = 7 \<and>
   assets_abs (AddAsset [\<lparr>ID = 5, Balance = 7\<rparr>] \<lparr>ID = 9, Balance = 2\<rparr>) 9 = Some 2"
proof -
  have wf: "assets_wf [\<lparr>ID = 5, Balance = 7\<rparr>]" by (simp add: assets_wf_def)
  from assets_refine_map[OF wf, of 5 "\<lparr>ID = 9, Balance = 2\<rparr>"] wf
  show ?thesis by (simp add: assets_abs_def)
qed

text \<open>C2: undoing asset operations. Adding back what was subtracted restores the slice exactly, and
  subtracting what was added restores it exactly when the asset was absent or held a positive
  balance. When the entry held zero, undoing the addition of a positive amount removes it.\<close>

theorem assets_undo:
  assumes "assets_wf as"
  shows "(SubAsset as a = (True, as') \<longrightarrow> AddAsset as' a = as) \<and>
    (assets_abs as (ID a) \<noteq> Some 0 \<and> assets_ok as \<longrightarrow> SubAsset (AddAsset as a) a = (True, as)) \<and>
    (assets_abs as (ID a) = Some 0 \<longrightarrow> assets_abs (snd (SubAsset (AddAsset as a) a)) (ID a) = None)"
proof (intro conjI)
  show "SubAsset as a = (True, as') \<longrightarrow> AddAsset as' a = as"
    using SubAsset_AddAsset[OF assms] by blast
  show "assets_abs as (ID a) \<noteq> Some 0 \<and> assets_ok as \<longrightarrow> SubAsset (AddAsset as a) a = (True, as)"
    using AddAsset_SubAsset[OF assms, of a] assets_ok_abs[OF assms]
    by (metis order_le_less)
  show "assets_abs as (ID a) = Some 0 \<longrightarrow> assets_abs (snd (SubAsset (AddAsset as a) a)) (ID a) = None"
    using SubAsset_abs[OF AddAsset_wf[OF assms], of a a] AddAsset_abs[OF assms, of a] by simp
qed

theorem assets_undo_witness:
  "SubAsset (AddAsset [\<lparr>ID = 5, Balance = 7\<rparr>] \<lparr>ID = 5, Balance = 3\<rparr>) \<lparr>ID = 5, Balance = 3\<rparr>
     = (True, [\<lparr>ID = 5, Balance = 7\<rparr>]) \<and>
   assets_abs (snd (SubAsset (AddAsset [\<lparr>ID = 5, Balance = 0\<rparr>] \<lparr>ID = 5, Balance = 3\<rparr>)
     \<lparr>ID = 5, Balance = 3\<rparr>)) 5 = None"
proof -
  have wf: "assets_wf [\<lparr>ID = 5, Balance = b\<rparr>]" for b by (simp add: assets_wf_def)
  from assets_undo[OF wf[of 7], of "\<lparr>ID = 5, Balance = 3\<rparr>"]
    assets_undo[OF wf[of 0], of "\<lparr>ID = 5, Balance = 3\<rparr>"] wf
  show ?thesis by (simp add: assets_abs_def assets_ok_def)
qed

end
