(* ===== verification/State_DB.thy ===== *)
theory State_DB
  imports Assets Asset_Info
begin

text \<open>
  The account state of the chain: \<open>core/state/state_object.go\<close>, \<open>core/state/statedb.go\<close> and
  \<open>core/state/journal.go\<close>. A \<open>StateDB\<close> keeps live state objects above an account trie, a journal
  of undo entries and a stack of snapshots. The Go code mutates objects through pointers held in
  the map of live objects; a method of an object therefore takes the object and the database and
  writes the object back under its address.

  Merkle tries are the maps they store: the account trie maps an address to its decoded account, a
  storage trie maps keys to values, absent keys to zero. What the state layer needs from the
  hash functions, the key-value store and the codec is collected in the record \<open>backend\<close>.
\<close>

section \<open>Data\<close>

datatype db_error = MissingNode | CannotOpenStorage | CannotLoadCode | CannotLoadAbi

record backend =
  keccak256 :: "byte list \<Rightarrow> hash"
  CreateAddress :: "address \<Rightarrow> uint64 \<Rightarrow> address"
  ContractCode :: "hash \<Rightarrow> byte list option"
  ContractAbi :: "hash \<Rightarrow> string option"
  StoredAssetData :: "hash \<Rightarrow> byte list option"
  OpenStorageTrie :: "hash \<Rightarrow> (hash \<Rightarrow> hash) option"
  StorageRoot :: "(hash \<Rightarrow> hash) \<Rightarrow> hash"
  EncodeAssetInfo :: "AssetInfo \<Rightarrow> byte list option"
  DecodeAssetInfo :: "byte list \<Rightarrow> AssetInfo option"

definition emptyCodeHash :: "backend \<Rightarrow> hash" where
  "emptyCodeHash D = keccak256 D []"

text \<open>\<open>Account\<close>: the lock balance is a pointer no constructor initialises, so it may be nil.\<close>

record Account =
  acc_Nonce :: uint64
  acc_Balance :: int
  acc_Root :: hash
  acc_CodeHash :: hash
  acc_LockBalance :: "int option"
  acc_VoteList :: "address list"
  acc_AssetList :: assets
  acc_AssetHash :: "hash option"

record stateObject =
  so_address :: address
  so_data :: Account
  so_dbErr :: "db_error option"
  so_trie :: "(hash \<Rightarrow> hash) option"
  so_code :: "byte list option"
  so_abi :: string
  so_assetData :: "byte list option"
  so_cachedStorage :: "hash \<rightharpoonup> hash"
  so_dirtyStorage :: "hash \<rightharpoonup> hash"
  so_dirtyCode :: bool
  so_suicided :: bool
  so_touched :: bool
  so_deleted :: bool
  so_dirtyAssetData :: bool
  so_onDirty :: bool

record Log =
  log_Address :: address
  log_Topics :: "hash list"
  log_Data :: "byte list"
  log_BlockNumber :: uint64
  log_TxHash :: hash
  log_TxIndex :: uint64
  log_BlockHash :: hash
  log_Index :: uint64

datatype journalEntry =
    createObjectChange address
  | resetObjectChange stateObject
  | suicideChange address bool int
  | balanceChange address int
  | lockBalanceChange address int
  | voteListChange address "address list"
  | nonceChange address uint64
  | storageChange address hash hash
  | codeChange address "byte list option" hash
  | refundChange uint64
  | addLogChange hash
  | addPreimageChange hash
  | touchChange address bool bool
  | assetBalanceChange address asset bool

text \<open>What \<open>trie.TryGet\<close> and the decoder give for an address.\<close>

datatype trie_entry = NotFound "db_error option" | Undecodable | Stored Account

record StateDB =
  trie :: "address \<Rightarrow> trie_entry"
  stateObjects :: "address \<rightharpoonup> stateObject"
  stateObjectsDirty :: "address set"
  dbErr :: "db_error option"
  refund :: uint64
  thash :: hash
  bhash :: hash
  txIndex :: uint64
  logs :: "hash \<rightharpoonup> Log list"
  logSize :: uint64
  preimages :: "hash \<rightharpoonup> byte list"
  journal :: "journalEntry list"
  validRevisions :: "(nat \<times> nat) list"
  nextRevisionId :: nat

definition ripemd :: address where
  "ripemd = 3"

section \<open>State objects\<close>

definition newObject :: "address \<Rightarrow> Account \<Rightarrow> stateObject" where
  "newObject a acc =
     \<lparr>so_address = a, so_data = acc, so_dbErr = None, so_trie = None, so_code = None, so_abi = [],
      so_assetData = None, so_cachedStorage = Map.empty, so_dirtyStorage = Map.empty,
      so_dirtyCode = False, so_suicided = False, so_touched = False, so_deleted = False,
      so_dirtyAssetData = False, so_onDirty = True\<rparr>"

text \<open>The zero \<open>Account\<close> after \<open>newObject\<close> has replaced its nil balance, code hash and assets.\<close>

definition zeroAccount :: "backend \<Rightarrow> Account" where
  "zeroAccount D =
     \<lparr>acc_Nonce = 0, acc_Balance = 0, acc_Root = 0, acc_CodeHash = emptyCodeHash D,
      acc_LockBalance = None, acc_VoteList = [], acc_AssetList = NewAssets, acc_AssetHash = None\<rparr>"

definition empty_obj :: "backend \<Rightarrow> stateObject \<Rightarrow> bool" where
  "empty_obj D o1 \<longleftrightarrow> acc_Nonce (so_data o1) = 0 \<and> acc_Balance (so_data o1) = 0 \<and>
     acc_CodeHash (so_data o1) = emptyCodeHash D \<and> IsEmpty (acc_AssetList (so_data o1))"

definition append_journal :: "journalEntry \<Rightarrow> StateDB \<Rightarrow> StateDB" where
  "append_journal e s = s\<lparr>journal := journal s @ [e]\<rparr>"

definition setStateObject :: "stateObject \<Rightarrow> StateDB \<Rightarrow> StateDB" where
  "setStateObject o1 s = s\<lparr>stateObjects := (stateObjects s)(so_address o1 \<mapsto> o1)\<rparr>"

definition MarkStateObjectDirty :: "address \<Rightarrow> StateDB \<Rightarrow> StateDB" where
  "MarkStateObjectDirty a s = s\<lparr>stateObjectsDirty := insert a (stateObjectsDirty s)\<rparr>"

text \<open>\<open>onDirty\<close> is the callback that marks the object dirty, nil once it has run.\<close>

definition tryMarkDirty :: "stateObject \<Rightarrow> StateDB \<Rightarrow> StateDB" where
  "tryMarkDirty o1 s =
     (if so_onDirty o1
      then setStateObject (o1\<lparr>so_onDirty := False\<rparr>) (MarkStateObjectDirty (so_address o1) s)
      else setStateObject o1 s)"

definition markSuicided :: "stateObject \<Rightarrow> StateDB \<Rightarrow> stateObject \<times> StateDB" where
  "markSuicided o1 s =
     (let o2 = o1\<lparr>so_suicided := True\<rparr> in (o2\<lparr>so_onDirty := False\<rparr>, tryMarkDirty o2 s))"

definition touch :: "stateObject \<Rightarrow> StateDB \<Rightarrow> StateDB" where
  "touch o1 s =
     tryMarkDirty (o1\<lparr>so_touched := True\<rparr>)
       (append_journal (touchChange (so_address o1) (so_touched o1) (\<not> so_onDirty o1)) s)"

definition setBalance :: "stateObject \<Rightarrow> int \<Rightarrow> StateDB \<Rightarrow> StateDB" where
  "setBalance o1 v s = tryMarkDirty (o1\<lparr>so_data := (so_data o1)\<lparr>acc_Balance := v\<rparr>\<rparr>) s"

definition obj_SetBalance :: "stateObject \<Rightarrow> int \<Rightarrow> StateDB \<Rightarrow> StateDB" where
  "obj_SetBalance o1 v s =
     setBalance o1 v (append_journal (balanceChange (so_address o1) (acc_Balance (so_data o1))) s)"

definition obj_AddBalance :: "backend \<Rightarrow> stateObject \<Rightarrow> int \<Rightarrow> StateDB \<Rightarrow> StateDB" where
  "obj_AddBalance D o1 v s =
     (if v = 0 then (if empty_obj D o1 then touch o1 s else s)
      else obj_SetBalance o1 (acc_Balance (so_data o1) + v) s)"

definition obj_SubBalance :: "stateObject \<Rightarrow> int \<Rightarrow> StateDB \<Rightarrow> StateDB" where
  "obj_SubBalance o1 v s =
     (if v = 0 then s else obj_SetBalance o1 (acc_Balance (so_data o1) - v) s)"

definition setLockBalance :: "stateObject \<Rightarrow> int \<Rightarrow> StateDB \<Rightarrow> StateDB" where
  "setLockBalance o1 v s = tryMarkDirty (o1\<lparr>so_data := (so_data o1)\<lparr>acc_LockBalance := Some v\<rparr>\<rparr>) s"

text \<open>\<open>new(big.Int).Set\<close> and \<open>Add\<close> dereference their argument: a nil lock balance panics.\<close>

definition obj_SetLockBalance :: "stateObject \<Rightarrow> int \<Rightarrow> StateDB \<Rightarrow> StateDB option" where
  "obj_SetLockBalance o1 v s =
     (case acc_LockBalance (so_data o1) of
        None \<Rightarrow> None
      | Some p \<Rightarrow> Some (setLockBalance o1 v (append_journal (lockBalanceChange (so_address o1) p) s)))"

definition obj_AddLockBalance :: "backend \<Rightarrow> stateObject \<Rightarrow> int \<Rightarrow> StateDB \<Rightarrow> StateDB option" where
  "obj_AddLockBalance D o1 v s =
     (if v = 0 then Some (if empty_obj D o1 then touch o1 s else s)
      else case acc_LockBalance (so_data o1) of
        None \<Rightarrow> None
      | Some p \<Rightarrow> obj_SetLockBalance o1 (p + v) s)"

definition obj_SubLockBalance :: "stateObject \<Rightarrow> int \<Rightarrow> StateDB \<Rightarrow> StateDB option" where
  "obj_SubLockBalance o1 v s =
     (if v = 0 then Some s
      else case acc_LockBalance (so_data o1) of
        None \<Rightarrow> None
      | Some p \<Rightarrow> obj_SetLockBalance o1 (p - v) s)"

definition setNonce :: "stateObject \<Rightarrow> uint64 \<Rightarrow> StateDB \<Rightarrow> StateDB" where
  "setNonce o1 n s = tryMarkDirty (o1\<lparr>so_data := (so_data o1)\<lparr>acc_Nonce := n\<rparr>\<rparr>) s"

definition obj_SetNonce :: "stateObject \<Rightarrow> uint64 \<Rightarrow> StateDB \<Rightarrow> StateDB" where
  "obj_SetNonce o1 n s =
     setNonce o1 n (append_journal (nonceChange (so_address o1) (acc_Nonce (so_data o1))) s)"

definition setVoteList :: "stateObject \<Rightarrow> address list \<Rightarrow> StateDB \<Rightarrow> StateDB" where
  "setVoteList o1 vs s = tryMarkDirty (o1\<lparr>so_data := (so_data o1)\<lparr>acc_VoteList := vs\<rparr>\<rparr>) s"

definition obj_SetVoteList :: "stateObject \<Rightarrow> address list \<Rightarrow> StateDB \<Rightarrow> StateDB" where
  "obj_SetVoteList o1 vs s =
     setVoteList o1 vs (append_journal (voteListChange (so_address o1) (acc_VoteList (so_data o1))) s)"


subsection \<open>Storage and code\<close>

definition getTrie :: "backend \<Rightarrow> stateObject \<Rightarrow> (hash \<Rightarrow> hash) \<times> stateObject" where
  "getTrie D o1 =
     (case so_trie o1 of
        Some t \<Rightarrow> (t, o1)
      | None \<Rightarrow>
          (case OpenStorageTrie D (acc_Root (so_data o1)) of
             Some t \<Rightarrow> (t, o1\<lparr>so_trie := Some t\<rparr>)
           | None \<Rightarrow> ((\<lambda>_. 0), o1\<lparr>so_trie := Some (\<lambda>_. 0),
               so_dbErr := (case so_dbErr o1 of None \<Rightarrow> Some CannotOpenStorage | Some e \<Rightarrow> Some e)\<rparr>)))"

text \<open>A key that \<open>TryGet\<close> cannot read for a missing node returns zero and is not cached: such a key is one the map of the
  trie sends to zero, and the error the object then notes is not modelled. A value is the content \<open>rlp.Split\<close> finds in what is stored.\<close>

definition obj_GetState :: "backend \<Rightarrow> stateObject \<Rightarrow> hash \<Rightarrow> hash \<times> stateObject" where
  "obj_GetState D o1 key =
     (case so_cachedStorage o1 key of
        Some v \<Rightarrow> (v, o1)
      | None \<Rightarrow>
          (let (t, o2) = getTrie D o1; v = t key in
           (v, if v \<noteq> 0 then o2\<lparr>so_cachedStorage := (so_cachedStorage o2)(key \<mapsto> v)\<rparr> else o2)))"

definition setState :: "stateObject \<Rightarrow> hash \<Rightarrow> hash \<Rightarrow> StateDB \<Rightarrow> StateDB" where
  "setState o1 key v s =
     tryMarkDirty (o1\<lparr>so_cachedStorage := (so_cachedStorage o1)(key \<mapsto> v),
                      so_dirtyStorage := (so_dirtyStorage o1)(key \<mapsto> v)\<rparr>) s"

definition obj_SetState :: "backend \<Rightarrow> stateObject \<Rightarrow> hash \<Rightarrow> hash \<Rightarrow> StateDB \<Rightarrow> StateDB" where
  "obj_SetState D o1 key v s =
     (let (prev, o2) = obj_GetState D o1 key in
      setState o2 key v (append_journal (storageChange (so_address o1) key prev) s))"

text \<open>\<open>updateTrie\<close> moves the dirty slots into the storage trie (a zero value deletes the slot) and
  \<open>updateRoot\<close> records the new root.\<close>

definition updateTrie :: "backend \<Rightarrow> stateObject \<Rightarrow> stateObject" where
  "updateTrie D o1 =
     (let (t, o2) = getTrie D o1 in
      o2\<lparr>so_trie := Some (\<lambda>k. case so_dirtyStorage o2 k of Some v \<Rightarrow> v | None \<Rightarrow> t k),
         so_dirtyStorage := Map.empty\<rparr>)"

definition updateRoot :: "backend \<Rightarrow> stateObject \<Rightarrow> stateObject" where
  "updateRoot D o1 =
     (let o2 = updateTrie D o1 in
      case so_trie o2 of
        Some t \<Rightarrow> o2\<lparr>so_data := (so_data o2)\<lparr>acc_Root := StorageRoot D t\<rparr>\<rparr>
      | None \<Rightarrow> o2)"

definition obj_Code :: "backend \<Rightarrow> stateObject \<Rightarrow> byte list option \<times> stateObject" where
  "obj_Code D o1 =
     (case so_code o1 of
        Some c \<Rightarrow> (Some c, o1)
      | None \<Rightarrow>
          if acc_CodeHash (so_data o1) = emptyCodeHash D then (None, o1)
          else (case ContractCode D (acc_CodeHash (so_data o1)) of
             Some c \<Rightarrow> (Some c, o1\<lparr>so_code := Some c\<rparr>)
           | None \<Rightarrow> (None, o1\<lparr>so_dbErr :=
               (case so_dbErr o1 of None \<Rightarrow> Some CannotLoadCode | Some e \<Rightarrow> Some e)\<rparr>)))"

definition setCode :: "stateObject \<Rightarrow> hash \<Rightarrow> byte list option \<Rightarrow> StateDB \<Rightarrow> StateDB" where
  "setCode o1 h c s =
     tryMarkDirty (o1\<lparr>so_code := c, so_data := (so_data o1)\<lparr>acc_CodeHash := h\<rparr>, so_dirtyCode := True\<rparr>) s"

definition obj_SetCode :: "backend \<Rightarrow> stateObject \<Rightarrow> hash \<Rightarrow> byte list \<Rightarrow> StateDB \<Rightarrow> StateDB" where
  "obj_SetCode D o1 h c s =
     (let (prevcode, o2) = obj_Code D o1 in
      setCode o2 h (Some c)
        (append_journal (codeChange (so_address o2) prevcode (acc_CodeHash (so_data o2))) s))"

definition obj_Abi :: "backend \<Rightarrow> stateObject \<Rightarrow> string \<times> stateObject" where
  "obj_Abi D o1 =
     (if so_abi o1 \<noteq> [] then (so_abi o1, o1)
      else if acc_CodeHash (so_data o1) = emptyCodeHash D then ([], o1)
      else (case ContractAbi D (acc_CodeHash (so_data o1)) of
         Some b \<Rightarrow> (b, o1\<lparr>so_abi := b\<rparr>)
       | None \<Rightarrow> ([], o1\<lparr>so_dbErr :=
           (case so_dbErr o1 of None \<Rightarrow> Some CannotLoadAbi | Some e \<Rightarrow> Some e)\<rparr>)))"

subsection \<open>Assets\<close>

definition obj_SubAssetBalance :: "stateObject \<Rightarrow> address \<Rightarrow> int \<Rightarrow> StateDB \<Rightarrow> bool \<times> StateDB" where
  "obj_SubAssetBalance o1 aid v s =
     (let a = \<lparr>ID = aid, Balance = v\<rparr>;
          (isOk, as') = SubAsset (acc_AssetList (so_data o1)) a in
      if isOk then
        (True, tryMarkDirty (o1\<lparr>so_data := (so_data o1)\<lparr>acc_AssetList := as'\<rparr>\<rparr>)
                 (append_journal (assetBalanceChange (so_address o1) a False) s))
      else (False, s))"

definition obj_AddAssetBalance :: "stateObject \<Rightarrow> address \<Rightarrow> int \<Rightarrow> StateDB \<Rightarrow> StateDB" where
  "obj_AddAssetBalance o1 aid v s =
     (let a = \<lparr>ID = aid, Balance = v\<rparr> in
      tryMarkDirty (o1\<lparr>so_data := (so_data o1)\<lparr>acc_AssetList := AddAsset (acc_AssetList (so_data o1)) a\<rparr>\<rparr>)
        (append_journal (assetBalanceChange (so_address o1) a True) s))"

definition revertAssetBalance :: "stateObject \<Rightarrow> asset \<Rightarrow> bool \<Rightarrow> StateDB \<Rightarrow> StateDB" where
  "revertAssetBalance o1 a preOpIsAdd s =
     tryMarkDirty (o1\<lparr>so_data := (so_data o1)\<lparr>acc_AssetList :=
       (if preOpIsAdd then snd (SubAsset (acc_AssetList (so_data o1)) a)
        else AddAsset (acc_AssetList (so_data o1)) a)\<rparr>\<rparr>) s"

text \<open>\<open>SetAssetData\<close> refuses to overwrite; it is not journaled.\<close>

definition SetAssetData :: "stateObject \<Rightarrow> hash \<Rightarrow> byte list \<Rightarrow> StateDB \<Rightarrow> (stateObject \<times> StateDB) option" where
  "SetAssetData o1 h d s =
     (if (case so_assetData o1 of None \<Rightarrow> False | Some b \<Rightarrow> b \<noteq> []) then None
      else let o2 = o1\<lparr>so_assetData := Some d, so_data := (so_data o1)\<lparr>acc_AssetHash := Some h\<rparr>,
                       so_dirtyAssetData := True\<rparr>
           in Some (o2\<lparr>so_onDirty := False\<rparr>, tryMarkDirty o2 s))"

definition IsAssetAccount :: "backend \<Rightarrow> stateObject \<Rightarrow> bool" where
  "IsAssetAccount D o1 \<longleftrightarrow>
     (case acc_AssetHash (so_data o1) of None \<Rightarrow> False | Some h \<Rightarrow> h \<noteq> emptyCodeHash D)"

definition obj_AssetData :: "backend \<Rightarrow> stateObject \<Rightarrow> (byte list option) option \<times> stateObject" where
  "obj_AssetData D o1 =
     (case so_assetData o1 of
        Some d \<Rightarrow> (Some (Some d), o1)
      | None \<Rightarrow>
          if \<not> IsAssetAccount D o1 then (Some None, o1)
          else (case acc_AssetHash (so_data o1) of
             None \<Rightarrow> (Some None, o1)
           | Some h \<Rightarrow> (case StoredAssetData D h of
               Some d \<Rightarrow> (Some (Some d), o1\<lparr>so_assetData := Some d\<rparr>)
             | None \<Rightarrow> (None, o1))))"

section \<open>The database\<close>

definition New :: "(address \<Rightarrow> trie_entry) \<Rightarrow> StateDB" where
  "New tr =
     \<lparr>trie = tr, stateObjects = Map.empty, stateObjectsDirty = {}, dbErr = None, refund = 0,
      thash = 0, bhash = 0, txIndex = 0, logs = Map.empty, logSize = 0, preimages = Map.empty,
      journal = [], validRevisions = [], nextRevisionId = 0\<rparr>"

definition setError :: "db_error option \<Rightarrow> StateDB \<Rightarrow> StateDB" where
  "setError e s = (if dbErr s = None then s\<lparr>dbErr := e\<rparr> else s)"

definition clearJournalAndRefund :: "StateDB \<Rightarrow> StateDB" where
  "clearJournalAndRefund s = s\<lparr>journal := [], validRevisions := [], refund := 0\<rparr>"

definition Reset :: "(address \<Rightarrow> trie_entry) \<Rightarrow> StateDB \<Rightarrow> StateDB" where
  "Reset tr s =
     clearJournalAndRefund
       (s\<lparr>trie := tr, stateObjects := Map.empty, stateObjectsDirty := {}, thash := 0, bhash := 0,
          txIndex := 0, logs := Map.empty, logSize := 0, preimages := Map.empty\<rparr>)"

definition Prepare :: "hash \<Rightarrow> hash \<Rightarrow> uint64 \<Rightarrow> StateDB \<Rightarrow> StateDB" where
  "Prepare th bh ti s = s\<lparr>thash := th, bhash := bh, txIndex := ti\<rparr>"

definition AddLog :: "Log \<Rightarrow> StateDB \<Rightarrow> StateDB" where
  "AddLog l s =
     (let s1 = append_journal (addLogChange (thash s)) s;
          l1 = l\<lparr>log_TxHash := thash s, log_BlockHash := bhash s, log_TxIndex := txIndex s,
                 log_Index := logSize s\<rparr>;
          old = (case logs s (thash s) of None \<Rightarrow> [] | Some ls \<Rightarrow> ls) in
      s1\<lparr>logs := (logs s)(thash s \<mapsto> old @ [l1]), logSize := logSize s + 1\<rparr>)"

definition GetLogs :: "hash \<Rightarrow> StateDB \<Rightarrow> Log list" where
  "GetLogs h s = (case logs s h of None \<Rightarrow> [] | Some ls \<Rightarrow> ls)"

definition AddPreimage :: "hash \<Rightarrow> byte list \<Rightarrow> StateDB \<Rightarrow> StateDB" where
  "AddPreimage h p s =
     (if preimages s h = None
      then (append_journal (addPreimageChange h) s)\<lparr>preimages := (preimages s)(h \<mapsto> p)\<rparr>
      else s)"

definition AddRefund :: "uint64 \<Rightarrow> StateDB \<Rightarrow> StateDB" where
  "AddRefund g s = (append_journal (refundChange (refund s)) s)\<lparr>refund := refund s + g\<rparr>"

definition GetRefund :: "StateDB \<Rightarrow> uint64" where
  "GetRefund s = refund s"


subsection \<open>Finding and creating objects\<close>

definition getStateObject :: "address \<Rightarrow> StateDB \<Rightarrow> stateObject option \<times> StateDB" where
  "getStateObject a s =
     (case stateObjects s a of
        Some o1 \<Rightarrow> (if so_deleted o1 then None else Some o1, s)
      | None \<Rightarrow>
          (case trie s a of
             NotFound e \<Rightarrow> (None, setError e s)
           | Undecodable \<Rightarrow> (None, s)
           | Stored acc \<Rightarrow> (let o1 = newObject a acc in (Some o1, setStateObject o1 s))))"

text \<open>\<open>createObject\<close> returns the new object and the one it replaces.\<close>

definition createObject :: "backend \<Rightarrow> address \<Rightarrow> StateDB \<Rightarrow> stateObject \<times> stateObject option \<times> StateDB" where
  "createObject D a s =
     (let (prev, s1) = getStateObject a s;
          newobj = newObject a (zeroAccount D);
          s2 = setNonce newobj 0 s1;
          s3 = append_journal
                 (case prev of None \<Rightarrow> createObjectChange a | Some p \<Rightarrow> resetObjectChange p) s2
      in (newobj\<lparr>so_onDirty := False\<rparr>, prev, s3))"

definition GetOrNewStateObject :: "backend \<Rightarrow> address \<Rightarrow> StateDB \<Rightarrow> stateObject \<times> StateDB" where
  "GetOrNewStateObject D a s =
     (case getStateObject a s of
        (Some o1, s1) \<Rightarrow> (o1, s1)
      | (None, s1) \<Rightarrow> (case createObject D a s1 of (o1, _, s2) \<Rightarrow> (o1, s2)))"

definition CreateAccount :: "backend \<Rightarrow> address \<Rightarrow> StateDB \<Rightarrow> StateDB" where
  "CreateAccount D a s =
     (case createObject D a s of
        (new, None, s1) \<Rightarrow> s1
      | (new, Some prev, s1) \<Rightarrow> setBalance new (acc_Balance (so_data prev)) s1)"

subsection \<open>Reading\<close>

definition Exist :: "address \<Rightarrow> StateDB \<Rightarrow> bool \<times> StateDB" where
  "Exist a s = (case getStateObject a s of (o1, s1) \<Rightarrow> (o1 \<noteq> None, s1))"

definition Empty :: "backend \<Rightarrow> address \<Rightarrow> StateDB \<Rightarrow> bool \<times> StateDB" where
  "Empty D a s =
     (case getStateObject a s of (o1, s1) \<Rightarrow> (case o1 of None \<Rightarrow> True | Some o2 \<Rightarrow> empty_obj D o2, s1))"

definition GetBalance :: "address \<Rightarrow> StateDB \<Rightarrow> int \<times> StateDB" where
  "GetBalance a s =
     (case getStateObject a s of
        (Some o1, s1) \<Rightarrow> (acc_Balance (so_data o1), s1) | (None, s1) \<Rightarrow> (0, s1))"

text \<open>The lock balance is a pointer: nil for an object created in memory.\<close>

definition GetLockBalance :: "address \<Rightarrow> StateDB \<Rightarrow> int option \<times> StateDB" where
  "GetLockBalance a s =
     (case getStateObject a s of
        (Some o1, s1) \<Rightarrow> (acc_LockBalance (so_data o1), s1) | (None, s1) \<Rightarrow> (Some 0, s1))"

definition GetAssetBalance :: "address \<Rightarrow> address \<Rightarrow> StateDB \<Rightarrow> int \<times> StateDB" where
  "GetAssetBalance a aid s =
     (case getStateObject a s of
        (Some o1, s1) \<Rightarrow> (BalanceOf (acc_AssetList (so_data o1)) aid, s1) | (None, s1) \<Rightarrow> (0, s1))"

definition db_GetAssets :: "address \<Rightarrow> StateDB \<Rightarrow> assets option \<times> StateDB" where
  "db_GetAssets a s =
     (case getStateObject a s of
        (Some o1, s1) \<Rightarrow> (GetAssets (acc_AssetList (so_data o1)), s1) | (None, s1) \<Rightarrow> (None, s1))"

definition GetVoteList :: "address \<Rightarrow> StateDB \<Rightarrow> address list \<times> StateDB" where
  "GetVoteList a s =
     (case getStateObject a s of
        (Some o1, s1) \<Rightarrow> (acc_VoteList (so_data o1), s1) | (None, s1) \<Rightarrow> ([], s1))"

definition GetNonce :: "address \<Rightarrow> StateDB \<Rightarrow> uint64 \<times> StateDB" where
  "GetNonce a s =
     (case getStateObject a s of
        (Some o1, s1) \<Rightarrow> (acc_Nonce (so_data o1), s1) | (None, s1) \<Rightarrow> (0, s1))"

definition GetCode :: "backend \<Rightarrow> address \<Rightarrow> StateDB \<Rightarrow> byte list option \<times> StateDB" where
  "GetCode D a s =
     (case getStateObject a s of
        (Some o1, s1) \<Rightarrow> (case obj_Code D o1 of (c, o2) \<Rightarrow> (c, setStateObject o2 s1))
      | (None, s1) \<Rightarrow> (None, s1))"

definition GetCodeSize :: "backend \<Rightarrow> address \<Rightarrow> StateDB \<Rightarrow> nat \<times> StateDB" where
  "GetCodeSize D a s =
     (case getStateObject a s of
        (None, s1) \<Rightarrow> (0, s1)
      | (Some o1, s1) \<Rightarrow>
          (case so_code o1 of
             Some c \<Rightarrow> (length c, s1)
           | None \<Rightarrow> (case ContractCode D (acc_CodeHash (so_data o1)) of
                 Some c \<Rightarrow> (length c, s1)
               | None \<Rightarrow> (0, setError (Some CannotLoadCode) s1))))"

definition GetCodeHash :: "address \<Rightarrow> StateDB \<Rightarrow> hash \<times> StateDB" where
  "GetCodeHash a s =
     (case getStateObject a s of
        (Some o1, s1) \<Rightarrow> (acc_CodeHash (so_data o1), s1) | (None, s1) \<Rightarrow> (0, s1))"

definition GetAbi :: "backend \<Rightarrow> address \<Rightarrow> StateDB \<Rightarrow> string \<times> StateDB" where
  "GetAbi D a s =
     (case getStateObject a s of
        (Some o1, s1) \<Rightarrow> (case obj_Abi D o1 of (b, o2) \<Rightarrow> (b, setStateObject o2 s1))
      | (None, s1) \<Rightarrow> ([], s1))"

definition GetState :: "backend \<Rightarrow> address \<Rightarrow> hash \<Rightarrow> StateDB \<Rightarrow> hash \<times> StateDB" where
  "GetState D a key s =
     (case getStateObject a s of
        (Some o1, s1) \<Rightarrow> (case obj_GetState D o1 key of (v, o2) \<Rightarrow> (v, setStateObject o2 s1))
      | (None, s1) \<Rightarrow> (0, s1))"

definition HasSuicided :: "address \<Rightarrow> StateDB \<Rightarrow> bool \<times> StateDB" where
  "HasSuicided a s =
     (case getStateObject a s of (Some o1, s1) \<Rightarrow> (so_suicided o1, s1) | (None, s1) \<Rightarrow> (False, s1))"

subsection \<open>Writing\<close>

definition AddBalance :: "backend \<Rightarrow> address \<Rightarrow> int \<Rightarrow> StateDB \<Rightarrow> StateDB" where
  "AddBalance D a v s = (case GetOrNewStateObject D a s of (o1, s1) \<Rightarrow> obj_AddBalance D o1 v s1)"

definition SubBalance :: "backend \<Rightarrow> address \<Rightarrow> int \<Rightarrow> StateDB \<Rightarrow> StateDB" where
  "SubBalance D a v s = (case GetOrNewStateObject D a s of (o1, s1) \<Rightarrow> obj_SubBalance o1 v s1)"

definition SetBalance :: "backend \<Rightarrow> address \<Rightarrow> int \<Rightarrow> StateDB \<Rightarrow> StateDB" where
  "SetBalance D a v s = (case GetOrNewStateObject D a s of (o1, s1) \<Rightarrow> obj_SetBalance o1 v s1)"

definition AddLockBalance :: "backend \<Rightarrow> address \<Rightarrow> int \<Rightarrow> StateDB \<Rightarrow> StateDB option" where
  "AddLockBalance D a v s = (case GetOrNewStateObject D a s of (o1, s1) \<Rightarrow> obj_AddLockBalance D o1 v s1)"

definition SubLockBalance :: "backend \<Rightarrow> address \<Rightarrow> int \<Rightarrow> StateDB \<Rightarrow> StateDB option" where
  "SubLockBalance D a v s = (case GetOrNewStateObject D a s of (o1, s1) \<Rightarrow> obj_SubLockBalance o1 v s1)"

definition SetLockBalance :: "backend \<Rightarrow> address \<Rightarrow> int \<Rightarrow> StateDB \<Rightarrow> StateDB option" where
  "SetLockBalance D a v s = (case GetOrNewStateObject D a s of (o1, s1) \<Rightarrow> obj_SetLockBalance o1 v s1)"

definition SubAssetBalance :: "backend \<Rightarrow> address \<Rightarrow> address \<Rightarrow> int \<Rightarrow> StateDB \<Rightarrow> bool \<times> StateDB" where
  "SubAssetBalance D a aid v s =
     (case GetOrNewStateObject D a s of (o1, s1) \<Rightarrow> obj_SubAssetBalance o1 aid v s1)"

definition AddAssetBalance :: "backend \<Rightarrow> address \<Rightarrow> address \<Rightarrow> int \<Rightarrow> StateDB \<Rightarrow> StateDB" where
  "AddAssetBalance D a aid v s =
     (case GetOrNewStateObject D a s of (o1, s1) \<Rightarrow> obj_AddAssetBalance o1 aid v s1)"

definition SetVoteList :: "backend \<Rightarrow> address \<Rightarrow> address list \<Rightarrow> StateDB \<Rightarrow> StateDB" where
  "SetVoteList D a vs s = (case GetOrNewStateObject D a s of (o1, s1) \<Rightarrow> obj_SetVoteList o1 vs s1)"

definition SetNonce :: "backend \<Rightarrow> address \<Rightarrow> uint64 \<Rightarrow> StateDB \<Rightarrow> StateDB" where
  "SetNonce D a n s = (case GetOrNewStateObject D a s of (o1, s1) \<Rightarrow> obj_SetNonce o1 n s1)"

definition SetCode :: "backend \<Rightarrow> address \<Rightarrow> byte list \<Rightarrow> StateDB \<Rightarrow> StateDB" where
  "SetCode D a c s =
     (case GetOrNewStateObject D a s of (o1, s1) \<Rightarrow> obj_SetCode D o1 (keccak256 D c) c s1)"

definition SetAbi :: "backend \<Rightarrow> address \<Rightarrow> string \<Rightarrow> StateDB \<Rightarrow> StateDB" where
  "SetAbi D a abi s =
     (if abi = [] then s
      else case GetOrNewStateObject D a s of (o1, s1) \<Rightarrow>
        if acc_CodeHash (so_data o1) \<noteq> emptyCodeHash D then setStateObject (o1\<lparr>so_abi := abi\<rparr>) s1
        else s1)"

definition SetState :: "backend \<Rightarrow> address \<Rightarrow> hash \<Rightarrow> hash \<Rightarrow> StateDB \<Rightarrow> StateDB" where
  "SetState D a key v s =
     (case GetOrNewStateObject D a s of (o1, s1) \<Rightarrow> obj_SetState D o1 key v s1)"

definition Suicide :: "address \<Rightarrow> StateDB \<Rightarrow> bool \<times> StateDB" where
  "Suicide a s =
     (case getStateObject a s of
        (None, s1) \<Rightarrow> (False, s1)
      | (Some o1, s1) \<Rightarrow>
          (let s2 = append_journal (suicideChange a (so_suicided o1) (acc_Balance (so_data o1))) s1;
               (o2, s3) = markSuicided o1 s2 in
           (True, setStateObject (o2\<lparr>so_data := (so_data o2)\<lparr>acc_Balance := 0\<rparr>\<rparr>) s3)))"


subsection \<open>Publishing assets\<close>

datatype publish_error = InvalidAsset asset_error | CannotEncodeAsset

text \<open>The address of the new asset is a hash of the issuer and its nonce; the object of the issuer
  is looked up again after the asset's account was created, which is the object the code still
  holds a pointer to as long as that address is not the issuer's own.\<close>

definition PublishAsset :: "backend \<Rightarrow> address \<Rightarrow> AssetInfo \<Rightarrow> StateDB \<Rightarrow> publish_error option \<times> StateDB" where
  "PublishAsset D a ai s =
     (let (o1, s1) = GetOrNewStateObject D a s;
          ai1 = ai\<lparr>Issuer := Some a\<rparr> in
      case IsAssetInfoValid (Some ai1) of
        Some e \<Rightarrow> (Some (InvalidAsset e), s1)
      | None \<Rightarrow>
          (let nonce = acc_Nonce (so_data o1);
               s2 = obj_SetNonce o1 (nonce + 1) s1;
               aid = CreateAddress D a nonce;
               (assetAccount, _, s3) = createObject D aid s2 in
           case EncodeAssetInfo D ai1 of
             None \<Rightarrow> (Some CannotEncodeAsset, s3)
           | Some d \<Rightarrow>
               (let s4 = (case SetAssetData assetAccount (keccak256 D d) d s3 of
                            None \<Rightarrow> s3 | Some (_, s') \<Rightarrow> s') in
                (None, case (stateObjects s4 a, Supply ai1) of
                         (Some o2, Some supply) \<Rightarrow> obj_AddAssetBalance o2 aid supply s4
                       | _ \<Rightarrow> s4))))"

datatype asset_info_error = NotAnAssetAccount | AssetDataMissing | AssetDataCorrupt

definition GetAssetInfo :: "backend \<Rightarrow> address \<Rightarrow> StateDB \<Rightarrow> (asset_info_error + AssetInfo) \<times> StateDB" where
  "GetAssetInfo D a s =
     (let (o1, s1) = GetOrNewStateObject D a s in
      if IsAssetAccount D o1 then
        (case obj_AssetData D o1 of
           (Some (Some d), o2) \<Rightarrow>
             (case DecodeAssetInfo D d of Some ai \<Rightarrow> Inr ai | None \<Rightarrow> Inl AssetDataCorrupt, setStateObject o2 s1)
         | (Some None, o2) \<Rightarrow> (Inl AssetDataCorrupt, setStateObject o2 s1)
         | (None, o2) \<Rightarrow> (Inl AssetDataMissing, setStateObject o2 s1))
      else (Inl NotAnAssetAccount, s1))"

section \<open>The journal\<close>

text \<open>Undoing an entry. The entries of one account dereference the object they look up, so a
  missing object is a panic.\<close>

definition with_object :: "address \<Rightarrow> (stateObject \<Rightarrow> StateDB \<Rightarrow> StateDB) \<Rightarrow> StateDB \<Rightarrow> StateDB option" where
  "with_object a f s =
     (case getStateObject a s of (None, _) \<Rightarrow> None | (Some o1, s1) \<Rightarrow> Some (f o1 s1))"

fun undo :: "journalEntry \<Rightarrow> StateDB \<Rightarrow> StateDB option" where
  "undo (createObjectChange a) s =
     Some (s\<lparr>stateObjects := (stateObjects s)(a := None),
             stateObjectsDirty := stateObjectsDirty s - {a}\<rparr>)"
| "undo (resetObjectChange prev) s = Some (setStateObject prev s)"
| "undo (suicideChange a prev prevbalance) s =
     (case getStateObject a s of
        (None, s1) \<Rightarrow> Some s1
      | (Some o1, s1) \<Rightarrow> Some (setBalance (o1\<lparr>so_suicided := prev\<rparr>) prevbalance s1))"
| "undo (touchChange a prev prevDirty) s =
     (if \<not> prev \<and> a \<noteq> ripemd then
        with_object a (\<lambda>o1 s1.
          let s2 = setStateObject (o1\<lparr>so_touched := prev\<rparr>) s1 in
          if \<not> prevDirty then s2\<lparr>stateObjectsDirty := stateObjectsDirty s2 - {a}\<rparr> else s2) s
      else Some s)"
| "undo (balanceChange a prev) s = with_object a (\<lambda>o1. setBalance o1 prev) s"
| "undo (lockBalanceChange a prev) s = with_object a (\<lambda>o1. setLockBalance o1 prev) s"
| "undo (voteListChange a prev) s = with_object a (\<lambda>o1. setVoteList o1 prev) s"
| "undo (nonceChange a prev) s = with_object a (\<lambda>o1. setNonce o1 prev) s"
| "undo (codeChange a prevcode prevhash) s = with_object a (\<lambda>o1. setCode o1 prevhash prevcode) s"
| "undo (storageChange a key prevalue) s = with_object a (\<lambda>o1. setState o1 key prevalue) s"
| "undo (refundChange prev) s = Some (s\<lparr>refund := prev\<rparr>)"
| "undo (addLogChange h) s =
     (case logs s h of
        None \<Rightarrow> None
      | Some ls \<Rightarrow>
          if length ls = 1 then Some (s\<lparr>logs := (logs s)(h := None), logSize := logSize s - 1\<rparr>)
          else if ls = [] then None
          else Some (s\<lparr>logs := (logs s)(h \<mapsto> butlast ls), logSize := logSize s - 1\<rparr>))"
| "undo (addPreimageChange h) s = Some (s\<lparr>preimages := (preimages s)(h := None)\<rparr>)"
| "undo (assetBalanceChange a asst preOpIsAdd) s =
     with_object a (\<lambda>o1. revertAssetBalance o1 asst preOpIsAdd) s"

definition Snapshot :: "StateDB \<Rightarrow> nat \<times> StateDB" where
  "Snapshot s =
     (let rid = nextRevisionId s in
      (rid, s\<lparr>nextRevisionId := rid + 1,
              validRevisions := validRevisions s @ [(rid, length (journal s))]\<rparr>))"

fun is_asset_journal :: "journalEntry \<Rightarrow> bool" where
  "is_asset_journal (assetBalanceChange _ _ _) = True"
| "is_asset_journal _ = False"

text \<open>Before the Epiphron block the entries of asset balances are skipped.\<close>

definition undo_at :: "bool \<Rightarrow> journalEntry \<Rightarrow> StateDB \<Rightarrow> StateDB option" where
  "undo_at isEpiphron e s = (if \<not> isEpiphron \<and> is_asset_journal e then Some s else undo e s)"

definition RevertToSnapshot :: "nat \<Rightarrow> bool \<Rightarrow> StateDB \<Rightarrow> StateDB option" where
  "RevertToSnapshot revid isEpiphron s =
     (let revs = validRevisions s;
          idx = sort_Search (length revs) (\<lambda>i. revid \<le> fst (revs ! i)) in
      if idx = length revs \<or> fst (revs ! idx) \<noteq> revid then None
      else
        (let snapshot = snd (revs ! idx) in
         map_option (\<lambda>s'. s'\<lparr>journal := take snapshot (journal s), validRevisions := take idx revs\<rparr>)
           (undo_list (undo_at isEpiphron) (rev (drop snapshot (journal s))) s)))"

section \<open>Writing back\<close>

text \<open>The codec refuses negative integers; a nil lock balance is written as zero.\<close>

definition encodable :: "Account \<Rightarrow> bool" where
  "encodable acc \<longleftrightarrow> 0 \<le> acc_Balance acc \<and> (case acc_LockBalance acc of None \<Rightarrow> True | Some v \<Rightarrow> 0 \<le> v) \<and>
     list_all (\<lambda>a. 0 \<le> Balance a) (acc_AssetList acc)"

definition reencoded :: "Account \<Rightarrow> Account" where
  "reencoded acc =
     acc\<lparr>acc_LockBalance := Some (case acc_LockBalance acc of None \<Rightarrow> 0 | Some v \<Rightarrow> v)\<rparr>"

definition updateStateObject :: "stateObject \<Rightarrow> StateDB \<Rightarrow> StateDB option" where
  "updateStateObject o1 s =
     (if encodable (so_data o1)
      then Some (s\<lparr>trie := (trie s)(so_address o1 := Stored (reencoded (so_data o1)))\<rparr>)
      else None)"

definition deleteStateObject :: "stateObject \<Rightarrow> StateDB \<Rightarrow> StateDB" where
  "deleteStateObject o1 s =
     (setStateObject (o1\<lparr>so_deleted := True\<rparr>) s)\<lparr>trie := (trie s)(so_address o1 := NotFound None)\<rparr>"

text \<open>The loops of \<open>Finalise\<close> and \<open>CommitTo\<close> range over Go maps; the order the runtime picks is an
  argument.\<close>

definition finalise_one :: "backend \<Rightarrow> bool \<Rightarrow> address \<Rightarrow> StateDB \<Rightarrow> StateDB option" where
  "finalise_one D deleteEmptyObjects a s =
     (case stateObjects s a of
        None \<Rightarrow> None
      | Some o1 \<Rightarrow>
          if so_suicided o1 \<or> (deleteEmptyObjects \<and> empty_obj D o1) then Some (deleteStateObject o1 s)
          else let o2 = updateRoot D o1 in updateStateObject o2 (setStateObject o2 s))"

fun finalise_loop :: "backend \<Rightarrow> bool \<Rightarrow> address list \<Rightarrow> StateDB \<Rightarrow> StateDB option" where
  "finalise_loop D del [] s = Some s"
| "finalise_loop D del (a # as) s = Option.bind (finalise_one D del a s) (finalise_loop D del as)"

definition Finalise :: "backend \<Rightarrow> address list \<Rightarrow> bool \<Rightarrow> StateDB \<Rightarrow> StateDB option" where
  "Finalise D ord deleteEmptyObjects s =
     map_option clearJournalAndRefund (finalise_loop D deleteEmptyObjects ord s)"

definition IntermediateRoot ::
  "backend \<Rightarrow> ((address \<Rightarrow> trie_entry) \<Rightarrow> hash) \<Rightarrow> address list \<Rightarrow> bool \<Rightarrow> StateDB \<Rightarrow> (hash \<times> StateDB) option" where
  "IntermediateRoot D rootOf ord deleteEmptyObjects s =
     map_option (\<lambda>s1. (rootOf (trie s1), s1)) (Finalise D ord deleteEmptyObjects s)"

end
