(* ===== verification/State_Revert.thy ===== *)
theory State_Revert
  imports State_DB
begin

text \<open>
  Snapshots of the account state. What the virtual machine can observe of a \<open>StateDB\<close> is a record
  \<open>state_view\<close>; undoing a journal entry is a function on views. The theory shows that the journal
  of \<open>core/state/journal.go\<close> implements it, that every operation that changes accounts is
  reversible in the sense of the interface \<open>journaled\<close>, and hence that \<open>RevertToSnapshot\<close> restores
  the observable state. It also shows what the journal does not restore.
\<close>

section \<open>Views\<close>

record account_view =
  v_nonce :: uint64
  v_balance :: int
  v_codehash :: hash
  v_code :: "byte list option"
  v_lock :: "int option"
  v_votes :: "address list"
  v_assets :: "address \<Rightarrow> int"
  v_assethash :: "hash option"
  v_suicided :: bool
  v_storage :: "hash \<Rightarrow> hash"

record state_view =
  sv_trie :: "address \<Rightarrow> trie_entry"
  sv_acc :: "address \<rightharpoonup> account_view"
  sv_refund :: uint64
  sv_logs :: "hash \<rightharpoonup> Log list"
  sv_logSize :: uint64
  sv_preimages :: "hash \<rightharpoonup> byte list"

definition storage_of :: "backend \<Rightarrow> stateObject \<Rightarrow> hash \<Rightarrow> hash" where
  "storage_of D o1 k = fst (obj_GetState D o1 k)"

definition obj_view :: "backend \<Rightarrow> stateObject \<Rightarrow> account_view" where
  "obj_view D o1 =
     \<lparr>v_nonce = acc_Nonce (so_data o1), v_balance = acc_Balance (so_data o1),
      v_codehash = acc_CodeHash (so_data o1), v_code = fst (obj_Code D o1),
      v_lock = acc_LockBalance (so_data o1), v_votes = acc_VoteList (so_data o1),
      v_assets = BalanceOf (acc_AssetList (so_data o1)), v_assethash = acc_AssetHash (so_data o1),
      v_suicided = so_suicided o1, v_storage = storage_of D o1\<rparr>"

definition peek :: "StateDB \<Rightarrow> address \<Rightarrow> stateObject option" where
  "peek s a = fst (getStateObject a s)"

definition obs :: "backend \<Rightarrow> StateDB \<Rightarrow> state_view" where
  "obs D s =
     \<lparr>sv_trie = trie s, sv_acc = (\<lambda>a. map_option (obj_view D) (peek s a)), sv_refund = refund s,
      sv_logs = logs s, sv_logSize = logSize s, sv_preimages = preimages s\<rparr>"

definition obj_ok :: "stateObject \<Rightarrow> bool" where
  "obj_ok o1 \<longleftrightarrow> assets_ok (acc_AssetList (so_data o1))"

text \<open>The invariant: an object is filed under its own address, asset balances are well formed,
  an object marked deleted is gone from the trie, and no transaction has an empty list of logs.\<close>

definition sdb_inv :: "StateDB \<Rightarrow> bool" where
  "sdb_inv s \<longleftrightarrow>
     (\<forall>a o1. stateObjects s a = Some o1 \<longrightarrow> so_address o1 = a \<and> obj_ok o1 \<and>
        (so_deleted o1 \<longrightarrow> (\<forall>acc. trie s a \<noteq> Stored acc))) \<and>
     (\<forall>a acc. trie s a = Stored acc \<longrightarrow> assets_ok (acc_AssetList acc)) \<and>
     (\<forall>h. logs s h \<noteq> Some [])"

section \<open>Reading is silent\<close>

lemma newObject_simps [simp]:
  "so_address (newObject a acc) = a" "so_data (newObject a acc) = acc"
  "\<not> so_deleted (newObject a acc)" "so_onDirty (newObject a acc)" "\<not> so_suicided (newObject a acc)"
  by (simp_all add: newObject_def)

lemma setStateObject_simps [simp]:
  "trie (setStateObject o1 s) = trie s" "journal (setStateObject o1 s) = journal s"
  "stateObjects (setStateObject o1 s) = (stateObjects s)(so_address o1 \<mapsto> o1)"
  "refund (setStateObject o1 s) = refund s" "logs (setStateObject o1 s) = logs s"
  "logSize (setStateObject o1 s) = logSize s" "preimages (setStateObject o1 s) = preimages s"
  "validRevisions (setStateObject o1 s) = validRevisions s"
  "stateObjectsDirty (setStateObject o1 s) = stateObjectsDirty s"
  by (simp_all add: setStateObject_def)

lemma setError_simps [simp]:
  "trie (setError e s) = trie s" "journal (setError e s) = journal s"
  "stateObjects (setError e s) = stateObjects s" "refund (setError e s) = refund s"
  "logs (setError e s) = logs s" "logSize (setError e s) = logSize s"
  "preimages (setError e s) = preimages s" "validRevisions (setError e s) = validRevisions s"
  "stateObjectsDirty (setError e s) = stateObjectsDirty s"
  by (simp_all add: setError_def)

lemma append_journal_simps [simp]:
  "trie (append_journal e s) = trie s" "journal (append_journal e s) = journal s @ [e]"
  "stateObjects (append_journal e s) = stateObjects s" "refund (append_journal e s) = refund s"
  "logs (append_journal e s) = logs s" "logSize (append_journal e s) = logSize s"
  "preimages (append_journal e s) = preimages s"
  "validRevisions (append_journal e s) = validRevisions s"
  "stateObjectsDirty (append_journal e s) = stateObjectsDirty s"
  by (simp_all add: append_journal_def)

lemma tryMarkDirty_simps [simp]:
  "trie (tryMarkDirty o1 s) = trie s" "journal (tryMarkDirty o1 s) = journal s"
  "stateObjects (tryMarkDirty o1 s) = (stateObjects s)(so_address o1 \<mapsto> o1\<lparr>so_onDirty := False\<rparr>)"
  "refund (tryMarkDirty o1 s) = refund s" "logs (tryMarkDirty o1 s) = logs s"
  "logSize (tryMarkDirty o1 s) = logSize s" "preimages (tryMarkDirty o1 s) = preimages s"
  "validRevisions (tryMarkDirty o1 s) = validRevisions s"
  by (auto simp: tryMarkDirty_def setStateObject_def MarkStateObjectDirty_def)

text \<open>The lookup as a function of the two fields it reads.\<close>

definition find_obj :: "stateObject option \<Rightarrow> trie_entry \<Rightarrow> address \<Rightarrow> stateObject option" where
  "find_obj m t a = (case m of
      Some o1 \<Rightarrow> if so_deleted o1 then None else Some o1
    | None \<Rightarrow> (case t of Stored acc \<Rightarrow> Some (newObject a acc) | _ \<Rightarrow> None))"

lemma find_obj_Some [simp]: "find_obj (Some o1) t a = (if so_deleted o1 then None else Some o1)"
  by (simp add: find_obj_def)

lemma peek_eq: "peek s = (\<lambda>a. find_obj (stateObjects s a) (trie s a) a)"
  by (rule ext) (simp add: find_obj_def peek_def getStateObject_def Let_def
      split: option.split trie_entry.split)

lemma getStateObject_frame:
  assumes "getStateObject a s = (r, s')"
  shows "trie s' = trie s" "journal s' = journal s" "refund s' = refund s" "logs s' = logs s"
    "logSize s' = logSize s" "preimages s' = preimages s" "validRevisions s' = validRevisions s"
    "stateObjectsDirty s' = stateObjectsDirty s"
  using assms by (auto simp: getStateObject_def Let_def split: option.splits trie_entry.splits)

lemma getStateObject_peek:
  assumes "getStateObject a s = (r, s')"
  shows "peek s' = peek s" "r = peek s a"
proof -
  show "r = peek s a" using assms by (simp add: peek_def)
  show "peek s' = peek s"
    using assms
    by (auto simp: fun_eq_iff peek_eq find_obj_def getStateObject_def Let_def
        split: option.splits trie_entry.splits if_splits)
qed

lemma getStateObject_obs:
  "getStateObject a s = (r, s') \<Longrightarrow> obs D s' = obs D s"
  by (simp add: obs_def getStateObject_peek getStateObject_frame)

lemma getStateObject_inv [keeps_inv]:
  "getStateObject a s = (r, s') \<Longrightarrow> sdb_inv s \<Longrightarrow> sdb_inv s'"
  by (auto simp: getStateObject_def Let_def sdb_inv_def obj_ok_def
      split: option.splits trie_entry.splits if_splits)

text \<open>An object that was found is live in the resulting state.\<close>

definition live :: "stateObject \<Rightarrow> StateDB \<Rightarrow> bool" where
  "live o1 s \<longleftrightarrow> stateObjects s (so_address o1) = Some o1 \<and> \<not> so_deleted o1"

lemma getStateObject_live:
  "getStateObject a s = (Some o1, s') \<Longrightarrow> sdb_inv s \<Longrightarrow> live o1 s' \<and> so_address o1 = a"
  by (auto simp: getStateObject_def Let_def sdb_inv_def live_def
      split: option.splits trie_entry.splits if_splits)

lemma live_obs: "live o1 s \<Longrightarrow> sv_acc (obs D s) (so_address o1) = Some (obj_view D o1)"
  by (simp add: live_def obs_def peek_eq)

lemma live_ok: "live o1 s \<Longrightarrow> sdb_inv s \<Longrightarrow> obj_ok o1"
  by (auto simp: live_def sdb_inv_def)

text \<open>Code and storage of an object by value, without the caching.\<close>

definition storage_value ::
  "backend \<Rightarrow> (hash \<rightharpoonup> hash) \<Rightarrow> (hash \<Rightarrow> hash) option \<Rightarrow> hash \<Rightarrow> hash \<Rightarrow> hash" where
  "storage_value D cached tr root k =
     (case cached k of
        Some v \<Rightarrow> v
      | None \<Rightarrow> (case tr of
          Some t \<Rightarrow> t k
        | None \<Rightarrow> (case OpenStorageTrie D root of Some t \<Rightarrow> t k | None \<Rightarrow> 0)))"

definition code_value :: "backend \<Rightarrow> byte list option \<Rightarrow> hash \<Rightarrow> byte list option" where
  "code_value D c h =
     (case c of Some c \<Rightarrow> Some c | None \<Rightarrow> if h = emptyCodeHash D then None else ContractCode D h)"

lemma storage_of_eq:
  "storage_of D o1 = storage_value D (so_cachedStorage o1) (so_trie o1) (acc_Root (so_data o1))"
  by (rule ext)
    (simp add: storage_value_def storage_of_def obj_GetState_def getTrie_def Let_def split: option.split)

lemma code_of_eq: "fst (obj_Code D o1) = code_value D (so_code o1) (acc_CodeHash (so_data o1))"
  by (simp add: code_value_def obj_Code_def split: option.split)

lemmas obj_view_simps = obj_view_def storage_of_eq code_of_eq

lemma view_onDirty [simp]: "obj_view D (o1\<lparr>so_onDirty := b\<rparr>) = obj_view D o1"
  by (simp add: obj_view_simps)

section \<open>Writing an object back\<close>

definition put_view :: "address \<Rightarrow> account_view \<Rightarrow> state_view \<Rightarrow> state_view" where
  "put_view a w v = v\<lparr>sv_acc := (sv_acc v)(a \<mapsto> w)\<rparr>"

lemma obs_setStateObject [view_simps]:
  "\<not> so_deleted o1 \<Longrightarrow> obs D (setStateObject o1 s) = put_view (so_address o1) (obj_view D o1) (obs D s)"
  by (simp add: obs_def put_view_def peek_eq fun_eq_iff)

lemma obs_tryMarkDirty [view_simps]:
  "\<not> so_deleted o1 \<Longrightarrow> obs D (tryMarkDirty o1 s) = put_view (so_address o1) (obj_view D o1) (obs D s)"
  by (simp add: obs_def put_view_def peek_eq fun_eq_iff)

lemma sv_trie_obs [simp]: "sv_trie (obs D s) = trie s"
  by (simp add: obs_def)

lemma obs_append_journal [simp]: "obs D (append_journal e s) = obs D s"
  by (simp add: obs_def peek_eq fun_eq_iff)

lemma setStateObject_inv [keeps_inv]:
  "sdb_inv s \<Longrightarrow> obj_ok o1 \<Longrightarrow> \<not> so_deleted o1 \<Longrightarrow> sdb_inv (setStateObject o1 s)"
  by (auto simp: sdb_inv_def)

lemma tryMarkDirty_inv [keeps_inv]:
  "sdb_inv s \<Longrightarrow> obj_ok o1 \<Longrightarrow> \<not> so_deleted o1 \<Longrightarrow> sdb_inv (tryMarkDirty o1 s)"
  by (auto simp: sdb_inv_def obj_ok_def)

lemma sdb_inv_frame:
  "stateObjects t = stateObjects s \<Longrightarrow> trie t = trie s \<Longrightarrow> logs t = logs s \<Longrightarrow> sdb_inv t = sdb_inv s"
  by (simp add: sdb_inv_def)

lemma append_journal_inv [simp]: "sdb_inv (append_journal e s) = sdb_inv s"
  by (rule sdb_inv_frame) simp_all

lemma live_append_journal [simp]: "live o1 (append_journal e s) = live o1 s"
  by (simp add: live_def)

lemma put_view_same: "sv_acc v a = Some w \<Longrightarrow> put_view a w v = v"
  by (simp add: put_view_def fun_upd_idem)

lemma put_view_put_view [simp]: "put_view a w (put_view a w' v) = put_view a w v"
  by (simp add: put_view_def)

lemma put_view_acc [simp]: "sv_acc (put_view a w v) = (sv_acc v)(a \<mapsto> w)"
  "sv_trie (put_view a w v) = sv_trie v"
  by (simp_all add: put_view_def)

section \<open>Undoing an entry, abstractly\<close>

definition upd_view :: "address \<Rightarrow> (account_view \<Rightarrow> account_view) \<Rightarrow> state_view \<Rightarrow> state_view option" where
  "upd_view a g v = map_option (\<lambda>w. put_view a (g w) v) (sv_acc v a)"

definition base_view :: "backend \<Rightarrow> address \<Rightarrow> trie_entry \<Rightarrow> account_view option" where
  "base_view D a e = (case e of Stored acc \<Rightarrow> Some (obj_view D (newObject a acc)) | _ \<Rightarrow> None)"

fun undo_view :: "backend \<Rightarrow> journalEntry \<Rightarrow> state_view \<Rightarrow> state_view option" where
  "undo_view D (createObjectChange a) v =
     Some (v\<lparr>sv_acc := (sv_acc v)(a := base_view D a (sv_trie v a))\<rparr>)"
| "undo_view D (resetObjectChange prev) v = Some (put_view (so_address prev) (obj_view D prev) v)"
| "undo_view D (suicideChange a prev b) v =
     (case upd_view a (\<lambda>w. w\<lparr>v_suicided := prev, v_balance := b\<rparr>) v of None \<Rightarrow> Some v | Some v' \<Rightarrow> Some v')"
| "undo_view D (touchChange a prev dirty) v =
     (if \<not> prev \<and> a \<noteq> ripemd then upd_view a (\<lambda>w. w) v else Some v)"
| "undo_view D (balanceChange a b) v = upd_view a (\<lambda>w. w\<lparr>v_balance := b\<rparr>) v"
| "undo_view D (lockBalanceChange a b) v = upd_view a (\<lambda>w. w\<lparr>v_lock := Some b\<rparr>) v"
| "undo_view D (voteListChange a vs) v = upd_view a (\<lambda>w. w\<lparr>v_votes := vs\<rparr>) v"
| "undo_view D (nonceChange a n) v = upd_view a (\<lambda>w. w\<lparr>v_nonce := n\<rparr>) v"
| "undo_view D (codeChange a c h) v =
     upd_view a (\<lambda>w. w\<lparr>v_codehash := h, v_code := code_value D c h\<rparr>) v"
| "undo_view D (storageChange a k x) v =
     upd_view a (\<lambda>w. w\<lparr>v_storage := (v_storage w)(k := x)\<rparr>) v"
| "undo_view D (refundChange r) v = Some (v\<lparr>sv_refund := r\<rparr>)"
| "undo_view D (addLogChange h) v =
     (case sv_logs v h of
        None \<Rightarrow> None
      | Some ls \<Rightarrow> if ls = [] then None else
          Some (v\<lparr>sv_logs := (sv_logs v)(h := if length ls = 1 then None else Some (butlast ls)),
                  sv_logSize := sv_logSize v - 1\<rparr>))"
| "undo_view D (addPreimageChange h) v = Some (v\<lparr>sv_preimages := (sv_preimages v)(h := None)\<rparr>)"
| "undo_view D (assetBalanceChange a x isAdd) v =
     upd_view a (\<lambda>w. w\<lparr>v_assets :=
       (if isAdd then (v_assets w)(ID x := v_assets w (ID x) -
                          (if Balance x \<le> v_assets w (ID x) then Balance x else 0))
        else (v_assets w)(ID x := v_assets w (ID x) + Balance x))\<rparr>) v"

text \<open>Entries the operations write: a saved object is live and well formed, an amount of an asset
  is not negative.\<close>

fun entry_ok :: "journalEntry \<Rightarrow> bool" where
  "entry_ok (resetObjectChange prev) \<longleftrightarrow> obj_ok prev \<and> \<not> so_deleted prev"
| "entry_ok (assetBalanceChange a x isAdd) \<longleftrightarrow> 0 \<le> Balance x"
| "entry_ok _ \<longleftrightarrow> True"

lemma with_object_view:
  assumes inv: "sdb_inv s"
    and f: "\<And>o1 s1. live o1 s1 \<Longrightarrow> sdb_inv s1 \<Longrightarrow> so_address o1 = a \<Longrightarrow>
       obs D (f o1 s1) = put_view a (g (obj_view D o1)) (obs D s1)"
  shows "map_option (obs D) (with_object a f s) = upd_view a g (obs D s)"
proof (cases "getStateObject a s")
  case (Pair r s1)
  note facts = getStateObject_obs[OF Pair, of D] getStateObject_inv[OF Pair inv] getStateObject_peek[OF Pair]
  show ?thesis
  proof (cases r)
    case None
    with Pair facts show ?thesis by (simp add: with_object_def upd_view_def obs_def)
  next
    case (Some o1)
    with Pair have "live o1 s1" "so_address o1 = a"
      using getStateObject_live[of a s o1 s1] inv by auto
    moreover have "sv_acc (obs D s) a = Some (obj_view D o1)"
      using calculation live_obs[of o1 s1 D] facts(1) by simp
    ultimately show ?thesis
      using f[of o1 s1] facts(1,2) Pair Some by (simp add: with_object_def upd_view_def)
  qed
qed

lemma with_object_inv:
  assumes "sdb_inv s" "with_object a f s = Some s'"
    and "\<And>o1 s1. live o1 s1 \<Longrightarrow> sdb_inv s1 \<Longrightarrow> sdb_inv (f o1 s1)"
  shows "sdb_inv s'"
  using assms getStateObject_live[of a s] getStateObject_inv[of a s]
  by (auto simp: with_object_def split: prod.splits option.splits)

lemmas setter_defs = setBalance_def setLockBalance_def setVoteList_def setNonce_def setCode_def
  setState_def revertAssetBalance_def

lemma storage_value_upd:
  "storage_value D (c(k \<mapsto> x)) t r = (storage_value D c t r)(k := x)"
  by (rule ext) (simp add: storage_value_def)

lemma obj_view_asset:
  assumes "obj_ok o1" "0 \<le> Balance x"
  shows "BalanceOf (snd (SubAsset (acc_AssetList (so_data o1)) x)) =
      (BalanceOf (acc_AssetList (so_data o1)))(ID x := BalanceOf (acc_AssetList (so_data o1)) (ID x) -
        (if Balance x \<le> BalanceOf (acc_AssetList (so_data o1)) (ID x) then Balance x else 0))"
    "BalanceOf (AddAsset (acc_AssetList (so_data o1)) x) =
      (BalanceOf (acc_AssetList (so_data o1)))(ID x := BalanceOf (acc_AssetList (so_data o1)) (ID x) + Balance x)"
  using assms by (auto simp: obj_ok_def fun_eq_iff al.bal_sub al.bal_add)

lemma obs_undo_create:
  "obs D (s\<lparr>stateObjects := (stateObjects s)(a := None), stateObjectsDirty := ds\<rparr>) =
   (obs D s)\<lparr>sv_acc := (sv_acc (obs D s))(a := base_view D a (trie s a))\<rparr>"
  by (auto simp: obs_def peek_eq fun_eq_iff base_view_def find_obj_def split: trie_entry.split)

lemma obs_undo_touch:
  assumes "live o1 s"
  shows "obs D (let s2 = setStateObject (o1\<lparr>so_touched := b\<rparr>) s in
      if c then s2\<lparr>stateObjectsDirty := stateObjectsDirty s2 - {a}\<rparr> else s2) =
    put_view (so_address o1) (obj_view D o1) (obs D s)"
proof -
  have *: "obs D (t\<lparr>stateObjectsDirty := ds\<rparr>) = obs D t" for t ds
    by (simp add: obs_def peek_eq)
  have "obj_view D (o1\<lparr>so_touched := b\<rparr>) = obj_view D o1" by (simp add: obj_view_simps)
  with assms show ?thesis by (simp add: Let_def * live_def view_simps)
qed

text \<open>The journal implements the abstract undo.\<close>

lemma undo_refines:
  assumes inv: "sdb_inv s" and ok: "entry_ok e"
  shows "map_option (obs D) (undo e s) = undo_view D e (obs D s)"
proof (cases e)
  case (createObjectChange a)
  then show ?thesis by (simp add: obs_undo_create)
next
  case (resetObjectChange p)
  then show ?thesis using ok by (simp add: view_simps)
next
  case (suicideChange a b v)
  have "undo e s = (case with_object a (\<lambda>o1. setBalance (o1\<lparr>so_suicided := b\<rparr>) v) s of
      None \<Rightarrow> Some (snd (getStateObject a s)) | Some s' \<Rightarrow> Some s')"
    by (simp add: suicideChange with_object_def split: prod.split option.split)
  moreover have "map_option (obs D) (with_object a (\<lambda>o1. setBalance (o1\<lparr>so_suicided := b\<rparr>) v) s)
      = upd_view a (\<lambda>w. w\<lparr>v_suicided := b, v_balance := v\<rparr>) (obs D s)"
    by (rule with_object_view[OF inv]) (simp add: setter_defs view_simps live_def obj_view_simps)
  moreover have "obs D (snd (getStateObject a s)) = obs D s"
    by (cases "getStateObject a s") (simp add: getStateObject_obs)
  ultimately show ?thesis
    by (auto simp: suicideChange split: option.splits)
next
  case (touchChange a b c)
  have "map_option (obs D) (with_object a (\<lambda>o1 s1.
          let s2 = setStateObject (o1\<lparr>so_touched := b\<rparr>) s1 in
          if \<not> c then s2\<lparr>stateObjectsDirty := stateObjectsDirty s2 - {a}\<rparr> else s2) s)
      = upd_view a (\<lambda>w. w) (obs D s)"
    using obs_undo_touch by (intro with_object_view[OF inv]) blast
  then show ?thesis by (auto simp: touchChange)
next
  case (codeChange a c h)
  then show ?thesis unfolding codeChange undo.simps undo_view.simps
    by (intro with_object_view[OF inv]) (simp add: setter_defs view_simps live_def obj_view_simps)
next
  case (storageChange a k x)
  then show ?thesis unfolding storageChange undo.simps undo_view.simps
    by (intro with_object_view[OF inv])
      (simp add: setter_defs view_simps live_def obj_view_simps storage_value_upd)
next
  case (assetBalanceChange a x b)
  with ok show ?thesis unfolding assetBalanceChange undo.simps undo_view.simps
    by (intro with_object_view[OF inv])
      (use live_ok in \<open>auto simp: setter_defs view_simps live_def obj_view_simps obj_view_asset\<close>)
next
  case (addLogChange h)
  then show ?thesis by (auto simp: obs_def peek_eq split: option.split)
next
  case (refundChange r)
  then show ?thesis by (simp add: obs_def peek_eq)
next
  case (addPreimageChange h)
  then show ?thesis by (simp add: obs_def peek_eq)
qed (auto simp: setter_defs view_simps live_def obj_view_simps intro!: with_object_view[OF inv])

lemma live_write_inv:
  assumes "live o1 s" "sdb_inv s" "so_deleted o2 = so_deleted o1"
    "acc_AssetList (so_data o2) = acc_AssetList (so_data o1)"
  shows "sdb_inv (tryMarkDirty o2 s)" "sdb_inv (setStateObject o2 s)"
  using assms live_ok[of o1 s] by (auto simp: live_def obj_ok_def intro: tryMarkDirty_inv setStateObject_inv)

lemma setter_inv:
  assumes "live o1 s" "sdb_inv s"
  shows "sdb_inv (setBalance o1 v s)" "sdb_inv (setLockBalance o1 v s)" "sdb_inv (setVoteList o1 vs s)"
    "sdb_inv (setNonce o1 n s)" "sdb_inv (setCode o1 h c s)" "sdb_inv (setState o1 k x s)"
    "sdb_inv (setBalance (o1\<lparr>so_suicided := b\<rparr>) v s)"
  using assms by (simp_all add: setter_defs live_write_inv)

lemma undo_keeps_inv:
  assumes inv: "sdb_inv s" and ok: "entry_ok e" and undo: "undo e s = Some s'"
  shows "sdb_inv s'"
proof (cases e)
  case (createObjectChange a)
  then show ?thesis using inv undo by (auto simp: sdb_inv_def split: if_splits)
next
  case (suicideChange a b v)
  then show ?thesis
    using inv undo getStateObject_live[of a s] getStateObject_inv[of a s]
    by (auto simp: setter_inv split: prod.splits option.splits)
next
  case (touchChange a b c)
  have dirty: "sdb_inv (t\<lparr>stateObjectsDirty := ds\<rparr>) = sdb_inv t" for t ds
    by (rule sdb_inv_frame) simp_all
  show ?thesis
  proof (cases "\<not> b \<and> a \<noteq> ripemd")
    case True
    with touchChange undo have "with_object a (\<lambda>o1 s1.
          let s2 = setStateObject (o1\<lparr>so_touched := b\<rparr>) s1 in
          if \<not> c then s2\<lparr>stateObjectsDirty := stateObjectsDirty s2 - {a}\<rparr> else s2) s = Some s'"
      by simp
    then show ?thesis
      by (rule with_object_inv[OF inv])
        (auto simp: Let_def dirty intro: live_write_inv(2))
  next
    case False
    with touchChange undo inv show ?thesis by auto
  qed
next
  case (addLogChange h)
  then obtain ls where ls: "logs s h = Some ls" "ls \<noteq> []"
      "s' = s\<lparr>logs := (logs s)(h := if length ls = 1 then None else Some (butlast ls)), logSize := logSize s - 1\<rparr>"
    using undo by (auto split: option.splits if_splits) (metis length_0_conv nat.simps(3))
  moreover have "length ls \<noteq> 1 \<Longrightarrow> butlast ls \<noteq> []"
    using ls(2) by (cases ls rule: rev_cases) auto
  ultimately show ?thesis using inv by (auto simp: sdb_inv_def)
next
  case (assetBalanceChange a x b)
  with undo have "with_object a (\<lambda>o1. revertAssetBalance o1 x b) s = Some s'" by simp
  then show ?thesis
  proof (rule with_object_inv[OF inv])
    fix o1 s1 assume "live o1 s1" "sdb_inv s1"
    with live_ok[of o1 s1] ok show "sdb_inv (revertAssetBalance o1 x b s1)"
      by (auto simp: setter_defs live_def assetBalanceChange obj_ok_def al.inv_add al.inv_sub
          intro!: tryMarkDirty_inv)
  qed
next
  case (refundChange r)
  have "sdb_inv (s\<lparr>refund := r\<rparr>) = sdb_inv s" by (rule sdb_inv_frame) simp_all
  then show ?thesis using refundChange inv undo by auto
next
  case (addPreimageChange h)
  have "sdb_inv (s\<lparr>preimages := x\<rparr>) = sdb_inv s" for x by (rule sdb_inv_frame) simp_all
  then show ?thesis using addPreimageChange inv undo by auto
next
  case (resetObjectChange p)
  then show ?thesis using inv ok undo by (auto intro: setStateObject_inv)
qed (use undo in \<open>auto elim!: with_object_inv[OF inv] simp: setter_inv\<close>)

interpretation sj: journaled undo journal "obs D" sdb_inv entry_ok for D
proof
  fix s t e t'
  assume *: "sdb_inv s" "sdb_inv t" "obs D s = obs D t" "entry_ok e" "undo e t = Some t'"
  then have "map_option (obs D) (undo e s) = Some (obs D t')"
    using undo_refines[of s e D] undo_refines[of t e D] by simp
  then show "\<exists>s'. undo e s = Some s' \<and> obs D s' = obs D t'" by auto
qed (rule undo_keeps_inv)

section \<open>Every operation is reversible\<close>

abbreviation reverts :: "backend \<Rightarrow> StateDB \<Rightarrow> StateDB \<Rightarrow> bool" where
  "reverts D \<equiv> journaled.reversible undo journal (obs D) sdb_inv entry_ok"

lemma upd_view_put [simp]: "upd_view a g (put_view a w v) = Some (put_view a (g w) v)"
  by (simp add: upd_view_def)

lemma reverts_step:
  assumes "sdb_inv s" "sdb_inv t" "journal t = journal s @ [e]" "entry_ok e"
    "undo_view D e (obs D t) = Some (obs D s)"
  shows "reverts D s t"
proof -
  from assms(5) undo_refines[OF assms(2,4), of D] obtain u where "undo e t = Some u" "obs D u = obs D s"
    by auto
  then show ?thesis using assms(1-4) by (intro sj.reversible_single)
qed

lemma reverts_write:
  assumes "sdb_inv s" "live o1 s" "so_address o2 = so_address o1" "\<not> so_deleted o2" "obj_ok o2"
    "entry_ok e"
    "undo_view D e (put_view (so_address o1) (obj_view D o2) (obs D s)) =
       Some (put_view (so_address o1) (obj_view D o1) (obs D s))"
  shows "reverts D s (tryMarkDirty o2 (append_journal e s))"
  using assms put_view_same[OF live_obs[OF assms(2)]]
  by (intro reverts_step[where e = e]) (simp_all add: tryMarkDirty_inv view_simps)

lemma reverts_setters:
  assumes inv: "sdb_inv s" and live: "live o1 s"
  shows "reverts D s (obj_SetBalance o1 v s)" "reverts D s (obj_SetNonce o1 n s)"
    "reverts D s (obj_SetVoteList o1 vs s)" "reverts D s (touch o1 s)"
    "obj_SetLockBalance o1 v s = Some t \<Longrightarrow> reverts D s t"
proof -
  have o1: "\<not> so_deleted o1" "obj_ok o1" using live live_ok[OF live inv] by (simp_all add: live_def)
  note w = reverts_write[OF inv live]
  show "reverts D s (obj_SetBalance o1 v s)" "reverts D s (obj_SetNonce o1 n s)"
    "reverts D s (obj_SetVoteList o1 vs s)" "reverts D s (touch o1 s)"
    unfolding obj_SetBalance_def obj_SetNonce_def obj_SetVoteList_def touch_def setter_defs
    using o1 by (auto intro!: w simp: obj_ok_def obj_view_simps)
  assume "obj_SetLockBalance o1 v s = Some t"
  then show "reverts D s t"
    using o1 by (auto intro!: w simp: obj_ok_def obj_view_simps obj_SetLockBalance_def setter_defs
        split: option.splits)
qed

lemma reverts_balance:
  assumes "sdb_inv s" "live o1 s"
  shows "reverts D s (obj_AddBalance D o1 v s)" "reverts D s (obj_SubBalance o1 v s)"
    "obj_AddLockBalance D o1 v s = Some t \<Longrightarrow> reverts D s t"
    "obj_SubLockBalance o1 v s = Some t \<Longrightarrow> reverts D s t"
  using reverts_setters[OF assms] sj.reversible_refl[OF assms(1)]
  by (auto simp: obj_AddBalance_def obj_SubBalance_def obj_AddLockBalance_def obj_SubLockBalance_def
      split: if_splits option.splits)

lemma obj_GetState_frame:
  assumes "obj_GetState D o1 k = (v, o2)"
  shows "so_address o2 = so_address o1" "so_deleted o2 = so_deleted o1" "so_data o2 = so_data o1"
    "obj_view D o2 = obj_view D o1" "v = v_storage (obj_view D o1) k"
proof -
  show "so_address o2 = so_address o1" "so_deleted o2 = so_deleted o1" "so_data o2 = so_data o1"
    using assms by (auto simp: Let_def obj_GetState_def getTrie_def split: option.splits if_splits)
  show "obj_view D o2 = obj_view D o1"
    using assms by (auto simp: Let_def obj_GetState_def getTrie_def obj_view_simps storage_value_def fun_eq_iff
        split: option.splits if_splits)
  show "v = v_storage (obj_view D o1) k"
    using assms by (simp add: obj_view_def storage_of_def)
qed

lemma obj_Code_frame:
  assumes "obj_Code D o1 = (c, o2)"
  shows "so_address o2 = so_address o1" "so_deleted o2 = so_deleted o1" "so_data o2 = so_data o1"
    "obj_view D o2 = obj_view D o1" "c = v_code (obj_view D o1)"
proof -
  show "so_address o2 = so_address o1" "so_deleted o2 = so_deleted o1" "so_data o2 = so_data o1"
    using assms by (auto simp: obj_Code_def split: option.splits if_splits)
  show "obj_view D o2 = obj_view D o1"
    using assms by (auto simp: obj_Code_def obj_view_simps code_value_def split: option.splits if_splits)
  show "c = v_code (obj_view D o1)" using assms by (simp add: obj_view_def)
qed

lemma obj_ok_data: "so_data o2 = so_data o1 \<Longrightarrow> obj_ok o2 = obj_ok o1"
  by (simp add: obj_ok_def)

lemma reverts_SetState:
  assumes "sdb_inv s" "live o1 s"
  shows "reverts D s (obj_SetState D o1 k x s)"
proof (cases "obj_GetState D o1 k")
  case (Pair v o2)
  note fr = obj_GetState_frame[OF Pair]
  have view: "obj_view D (o2\<lparr>so_cachedStorage := (so_cachedStorage o2)(k \<mapsto> x), so_dirtyStorage := y\<rparr>)
      = (obj_view D o1)\<lparr>v_storage := (v_storage (obj_view D o1))(k := x)\<rparr>" for y
    using fr(3,4) by (simp add: obj_view_simps storage_value_upd)
  show ?thesis
    using assms live_ok[OF assms(2,1)] obj_ok_data[OF fr(3)] fr
    by (auto simp: obj_SetState_def Pair setState_def view live_def obj_ok_def intro!: reverts_write)
qed

lemma reverts_SetCode:
  assumes "sdb_inv s" "live o1 s"
  shows "reverts D s (obj_SetCode D o1 h c s)"
proof (cases "obj_Code D o1")
  case (Pair p o2)
  note fr = obj_Code_frame[OF Pair]
  have code: "code_value D (v_code (obj_view D o1)) (acc_CodeHash (so_data o1)) = v_code (obj_view D o1)"
    by (simp add: obj_view_simps code_value_def split: option.split)
  have view: "(obj_view D (o2\<lparr>so_code := x, so_data := (so_data o1)\<lparr>acc_CodeHash := h\<rparr>, so_dirtyCode := y\<rparr>))
      \<lparr>v_codehash := acc_CodeHash (so_data o1), v_code := v_code (obj_view D o1)\<rparr> = obj_view D o1" for x y
    using fr(3,4) by (simp add: obj_view_simps)
  show ?thesis
    using assms live_ok[OF assms(2,1)] fr(1,2,3)
    by (auto simp: obj_SetCode_def Pair setCode_def live_def obj_ok_def fr(5) code view intro!: reverts_write)
qed

lemma reverts_asset:
  assumes "sdb_inv s" "live o1 s" "0 \<le> v"
  shows "reverts D s (obj_AddAssetBalance o1 aid v s)" "reverts D s (snd (obj_SubAssetBalance o1 aid v s))"
proof -
  let ?x = "\<lparr>ID = aid, Balance = v\<rparr>" and ?as = "acc_AssetList (so_data o1)"
  have ok: "assets_ok ?as" "obj_ok o1" using live_ok[OF assms(2,1)] by (simp_all add: obj_ok_def)
  note asset = obj_view_asset[OF ok(2), of ?x]
  note inv = al.inv_add[OF ok(1), of ?x] al.inv_sub[OF ok(1), of ?x] al.bal_nonneg[OF ok(1)]
    al.sub_covered[OF ok(1), of ?x]
  show "reverts D s (obj_AddAssetBalance o1 aid v s)"
    unfolding obj_AddAssetBalance_def Let_def using assms asset inv
    by (intro reverts_write) (auto simp: live_def obj_ok_def obj_view_simps)
  show "reverts D s (snd (obj_SubAssetBalance o1 aid v s))"
  proof (cases "SubAsset ?as ?x")
    case (Pair b as')
    have "reverts D s (tryMarkDirty (o1\<lparr>so_data := (so_data o1)\<lparr>acc_AssetList := as'\<rparr>\<rparr>)
        (append_journal (assetBalanceChange (so_address o1) ?x False) s))" if b
      using assms asset inv Pair that
      by (intro reverts_write) (auto simp: live_def obj_ok_def obj_view_simps)
    then show ?thesis
      using assms sj.reversible_refl by (auto simp: obj_SubAssetBalance_def Let_def Pair)
  qed
qed

subsection \<open>Creating objects\<close>

lemma find_obj_None:
  "sdb_inv s \<Longrightarrow> peek s a = None \<Longrightarrow> base_view D a (trie s a) = None"
  by (cases "stateObjects s a"; cases "trie s a")
    (auto simp: peek_eq find_obj_def base_view_def sdb_inv_def split: if_splits)

text \<open>What \<open>createObject\<close> leaves in memory may still be rewritten by unjournaled writes (the balance
  carried over by \<open>CreateAccount\<close>, the data of a new asset): undoing the creation removes them.\<close>

lemma reverts_create:
  assumes inv: "sdb_inv s" and create: "createObject D a s = (o1, prev, s1)"
    and o2: "so_address o2 = a" "\<not> so_deleted o2" "obj_ok o2"
  shows "reverts D s (tryMarkDirty o2 s1)"
proof (cases "getStateObject a s")
  case (Pair r s0)
  note facts = getStateObject_obs[OF Pair, of D] getStateObject_inv[OF Pair inv] getStateObject_peek[OF Pair]
    getStateObject_frame[OF Pair]
  let ?n = "(newObject a (zeroAccount D))\<lparr>so_data := (zeroAccount D)\<lparr>acc_Nonce := 0\<rparr>\<rparr>"
  let ?e = "case r of None \<Rightarrow> createObjectChange a | Some p \<Rightarrow> resetObjectChange p"
  have s1: "s1 = append_journal ?e (tryMarkDirty ?n s0)"
    using create Pair by (auto simp: createObject_def setNonce_def Let_def)
  have "obj_ok ?n" "so_address ?n = a" "\<not> so_deleted ?n"
    by (auto simp: obj_ok_def zeroAccount_def NewAssets_def)
  then have inv1: "sdb_inv s1" using s1 facts(2) by (simp add: tryMarkDirty_inv)
  have obs1: "obs D (tryMarkDirty o2 s1) = put_view a (obj_view D o2) (obs D s)"
    using s1 facts(1) o2 \<open>so_address ?n = a\<close> by (simp add: view_simps)
  have acc: "sv_acc (obs D s) a = map_option (obj_view D) r" using facts(4) by (simp add: obs_def)
  have r: "so_address p = a" "obj_ok p" "\<not> so_deleted p" if "r = Some p" for p
    using getStateObject_live[of a s p s0] live_ok[of p s0] facts(2) Pair inv that by (auto simp: live_def)
  show ?thesis
  proof (rule reverts_step[OF inv, where e = ?e])
    show "sdb_inv (tryMarkDirty o2 s1)" using inv1 o2 by (simp add: tryMarkDirty_inv)
    show "journal (tryMarkDirty o2 s1) = journal s @ [?e]" using s1 facts(6) by simp
    show "entry_ok ?e" using r by (auto split: option.split)
    show "undo_view D ?e (obs D (tryMarkDirty o2 s1)) = Some (obs D s)"
    proof (cases r)
      case None
      then have "base_view D a (trie s a) = None" using find_obj_None[OF inv, of a D] facts(4) by simp
      with None acc show ?thesis by (simp add: obs1 put_view_def fun_upd_idem)
    next
      case (Some p)
      with r acc show ?thesis by (simp add: obs1 put_view_same)
    qed
  qed
qed

lemma createObject_facts:
  assumes inv: "sdb_inv s" and create: "createObject D a s = (o1, prev, s1)"
  shows "live o1 s1" "so_address o1 = a" "obj_ok o1" "tryMarkDirty o1 s1 = s1" "so_data o1 = zeroAccount D"
    "validRevisions s1 = validRevisions s" "so_assetData o1 = None" "\<not> so_onDirty o1"
  using create
  by (auto simp: createObject_def setNonce_def Let_def live_def obj_ok_def zeroAccount_def NewAssets_def newObject_def
      tryMarkDirty_def setStateObject_def append_journal_def MarkStateObjectDirty_def fun_upd_idem
      getStateObject_frame
      split: prod.splits)

lemma reverts_createObject:
  assumes "sdb_inv s" "createObject D a s = (o1, prev, s1)"
  shows "reverts D s s1"
  using reverts_create[OF assms, of o1] createObject_facts[OF assms] by (simp add: live_def)

lemma reverts_get:
  assumes "sdb_inv s" "getStateObject a s = (r, s1)"
  shows "reverts D s s1"
  using assms getStateObject_obs[OF assms(2)] getStateObject_inv[OF assms(2)] getStateObject_frame[OF assms(2)]
  by (intro sj.reversible_silent) auto

lemma reverts_inv: "reverts D s t \<Longrightarrow> sdb_inv s \<and> sdb_inv t"
  by (simp add: sj.reversible_def)

lemma reverts_GetOrNew:
  assumes inv: "sdb_inv s" and get: "GetOrNewStateObject D a s = (o1, s1)"
  shows "reverts D s s1" "live o1 s1" "so_address o1 = a" "sdb_inv s1"
proof -
  obtain r s0 where g: "getStateObject a s = (r, s0)" by fastforce
  note g' = reverts_get[OF inv g, of D] getStateObject_inv[OF g inv]
  have "reverts D s s1 \<and> live o1 s1 \<and> so_address o1 = a"
  proof (cases r)
    case None
    with get g obtain p where c: "createObject D a s0 = (o1, p, s1)"
      by (auto simp: GetOrNewStateObject_def split: prod.splits)
    from reverts_createObject[OF g'(2) c] createObject_facts[OF g'(2) c] g'(1) show ?thesis
      using sj.reversible_trans by blast
  next
    case (Some o2)
    with get g have "o1 = o2" "s1 = s0" by (auto simp: GetOrNewStateObject_def)
    with g' Some g getStateObject_live[of a s o2 s0] inv show ?thesis by simp
  qed
  then show "reverts D s s1" "live o1 s1" "so_address o1 = a" "sdb_inv s1"
    using reverts_inv by blast+
qed

subsection \<open>The operations of the database\<close>

lemma reverts_with:
  assumes "sdb_inv s" "\<And>o1 s1. sdb_inv s1 \<Longrightarrow> live o1 s1 \<Longrightarrow> reverts D s1 (f o1 s1)"
  shows "reverts D s (case GetOrNewStateObject D a s of (o1, s1) \<Rightarrow> f o1 s1)"
proof (cases "GetOrNewStateObject D a s")
  case (Pair o1 s1)
  from reverts_GetOrNew[OF assms(1) Pair] assms(2)[of s1 o1] Pair show ?thesis
    using sj.reversible_trans by simp
qed

lemma reverts_with_opt:
  assumes "sdb_inv s" "\<And>o1 s1 t. sdb_inv s1 \<Longrightarrow> live o1 s1 \<Longrightarrow> f o1 s1 = Some t \<Longrightarrow> reverts D s1 t"
    "(case GetOrNewStateObject D a s of (o1, s1) \<Rightarrow> f o1 s1) = Some t"
  shows "reverts D s t"
proof (cases "GetOrNewStateObject D a s")
  case (Pair o1 s1)
  from reverts_GetOrNew[OF assms(1) Pair] assms(2)[of s1 o1 t] assms(3) Pair show ?thesis
    using sj.reversible_trans by simp
qed

lemma reverts_writes:
  assumes inv: "sdb_inv s"
  shows "reverts D s (AddBalance D a v s)" "reverts D s (SubBalance D a v s)"
    "reverts D s (SetBalance D a v s)" "reverts D s (SetVoteList D a vs s)"
    "reverts D s (SetNonce D a n s)" "reverts D s (SetCode D a c s)" "reverts D s (SetState D a k x s)"
    "AddLockBalance D a v s = Some t \<Longrightarrow> reverts D s t"
    "SubLockBalance D a v s = Some t \<Longrightarrow> reverts D s t"
    "SetLockBalance D a v s = Some t \<Longrightarrow> reverts D s t"
    "0 \<le> v \<Longrightarrow> reverts D s (AddAssetBalance D a aid v s)"
  unfolding AddBalance_def SubBalance_def SetBalance_def SetVoteList_def SetNonce_def SetCode_def
    SetState_def AddLockBalance_def SubLockBalance_def SetLockBalance_def AddAssetBalance_def
  by (rule reverts_with[OF inv], rule reverts_balance reverts_setters reverts_SetCode reverts_SetState
        reverts_asset(1); assumption
     | erule reverts_with_opt[OF inv, rotated], rule reverts_balance reverts_setters; assumption)+

lemma reverts_SubAssetBalance:
  "sdb_inv s \<Longrightarrow> 0 \<le> v \<Longrightarrow> reverts D s (snd (SubAssetBalance D a aid v s))"
  using reverts_with[of s D "\<lambda>o1 s1. snd (obj_SubAssetBalance o1 aid v s1)" a] reverts_asset(2)
  by (auto simp: SubAssetBalance_def split: prod.splits)

lemma reverts_silent_write:
  assumes "sdb_inv s" "live o1 s" "so_address o2 = so_address o1" "so_deleted o2 = so_deleted o1"
    "so_data o2 = so_data o1" "obj_view D o2 = obj_view D o1"
  shows "reverts D s (setStateObject o2 s)"
  using assms live_write_inv(2)[OF assms(2,1), of o2] put_view_same[OF live_obs[OF assms(2), of D]]
  by (intro sj.reversible_silent) (auto simp: live_def view_simps)

lemma obj_Abi_frame:
  assumes "obj_Abi D o1 = (c, o2)"
  shows "so_address o2 = so_address o1" "so_deleted o2 = so_deleted o1" "so_data o2 = so_data o1"
    "obj_view D o2 = obj_view D o1"
  using assms by (auto simp: obj_Abi_def obj_view_simps split: option.splits if_splits)

lemma obj_AssetData_frame:
  assumes "obj_AssetData D o1 = (c, o2)"
  shows "so_address o2 = so_address o1" "so_deleted o2 = so_deleted o1" "so_data o2 = so_data o1"
    "obj_view D o2 = obj_view D o1"
  using assms by (auto simp: obj_AssetData_def obj_view_simps split: option.splits if_splits)

lemma reverts_SetAbi: "sdb_inv s \<Longrightarrow> reverts D s (SetAbi D a abi s)"
  unfolding SetAbi_def
  by (auto intro!: reverts_with reverts_silent_write sj.reversible_refl simp: obj_view_simps)

lemma reverts_CreateAccount:
  assumes "sdb_inv s"
  shows "reverts D s (CreateAccount D a s)"
proof (cases "createObject D a s")
  case (fields o1 prev s1)
  from createObject_facts[OF assms fields] show ?thesis
    using reverts_createObject[OF assms fields] reverts_create[OF assms fields]
    by (auto simp: CreateAccount_def fields setBalance_def live_def obj_ok_def split: option.split)
qed

lemma setStateObject_tryMarkDirty:
  "so_address o2 = so_address o1 \<Longrightarrow> so_onDirty o2 = so_onDirty o1 \<Longrightarrow>
   setStateObject (o2\<lparr>so_onDirty := False\<rparr>) (tryMarkDirty o1 s) = tryMarkDirty o2 s"
  by (cases o1; cases o2) (auto simp: tryMarkDirty_def setStateObject_def MarkStateObjectDirty_def)

lemma Suicide_eq:
  "snd (Suicide a s) = (case getStateObject a s of
     (None, s1) \<Rightarrow> s1
   | (Some o1, s1) \<Rightarrow> tryMarkDirty (o1\<lparr>so_suicided := True, so_data := (so_data o1)\<lparr>acc_Balance := 0\<rparr>\<rparr>)
       (append_journal (suicideChange a (so_suicided o1) (acc_Balance (so_data o1))) s1))"
proof -
  have "setStateObject (o1\<lparr>so_suicided := True, so_onDirty := False, so_data := (so_data o1)\<lparr>acc_Balance := 0\<rparr>\<rparr>)
      (tryMarkDirty (o1\<lparr>so_suicided := True\<rparr>) t) =
    tryMarkDirty (o1\<lparr>so_suicided := True, so_data := (so_data o1)\<lparr>acc_Balance := 0\<rparr>\<rparr>) t" for o1 t
    using setStateObject_tryMarkDirty[of "o1\<lparr>so_suicided := True, so_data := (so_data o1)\<lparr>acc_Balance := 0\<rparr>\<rparr>"
        "o1\<lparr>so_suicided := True\<rparr>" t] by (cases o1) simp
  then show ?thesis
    by (auto simp: Suicide_def markSuicided_def Let_def split: prod.split option.split)
qed

lemma reverts_Suicide:
  assumes "sdb_inv s"
  shows "reverts D s (snd (Suicide a s))"
proof (cases "getStateObject a s")
  case (Pair r s1)
  note g = reverts_get[OF assms Pair, of D] getStateObject_inv[OF Pair assms]
  show ?thesis
  proof (cases r)
    case None
    with Pair g show ?thesis by (simp add: Suicide_eq)
  next
    case (Some o1)
    have live: "live o1 s1" "so_address o1 = a"
      using getStateObject_live[of a s o1 s1] Pair Some assms by auto
    have "reverts D s1 (snd (Suicide a s))"
      unfolding Suicide_eq using Pair Some live live_ok[OF live(1) g(2)]
      by (auto simp: live_def obj_ok_def obj_view_simps
          intro!: reverts_write[OF g(2) live(1)])
    with g show ?thesis using sj.reversible_trans by blast
  qed
qed

lemma reverts_AddLog:
  assumes "sdb_inv s"
  shows "reverts D s (AddLog l s)"
proof (rule reverts_step[where e = "addLogChange (thash s)"])
  show "sdb_inv (AddLog l s)"
    using assms by (auto simp: AddLog_def Let_def sdb_inv_def)
  show "undo_view D (addLogChange (thash s)) (obs D (AddLog l s)) = Some (obs D s)"
    using assms by (auto simp: AddLog_def Let_def obs_def peek_eq sdb_inv_def fun_upd_idem
        split: option.split)
qed (use assms in \<open>simp_all add: AddLog_def Let_def\<close>)

lemma reverts_AddPreimage:
  assumes "sdb_inv s"
  shows "reverts D s (AddPreimage h d s)"
proof (cases "preimages s h")
  case None
  show ?thesis
  proof (rule reverts_step[where e = "addPreimageChange h"])
    show "sdb_inv (AddPreimage h d s)"
      using assms by (auto simp: AddPreimage_def sdb_inv_def)
  qed (use assms None in \<open>simp_all add: AddPreimage_def obs_def peek_eq fun_upd_idem\<close>)
next
  case Some
  then show ?thesis using assms by (simp add: AddPreimage_def sj.reversible_refl)
qed

lemma reverts_AddRefund:
  assumes "sdb_inv s"
  shows "reverts D s (AddRefund g s)"
proof (rule reverts_step[where e = "refundChange (refund s)"])
  show "sdb_inv (AddRefund g s)"
    using assms by (auto simp: AddRefund_def sdb_inv_def)
qed (use assms in \<open>simp_all add: AddRefund_def obs_def peek_eq\<close>)

text \<open>Publishing an asset writes the data of the new account without a journal entry; undoing its
  creation removes it. A negative supply, which the validation lets through, is excluded.\<close>

lemma createObject_live_others:
  assumes "createObject D b s = (o1, p, s1)" "stateObjects s a = Some o3" "\<not> so_deleted o3"
  shows "\<exists>o2. stateObjects s1 a = Some o2 \<and> \<not> so_deleted o2"
  using assms
  by (auto simp: createObject_def Let_def getStateObject_def setNonce_def
      split: prod.splits option.splits if_splits trie_entry.splits)

lemma SetAssetData_write:
  assumes "SetAssetData o1 h d s = Some (o2, t)" "\<not> so_deleted o1" "obj_ok o1"
  shows "\<exists>o3. t = tryMarkDirty o3 s \<and> so_address o3 = so_address o1 \<and> \<not> so_deleted o3 \<and> obj_ok o3"
  using assms by (auto simp: SetAssetData_def Let_def obj_ok_def split: if_splits)

lemma reverts_PublishAsset:
  assumes inv: "sdb_inv s" and pos: "\<And>v. Supply ai = Some v \<Longrightarrow> 0 \<le> v"
  shows "reverts D s (snd (PublishAsset D a ai s))"
proof -
  obtain o1 s1 where g: "GetOrNewStateObject D a s = (o1, s1)" by fastforce
  note s1 = reverts_GetOrNew[OF inv g]
  define s2 where "s2 = obj_SetNonce o1 (acc_Nonce (so_data o1) + 1) s1"
  have s2: "reverts D s s2" using s1 reverts_setters(2)[of s1 o1] sj.reversible_trans s2_def by blast
  then have inv2: "sdb_inv s2" using reverts_inv by blast
  define aid where "aid = CreateAddress D a (acc_Nonce (so_data o1))"
  obtain ac p s3 where c: "createObject D aid s2 = (ac, p, s3)" by (cases "createObject D aid s2")
  note ac = createObject_facts[OF inv2 c]
  have s3: "reverts D s s3" using reverts_createObject[OF inv2 c] s2 sj.reversible_trans by blast
  have "\<exists>o3. stateObjects s2 a = Some o3 \<and> \<not> so_deleted o3"
    using s1 by (auto simp: s2_def obj_SetNonce_def setNonce_def live_def)
  then have obj3: "\<exists>o2. stateObjects s3 a = Some o2 \<and> \<not> so_deleted o2"
    using createObject_live_others[OF c] by blast
  have last: "reverts D s (obj_AddAssetBalance o2 aid v t)"
    if t: "reverts D s t" and o2: "stateObjects t a = Some o2" "\<not> so_deleted o2" and v: "Supply ai = Some v"
    for t o2 v
  proof -
    have "live o2 t" "sdb_inv t" using t o2 reverts_inv by (auto simp: live_def sdb_inv_def)
    then show ?thesis
      using reverts_asset(1)[of t o2 v] pos[OF v] sj.reversible_trans[OF t] by blast
  qed
  have s4: "reverts D s t \<and> (\<exists>o2. stateObjects t a = Some o2 \<and> \<not> so_deleted o2)"
    if "SetAssetData ac h d s3 = Some (x, t)" for h d x t
  proof -
    from SetAssetData_write[OF that] ac obtain o4 where "t = tryMarkDirty o4 s3" "so_address o4 = aid"
        "\<not> so_deleted o4" "obj_ok o4"
      by (auto simp: live_def)
    then show ?thesis using reverts_create[OF inv2 c, of o4] s2 sj.reversible_trans obj3 by auto
  qed
  show ?thesis
    unfolding PublishAsset_def g s2_def[symmetric] aid_def[symmetric] Let_def prod.case c
    using s1(1) s3 obj3 s4 by (fastforce split: option.split simp: Let_def intro: last)
qed

end
