(* ===== verification/Snapshots.thy ===== *)
theory Snapshots
  imports State_Revert
begin

text \<open>
  The interface the virtual machine has to the account state, \<open>core/vm/interface.go\<close>, as a datatype
  of operations, with nested calls as scopes that take a snapshot and revert to it when the call
  fails (the shape of \<open>Call\<close> and \<open>create\<close> in \<open>core/vm/evm.go\<close>). The main result: whatever a call
  did, reverting to its snapshot succeeds and restores the observable state, the journal and the
  stack of snapshots.
\<close>

section \<open>Running operations\<close>

datatype db_op =
    OpCreateAccount address
  | OpSubBalance address int | OpAddBalance address int | OpSetBalance address int
  | OpAddLockBalance address int | OpSubLockBalance address int | OpSetLockBalance address int
  | OpSubAssetBalance address address int | OpAddAssetBalance address address int
  | OpPublishAsset address AssetInfo
  | OpSetNonce address uint64 | OpSetCode address "byte list" | OpSetAbi address string
  | OpSetVoteList address "address list" | OpSetState address hash hash | OpSuicide address
  | OpAddRefund uint64 | OpAddLog Log | OpAddPreimage hash "byte list"
  | OpExist address | OpEmpty address | OpGetBalance address | OpGetLockBalance address
  | OpGetAssetBalance address address | OpGetAssets address | OpGetVoteList address | OpGetNonce address
  | OpGetCode address | OpGetCodeSize address | OpGetCodeHash address | OpGetAbi address
  | OpGetState address hash | OpHasSuicided address | OpGetAssetInfo address
  | OpScope "db_op list" bool

fun run_op :: "backend \<Rightarrow> db_op \<Rightarrow> StateDB \<Rightarrow> StateDB option"
  and run_ops :: "backend \<Rightarrow> db_op list \<Rightarrow> StateDB \<Rightarrow> StateDB option" where
  "run_op D (OpCreateAccount a) s = Some (CreateAccount D a s)"
| "run_op D (OpSubBalance a v) s = Some (SubBalance D a v s)"
| "run_op D (OpAddBalance a v) s = Some (AddBalance D a v s)"
| "run_op D (OpSetBalance a v) s = Some (SetBalance D a v s)"
| "run_op D (OpAddLockBalance a v) s = AddLockBalance D a v s"
| "run_op D (OpSubLockBalance a v) s = SubLockBalance D a v s"
| "run_op D (OpSetLockBalance a v) s = SetLockBalance D a v s"
| "run_op D (OpSubAssetBalance a aid v) s = Some (snd (SubAssetBalance D a aid v s))"
| "run_op D (OpAddAssetBalance a aid v) s = Some (AddAssetBalance D a aid v s)"
| "run_op D (OpPublishAsset a ai) s = Some (snd (PublishAsset D a ai s))"
| "run_op D (OpSetNonce a n) s = Some (SetNonce D a n s)"
| "run_op D (OpSetCode a c) s = Some (SetCode D a c s)"
| "run_op D (OpSetAbi a abi) s = Some (SetAbi D a abi s)"
| "run_op D (OpSetVoteList a vs) s = Some (SetVoteList D a vs s)"
| "run_op D (OpSetState a k v) s = Some (SetState D a k v s)"
| "run_op D (OpSuicide a) s = Some (snd (Suicide a s))"
| "run_op D (OpAddRefund g) s = Some (AddRefund g s)"
| "run_op D (OpAddLog l) s = Some (AddLog l s)"
| "run_op D (OpAddPreimage h p) s = Some (AddPreimage h p s)"
| "run_op D (OpExist a) s = Some (snd (Exist a s))"
| "run_op D (OpEmpty a) s = Some (snd (Empty D a s))"
| "run_op D (OpGetBalance a) s = Some (snd (GetBalance a s))"
| "run_op D (OpGetLockBalance a) s = Some (snd (GetLockBalance a s))"
| "run_op D (OpGetAssetBalance a aid) s = Some (snd (GetAssetBalance a aid s))"
| "run_op D (OpGetAssets a) s = Some (snd (db_GetAssets a s))"
| "run_op D (OpGetVoteList a) s = Some (snd (GetVoteList a s))"
| "run_op D (OpGetNonce a) s = Some (snd (GetNonce a s))"
| "run_op D (OpGetCode a) s = Some (snd (GetCode D a s))"
| "run_op D (OpGetCodeSize a) s = Some (snd (GetCodeSize D a s))"
| "run_op D (OpGetCodeHash a) s = Some (snd (GetCodeHash a s))"
| "run_op D (OpGetAbi a) s = Some (snd (GetAbi D a s))"
| "run_op D (OpGetState a k) s = Some (snd (GetState D a k s))"
| "run_op D (OpHasSuicided a) s = Some (snd (HasSuicided a s))"
| "run_op D (OpGetAssetInfo a) s = Some (snd (GetAssetInfo D a s))"
| "run_op D (OpScope ops failed) s =
     (let (rid, s1) = Snapshot s in
      Option.bind (run_ops D ops s1) (\<lambda>s2. if failed then RevertToSnapshot rid True s2 else Some s2))"
| "run_ops D [] s = Some s"
| "run_ops D (x # xs) s = Option.bind (run_op D x s) (run_ops D xs)"

text \<open>Amounts of assets are not negative (transfers refuse negative values; a negative supply is the
  one way around it).\<close>

fun op_ok :: "db_op \<Rightarrow> bool" where
  "op_ok (OpSubAssetBalance a aid v) \<longleftrightarrow> 0 \<le> v"
| "op_ok (OpAddAssetBalance a aid v) \<longleftrightarrow> 0 \<le> v"
| "op_ok (OpPublishAsset a ai) \<longleftrightarrow> (case Supply ai of None \<Rightarrow> True | Some v \<Rightarrow> 0 \<le> v)"
| "op_ok (OpScope ops failed) \<longleftrightarrow> list_all op_ok ops"
| "op_ok _ \<longleftrightarrow> True"

section \<open>The stack of snapshots\<close>

definition revs :: "StateDB \<Rightarrow> (nat \<times> nat) list \<times> nat" where
  "revs s = (validRevisions s, nextRevisionId s)"

lemma revs_simps [frame_simps]:
  "revs (setStateObject o1 s) = revs s" "revs (setError err s) = revs s"
  "revs (append_journal e s) = revs s" "revs (tryMarkDirty o1 s) = revs s"
  "revs (s\<lparr>stateObjects := x\<rparr>) = revs s"
  "revs (s\<lparr>stateObjectsDirty := y\<rparr>) = revs s"
  "revs (s\<lparr>refund := r\<rparr>) = revs s" "revs (s\<lparr>preimages := p\<rparr>) = revs s"
  "revs (s\<lparr>logs := l\<rparr>) = revs s" "revs (s\<lparr>logSize := n\<rparr>) = revs s"
  by (auto simp: revs_def setStateObject_def setError_def append_journal_def tryMarkDirty_def
      MarkStateObjectDirty_def)

lemma revs_get: "getStateObject a s = (r, s1) \<Longrightarrow> revs s1 = revs s"
  by (auto simp: getStateObject_def Let_def frame_simps split: option.splits trie_entry.splits)

lemma revs_create: "createObject D a s = (o1, p, s1) \<Longrightarrow> revs s1 = revs s"
  using revs_get[of a s] by (auto simp: createObject_def Let_def setNonce_def frame_simps split: prod.splits)

lemma revs_GetOrNew: "GetOrNewStateObject D a s = (o1, s1) \<Longrightarrow> revs s1 = revs s"
  using revs_get[of a s] revs_create[of D a]
  by (fastforce simp: GetOrNewStateObject_def split: prod.splits option.splits)

lemma revs_undo: "undo e s = Some s' \<Longrightarrow> revs s' = revs s"
  by (cases e) (auto simp: with_object_def setter_defs frame_simps Let_def dest: revs_get
      split: prod.splits option.splits if_splits)

lemma revs_undo_list: "undo_list undo es s = Some s' \<Longrightarrow> revs s' = revs s"
  by (induction es arbitrary: s) (auto simp: Option.bind_eq_Some_conv dest!: revs_undo)

lemmas obj_op_defs = obj_AddBalance_def obj_SubBalance_def obj_SetBalance_def obj_AddLockBalance_def
  obj_SubLockBalance_def obj_SetLockBalance_def obj_SetNonce_def obj_SetVoteList_def obj_SetState_def
  obj_SetCode_def obj_SubAssetBalance_def obj_AddAssetBalance_def touch_def

lemma revs_obj_ops:
  "revs (obj_AddBalance D o1 v s) = revs s" "revs (obj_SubBalance o1 v s) = revs s"
  "revs (obj_SetBalance o1 v s) = revs s" "revs (obj_SetNonce o1 n s) = revs s"
  "revs (obj_SetVoteList o1 vs s) = revs s" "revs (obj_SetState D o1 k x s) = revs s"
  "revs (obj_SetCode D o1 h c s) = revs s" "revs (snd (obj_SubAssetBalance o1 aid v s)) = revs s"
  "revs (obj_AddAssetBalance o1 aid v s) = revs s" "revs (setBalance o1 v s) = revs s"
  "obj_AddLockBalance D o1 v s = Some t \<Longrightarrow> revs t = revs s"
  "obj_SubLockBalance o1 v s = Some t \<Longrightarrow> revs t = revs s"
  "obj_SetLockBalance o1 v s = Some t \<Longrightarrow> revs t = revs s"
  "SetAssetData o1 h d s = Some (o2, t) \<Longrightarrow> revs t = revs s"
  by (auto simp: obj_op_defs setter_defs Let_def frame_simps SetAssetData_def
      split: prod.splits option.splits if_splits)

lemmas db_op_defs = AddBalance_def SubBalance_def SetBalance_def SetVoteList_def SetNonce_def
  SetCode_def SetState_def AddLockBalance_def SubLockBalance_def SetLockBalance_def
  AddAssetBalance_def SubAssetBalance_def SetAbi_def CreateAccount_def Suicide_eq AddLog_def
  AddPreimage_def AddRefund_def GetAssetInfo_def

lemmas db_read_defs = Exist_def Empty_def GetBalance_def GetLockBalance_def GetAssetBalance_def
  db_GetAssets_def GetVoteList_def GetNonce_def GetCode_def GetCodeSize_def GetCodeHash_def GetAbi_def
  GetState_def HasSuicided_def

lemma revs_PublishAsset: "revs (snd (PublishAsset D a ai s)) = revs s"
  by (auto simp: PublishAsset_def Let_def revs_obj_ops
      dest!: revs_GetOrNew revs_create revs_obj_ops(14) split: prod.splits option.splits)

lemma revs_SetAbi: "revs (SetAbi D a abi s) = revs s"
  by (auto simp: SetAbi_def frame_simps dest!: revs_GetOrNew split: prod.splits)

lemma revs_run_op:
  assumes "run_op D x s = Some t" "\<And>ops b. x \<noteq> OpScope ops b"
  shows "revs t = revs s"
  using assms
  by (cases x)
    (auto simp: revs_PublishAsset revs_SetAbi db_op_defs db_read_defs revs_obj_ops frame_simps Let_def
      dest!: revs_GetOrNew revs_create revs_get revs_obj_ops(11-13) split: prod.splits option.splits)

section \<open>Calls\<close>

lemma reverts_reads:
  assumes inv: "sdb_inv s"
  shows "reverts D s (snd (GetCode D a s))" "reverts D s (snd (GetAbi D a s))"
    "reverts D s (snd (GetState D a k s))" "reverts D s (snd (GetCodeSize D a s))"
proof -
  obtain r s1 where g: "getStateObject a s = (r, s1)" by fastforce
  note s1 = reverts_get[OF inv g, of D] getStateObject_inv[OF g inv]
  have silent: "reverts D s (setStateObject o2 s1)"
    if "r = Some o1" "so_address o2 = so_address o1" "so_deleted o2 = so_deleted o1"
      "so_data o2 = so_data o1" "obj_view D o2 = obj_view D o1" for o1 o2
    using that reverts_silent_write[OF s1(2), of o1 o2 D] getStateObject_live[of a s o1 s1] g inv
      sj.reversible_trans[OF s1(1)] by blast
  have err: "reverts D s (setError e s1)" for e
  proof -
    have "sdb_inv (setError e s1)" using s1(2) sdb_inv_frame[of "setError e s1" s1] by simp
    then have "reverts D s1 (setError e s1)"
      using s1(2) by (intro sj.reversible_silent) (simp_all add: obs_def peek_eq)
    with s1(1) show ?thesis using sj.reversible_trans by blast
  qed
  show "reverts D s (snd (GetCode D a s))"
    using s1 g by (auto simp: GetCode_def split: prod.splits option.splits intro!: silent obj_Code_frame)
  show "reverts D s (snd (GetAbi D a s))"
    using s1 g by (auto simp: GetAbi_def split: prod.splits option.splits intro!: silent obj_Abi_frame)
  show "reverts D s (snd (GetState D a k s))"
    using s1 g by (auto simp: GetState_def split: prod.splits option.splits intro!: silent obj_GetState_frame)
  show "reverts D s (snd (GetCodeSize D a s))"
    using s1 g err by (auto simp: GetCodeSize_def split: prod.splits option.splits)
qed

lemma reverts_GetAssetInfo:
  assumes "sdb_inv s"
  shows "reverts D s (snd (GetAssetInfo D a s))"
proof -
  obtain o1 s1 where g: "GetOrNewStateObject D a s = (o1, s1)" by fastforce
  note s1 = reverts_GetOrNew[OF assms g]
  have "reverts D s (setStateObject o2 s1)" if "obj_AssetData D o1 = (c, o2)" for c o2
    using reverts_silent_write[OF s1(4,2) obj_AssetData_frame[OF that]] sj.reversible_trans[OF s1(1)] by blast
  with s1(1) show ?thesis
    by (auto simp: GetAssetInfo_def g split: prod.splits option.splits)
qed

lemma reverts_run_op:
  assumes "sdb_inv s" "op_ok x" "run_op D x s = Some t" "\<And>ops b. x \<noteq> OpScope ops b"
  shows "reverts D s t"
proof -
  have get: "reverts D s (snd (getStateObject a s))" for a
    using reverts_get[OF assms(1)] by (cases "getStateObject a s") simp
  have [simp]: "snd (Exist a s) = snd (getStateObject a s)" "snd (Empty D a s) = snd (getStateObject a s)"
    "snd (GetBalance a s) = snd (getStateObject a s)" "snd (GetLockBalance a s) = snd (getStateObject a s)"
    "snd (GetAssetBalance a aid s) = snd (getStateObject a s)" "snd (db_GetAssets a s) = snd (getStateObject a s)"
    "snd (GetVoteList a s) = snd (getStateObject a s)" "snd (GetNonce a s) = snd (getStateObject a s)"
    "snd (GetCodeHash a s) = snd (getStateObject a s)" "snd (HasSuicided a s) = snd (getStateObject a s)" for a aid
    by (simp_all add: db_read_defs split: prod.split option.split)
  from assms(2-) show ?thesis
    by (cases x) (auto simp: get reverts_writes reverts_SubAssetBalance reverts_SetAbi reverts_CreateAccount
        reverts_Suicide reverts_AddLog reverts_AddPreimage reverts_AddRefund
        reverts_reads reverts_GetAssetInfo assms(1) split: option.splits intro!: reverts_PublishAsset)
qed

text \<open>A state extends another when it is reversible to it and has only newer snapshots on top.\<close>

definition extends :: "backend \<Rightarrow> StateDB \<Rightarrow> StateDB \<Rightarrow> bool" where
  "extends D s t \<longleftrightarrow> reverts D s t \<and> nextRevisionId s \<le> nextRevisionId t \<and>
     (\<exists>newer. validRevisions t = validRevisions s @ newer \<and> sorted_wrt (<) (map fst newer) \<and>
        (\<forall>r \<in> set newer. nextRevisionId s \<le> fst r \<and> fst r < nextRevisionId t))"

definition revs_ok :: "StateDB \<Rightarrow> bool" where
  "revs_ok s \<longleftrightarrow> (\<forall>r \<in> set (validRevisions s). fst r < nextRevisionId s)"

lemma extends_same_revs: "reverts D s t \<Longrightarrow> revs t = revs s \<Longrightarrow> extends D s t"
  by (simp add: extends_def revs_def)

lemma extends_run_op:
  "run_op D x s = Some t \<Longrightarrow> sdb_inv s \<Longrightarrow> op_ok x \<Longrightarrow> (\<And>ops b. x \<noteq> OpScope ops b) \<Longrightarrow> extends D s t"
  by (rule extends_same_revs) (rule reverts_run_op revs_run_op; assumption)+

lemma extends_trans:
  assumes "extends D s t" "extends D t u"
  shows "extends D s u"
proof -
  from assms(1) obtain m where m: "validRevisions t = validRevisions s @ m" "sorted_wrt (<) (map fst m)"
      "\<And>r. r \<in> set m \<Longrightarrow> nextRevisionId s \<le> fst r \<and> fst r < nextRevisionId t" "nextRevisionId s \<le> nextRevisionId t"
    by (auto simp: extends_def)
  from assms(2) obtain n where n: "validRevisions u = validRevisions t @ n" "sorted_wrt (<) (map fst n)"
      "\<And>r. r \<in> set n \<Longrightarrow> nextRevisionId t \<le> fst r \<and> fst r < nextRevisionId u" "nextRevisionId t \<le> nextRevisionId u"
    by (auto simp: extends_def)
  have "sorted_wrt (<) (map fst (m @ n))"
    using m n by (fastforce simp: sorted_wrt_append)
  moreover have "\<forall>r \<in> set (m @ n). nextRevisionId s \<le> fst r \<and> fst r < nextRevisionId u"
    using m(3,4) n(3,4) by fastforce
  ultimately show ?thesis
    using m n assms sj.reversible_trans[of D s t u] unfolding extends_def by auto
qed

lemma extends_revs_ok: "extends D s t \<Longrightarrow> revs_ok s \<Longrightarrow> revs_ok t"
  by (fastforce simp: extends_def revs_ok_def)

lemma extends_inv: "extends D s t \<Longrightarrow> sdb_inv t"
  using reverts_inv by (auto simp: extends_def)

lemma Snapshot_facts:
  assumes "Snapshot s = (rid, s1)"
  shows "rid = nextRevisionId s" "validRevisions s1 = validRevisions s @ [(rid, length (journal s))]"
    "nextRevisionId s1 = Suc rid" "journal s1 = journal s" "obs D s1 = obs D s" "sdb_inv s1 = sdb_inv s"
  using assms sdb_inv_frame[of s1 s] by (auto simp: Snapshot_def Let_def obs_def peek_eq)

lemma extends_Snapshot:
  assumes "Snapshot s = (rid, s1)" "sdb_inv s"
  shows "extends D s s1"
  using assms Snapshot_facts[OF assms(1)] sj.reversible_silent[of s s1 D] by (simp add: extends_def)

lemma revert_extends:
  assumes snap: "Snapshot s = (rid, s1)" and inv: "sdb_inv s" "revs_ok s" and ext: "extends D s1 t"
  shows "\<exists>u. RevertToSnapshot rid True t = Some u \<and> obs D u = obs D s \<and> sdb_inv u \<and>
    journal u = journal s \<and> validRevisions u = validRevisions s \<and> nextRevisionId u = nextRevisionId t"
proof -
  note f = Snapshot_facts[OF snap]
  from ext obtain newer where newer: "validRevisions t = validRevisions s @ (rid, length (journal s)) # newer"
      "\<And>r. r \<in> set newer \<Longrightarrow> rid < fst r"
    using f by (fastforce simp: extends_def)
  from ext obtain es u where u: "journal t = journal s @ es" "list_all entry_ok es"
      "undo_list undo (rev es) t = Some u" "obs D u = obs D s"
    using f by (auto simp: extends_def sj.reversible_def)
  have "sdb_inv u"
    using sj.undo_list_inv[of t "rev es" u] u extends_inv[OF ext] by simp
  let ?u = "u\<lparr>journal := journal s, validRevisions := validRevisions s\<rparr>"
  have at: "undo_at True = undo" by (simp add: fun_eq_iff undo_at_def)
  have "sort_Search (length (validRevisions t)) (\<lambda>i. rid \<le> fst (validRevisions t ! i)) = length (validRevisions s)"
    unfolding newer(1) by (rule find_revision) (use inv(2) f(1) newer(2) in \<open>auto simp: revs_ok_def\<close>)
  then have "RevertToSnapshot rid True t = Some ?u"
    using u by (simp add: RevertToSnapshot_def Let_def newer(1) at)
  moreover have "sdb_inv ?u = sdb_inv u" by (rule sdb_inv_frame) simp_all
  moreover have "obs D ?u = obs D u" by (simp add: obs_def peek_eq)
  moreover have "nextRevisionId u = nextRevisionId t" using revs_undo_list[OF u(3)] by (simp add: revs_def)
  ultimately show ?thesis using u \<open>sdb_inv u\<close> by auto
qed

lemma run_extends:
  "run_op D x s = Some t \<Longrightarrow> sdb_inv s \<Longrightarrow> revs_ok s \<Longrightarrow> op_ok x \<Longrightarrow> extends D s t"
  "run_ops D xs s = Some t \<Longrightarrow> sdb_inv s \<Longrightarrow> revs_ok s \<Longrightarrow> list_all op_ok xs \<Longrightarrow> extends D s t"
proof (induction D x s and D xs s arbitrary: t and t rule: run_op_run_ops.induct)
  case (35 D ops failed s)
  obtain rid s1 where snap: "Snapshot s = (rid, s1)" by fastforce
  with "35.prems" obtain s2 where s2: "run_ops D ops s1 = Some s2"
      "if failed then RevertToSnapshot rid True s2 = Some t else t = s2"
    by (auto simp: Option.bind_eq_Some_conv split: if_splits)
  have s1: "extends D s s1" using extends_Snapshot[OF snap] "35.prems"(2) .
  then have ext: "extends D s1 s2"
    using "35.IH"[OF snap[symmetric] refl s2(1)] "35.prems" extends_inv extends_revs_ok by auto
  then have "extends D s s2" using s1 extends_trans by blast
  moreover have "extends D s t" if failed
  proof -
    from revert_extends[OF snap "35.prems"(2,3) ext] s2 that have t: "obs D t = obs D s" "sdb_inv t"
        "journal t = journal s" "validRevisions t = validRevisions s" "nextRevisionId t = nextRevisionId s2"
      by auto
    with \<open>extends D s s2\<close> "35.prems"(2) show ?thesis
      using sj.reversible_silent[of s t D] by (auto simp: extends_def)
  qed
  ultimately show ?case using s2(2) by (cases failed) auto
next
  case (36 D s)
  then show ?case using extends_same_revs sj.reversible_refl by auto
next
  case (37 D x xs s)
  then obtain s1 where "run_op D x s = Some s1" "run_ops D xs s1 = Some t"
    by (auto simp: Option.bind_eq_Some_conv)
  moreover have "op_ok x" "list_all op_ok xs" using "37.prems" by simp_all
  ultimately show ?case
    using 37 by (meson extends_inv extends_revs_ok extends_trans)
qed (erule extends_run_op; (assumption | simp))+

section \<open>Properties\<close>

lemma obs_reads:
  assumes "obs D s = obs D t"
  shows "fst (GetBalance a s) = fst (GetBalance a t)" "fst (GetNonce a s) = fst (GetNonce a t)"
    "fst (GetState D a k s) = fst (GetState D a k t)" "fst (GetCode D a s) = fst (GetCode D a t)"
    "fst (GetAssetBalance a aid s) = fst (GetAssetBalance a aid t)"
    "fst (GetLockBalance a s) = fst (GetLockBalance a t)" "fst (GetVoteList a s) = fst (GetVoteList a t)"
    "fst (Exist a s) = fst (Exist a t)" "fst (HasSuicided a s) = fst (HasSuicided a t)"
    "fst (GetCodeHash a s) = fst (GetCodeHash a t)"
proof -
  have acc: "map_option (obj_view D) (peek s a) = map_option (obj_view D) (peek t a)"
    using arg_cong[OF assms, of "\<lambda>v. sv_acc v a"] by (simp add: obs_def)
  have reads: "fst (GetBalance a u) = (case map_option (obj_view D) (peek u a) of None \<Rightarrow> 0 | Some w \<Rightarrow> v_balance w)"
    "fst (GetNonce a u) = (case map_option (obj_view D) (peek u a) of None \<Rightarrow> 0 | Some w \<Rightarrow> v_nonce w)"
    "fst (GetState D a k u) = (case map_option (obj_view D) (peek u a) of None \<Rightarrow> 0 | Some w \<Rightarrow> v_storage w k)"
    "fst (GetCode D a u) = (case map_option (obj_view D) (peek u a) of None \<Rightarrow> None | Some w \<Rightarrow> v_code w)"
    "fst (GetAssetBalance a aid u) = (case map_option (obj_view D) (peek u a) of None \<Rightarrow> 0 | Some w \<Rightarrow> v_assets w aid)"
    "fst (GetLockBalance a u) = (case map_option (obj_view D) (peek u a) of None \<Rightarrow> Some 0 | Some w \<Rightarrow> v_lock w)"
    "fst (GetVoteList a u) = (case map_option (obj_view D) (peek u a) of None \<Rightarrow> [] | Some w \<Rightarrow> v_votes w)"
    "fst (HasSuicided a u) = (case map_option (obj_view D) (peek u a) of None \<Rightarrow> False | Some w \<Rightarrow> v_suicided w)"
    "fst (Exist a u) = (map_option (obj_view D) (peek u a) \<noteq> None)"
    "fst (GetCodeHash a u) = (case map_option (obj_view D) (peek u a) of None \<Rightarrow> 0 | Some w \<Rightarrow> v_codehash w)" for u
    by (auto simp: db_read_defs peek_def obj_view_def storage_of_def split: prod.split option.split)
  show "fst (GetBalance a s) = fst (GetBalance a t)" "fst (GetNonce a s) = fst (GetNonce a t)"
    "fst (GetState D a k s) = fst (GetState D a k t)" "fst (GetCode D a s) = fst (GetCode D a t)"
    "fst (GetAssetBalance a aid s) = fst (GetAssetBalance a aid t)"
    "fst (GetLockBalance a s) = fst (GetLockBalance a t)" "fst (GetVoteList a s) = fst (GetVoteList a t)"
    "fst (Exist a s) = fst (Exist a t)" "fst (HasSuicided a s) = fst (HasSuicided a t)"
    "fst (GetCodeHash a s) = fst (GetCodeHash a t)"
    unfolding reads acc by (rule refl)+
qed


text \<open>A database over an empty trie, with constant parameters.\<close>

definition backend0 :: backend where
  "backend0 = \<lparr>keccak256 = (\<lambda>bs. of_nat (length bs)), CreateAddress = (\<lambda>a n. a + 1), ContractCode = (\<lambda>_. None),
     ContractAbi = (\<lambda>_. None), StoredAssetData = (\<lambda>_. None), OpenStorageTrie = (\<lambda>_. Some (\<lambda>_. 0)),
     StorageRoot = (\<lambda>_. 0), EncodeAssetInfo = (\<lambda>_. Some []), DecodeAssetInfo = (\<lambda>_. None)\<rparr>"

definition empty_db :: StateDB where
  "empty_db = New (\<lambda>_. NotFound None)"

lemma empty_db_ok [simp]: "sdb_inv empty_db" "revs_ok empty_db"
  by (simp_all add: empty_db_def New_def sdb_inv_def revs_ok_def)

definition call_ops :: "db_op list" where
  "call_ops = [OpAddBalance 1 5, OpScope [OpSetNonce 1 7, OpAddAssetBalance 2 9 3] True,
     OpSetState 1 0 1, OpSuicide 2]"


section \<open>What a revert does not restore\<close>

text \<open>\<open>SetAbi\<close> writes no journal entry: the ABI of an account with code stays as it was set, although the call that set
  it is reverted.\<close>

lemma revert_keeps_abi:
  assumes "revs_ok s" "Snapshot s = (rid, s1)" "stateObjects s a = Some o1" "\<not> so_deleted o1" "so_address o1 = a"
    "acc_CodeHash (so_data o1) \<noteq> emptyCodeHash D" "abi \<noteq> []"
  shows "\<exists>u. RevertToSnapshot rid True (SetAbi D a abi s1) = Some u \<and> fst (GetAbi D a u) = abi"
proof -
  note f = Snapshot_facts[OF assms(2)]
  have obj: "stateObjects s1 a = Some o1" using assms(2,3) by (auto simp: Snapshot_def Let_def)
  define t where "t = setStateObject (o1\<lparr>so_abi := abi\<rparr>) s1"
  have t: "SetAbi D a abi s1 = t"
    using obj assms(4,6,7) by (simp add: SetAbi_def GetOrNewStateObject_def getStateObject_def t_def)
  have revs: "validRevisions t = validRevisions s @ (rid, length (journal s)) # []" "journal t = journal s"
    using f(2,4) by (simp_all add: t_def)
  have "sort_Search (length (validRevisions t)) (\<lambda>i. rid \<le> fst (validRevisions t ! i)) = length (validRevisions s)"
    unfolding revs(1) by (rule find_revision) (use assms(1) f(1) in \<open>auto simp: revs_ok_def\<close>)
  then have "RevertToSnapshot rid True t = Some (t\<lparr>journal := journal s, validRevisions := validRevisions s\<rparr>)"
    by (simp add: RevertToSnapshot_def Let_def revs)
  moreover have "fst (GetAbi D a (t\<lparr>journal := journal s, validRevisions := validRevisions s\<rparr>)) = abi"
    using assms(4,5,7) by (simp add: GetAbi_def getStateObject_def obj_Abi_def t_def)
  ultimately show ?thesis by (simp add: t)
qed

text \<open>A payment of zero makes an entry with a balance of zero. Undoing a second one removes the entry, and with it the
  account counts as empty, which it did not before.\<close>

definition zero_entry_db :: StateDB where
  "zero_entry_db = AddAssetBalance backend0 1 9 0 (SetNonce backend0 1 0 empty_db)"

lemma revert_drops_entry:
  "fst (db_GetAssets 1 zero_entry_db) = Some [\<lparr>ID = 9, Balance = 0\<rparr>]" "\<not> fst (Empty backend0 1 zero_entry_db)"
  "case RevertToSnapshot 0 True (AddAssetBalance backend0 1 9 0 (snd (Snapshot zero_entry_db))) of
     None \<Rightarrow> False | Some u \<Rightarrow> fst (db_GetAssets 1 u) = None \<and> fst (Empty backend0 1 u)"
  by code_simp+

end
