(* ===== verification/State_Commit.thy ===== *)
theory State_Commit
  imports Snapshots
begin

text \<open>
  Writing the state back: the storage cache of an object, \<open>Finalise\<close>, and copies of a database
  (\<open>core/state/statedb.go\<close>, \<open>core/state/state_object.go\<close>). The theory shows that the cache agrees
  with the storage trie, that \<open>Finalise\<close> does not depend on the order in which Go ranges over the set
  of dirty objects, that the accounts it writes are the ones a new database reads, and what the
  touch entry of the journal does to an account that is paid later.
\<close>

section \<open>Copies\<close>

definition deepCopy :: "stateObject \<Rightarrow> stateObject" where
  "deepCopy o1 =
     (newObject (so_address o1) (so_data o1))
       \<lparr>so_trie := so_trie o1, so_code := so_code o1, so_dirtyStorage := so_dirtyStorage o1,
        so_cachedStorage := so_dirtyStorage o1, so_suicided := so_suicided o1,
        so_dirtyCode := so_dirtyCode o1, so_deleted := so_deleted o1\<rparr>"

text \<open>\<open>Copy\<close> keeps the dirty objects only; a dirty address without an object would be a nil pointer.\<close>

definition Copy :: "StateDB \<Rightarrow> StateDB option" where
  "Copy s =
     (if stateObjectsDirty s \<subseteq> dom (stateObjects s)
      then Some ((New (trie s))
        \<lparr>stateObjects := (\<lambda>a. if a \<in> stateObjectsDirty s then map_option deepCopy (stateObjects s a) else None),
         stateObjectsDirty := stateObjectsDirty s, refund := refund s, logs := logs s,
         logSize := logSize s, preimages := preimages s\<rparr>)
      else None)"

section \<open>The storage cache\<close>

definition base_storage :: "backend \<Rightarrow> stateObject \<Rightarrow> hash \<Rightarrow> hash" where
  "base_storage D o1 =
     (case so_trie o1 of
        Some t \<Rightarrow> t
      | None \<Rightarrow> (case OpenStorageTrie D (acc_Root (so_data o1)) of Some t \<Rightarrow> t | None \<Rightarrow> (\<lambda>_. 0)))"

text \<open>A cached slot is a pending write or what the trie holds, and every pending write is cached.\<close>

definition cache_ok :: "backend \<Rightarrow> stateObject \<Rightarrow> bool" where
  "cache_ok D o1 \<longleftrightarrow>
     (\<forall>k w. so_dirtyStorage o1 k = Some w \<longrightarrow> so_cachedStorage o1 k = Some w) \<and>
     (\<forall>k v. so_dirtyStorage o1 k = None \<longrightarrow> so_cachedStorage o1 k = Some v \<longrightarrow> v = base_storage D o1 k)"

lemma storage_of_base:
  "storage_of D o1 k = (case so_cachedStorage o1 k of Some v \<Rightarrow> v | None \<Rightarrow> base_storage D o1 k)"
  by (simp add: storage_of_eq storage_value_def base_storage_def split: option.split)

lemma cache_ok_dirty: "cache_ok D o1 \<Longrightarrow> so_dirtyStorage o1 k = Some w \<Longrightarrow> so_cachedStorage o1 k = Some w"
  by (simp add: cache_ok_def)

lemma cache_ok_clean:
  "cache_ok D o1 \<Longrightarrow> so_dirtyStorage o1 k = None \<Longrightarrow> so_cachedStorage o1 k = Some v \<Longrightarrow> v = base_storage D o1 k"
  by (simp add: cache_ok_def)

lemma storage_of_dirty:
  "cache_ok D o1 \<Longrightarrow>
   storage_of D o1 k = (case so_dirtyStorage o1 k of Some w \<Rightarrow> w | None \<Rightarrow> base_storage D o1 k)"
  by (auto simp: storage_of_base dest: cache_ok_dirty cache_ok_clean split: option.split)

lemma getTrie_base:
  assumes "getTrie D o1 = (t, o2)"
  shows "t = base_storage D o1" "so_trie o2 = Some t" "so_cachedStorage o2 = so_cachedStorage o1"
    "so_dirtyStorage o2 = so_dirtyStorage o1" "so_data o2 = so_data o1" "base_storage D o2 = t"
    "so_address o2 = so_address o1" "so_suicided o2 = so_suicided o1" "so_deleted o2 = so_deleted o1"
    "so_code o2 = so_code o1"
  using assms by (auto simp: getTrie_def base_storage_def fun_eq_iff split: option.splits)

lemma cache_ok_new: "cache_ok D (newObject a acc)"
  by (simp add: cache_ok_def newObject_def)

lemma cache_ok_GetState:
  assumes "cache_ok D o1" "obj_GetState D o1 k = (v, o2)"
  shows "cache_ok D o2"
proof (cases "so_cachedStorage o1 k")
  case None
  obtain t o3 where g: "getTrie D o1 = (t, o3)" by fastforce
  note gb = getTrie_base[OF g]
  have "so_dirtyStorage o1 k = None" using cache_ok_dirty[OF assms(1), of k] None by fastforce
  moreover from None g assms(2) have "o2 = (if t k \<noteq> 0
      then o3\<lparr>so_cachedStorage := (so_cachedStorage o3)(k \<mapsto> t k)\<rparr> else o3)"
    by (auto simp: obj_GetState_def Let_def)
  moreover have "base_storage D (o3\<lparr>so_cachedStorage := c\<rparr>) = t" for c
    using gb by (simp add: base_storage_def)
  ultimately show ?thesis using assms(1) gb(1-4,6) by (auto simp: cache_ok_def)
next
  case Some
  with assms show ?thesis by (simp add: obj_GetState_def)
qed

definition written :: "hash \<Rightarrow> hash \<Rightarrow> stateObject \<Rightarrow> stateObject" where
  "written k v o1 = o1\<lparr>so_cachedStorage := (so_cachedStorage o1)(k \<mapsto> v),
                       so_dirtyStorage := (so_dirtyStorage o1)(k \<mapsto> v)\<rparr>"

lemma cache_ok_written: "cache_ok D o1 \<Longrightarrow> cache_ok D (written k v o1)"
proof -
  assume ok: "cache_ok D o1"
  have "base_storage D (written k v o1) = base_storage D o1"
    by (simp add: written_def base_storage_def split: option.split)
  then show ?thesis
    using cache_ok_dirty[OF ok] cache_ok_clean[OF ok]
    by (auto simp: cache_ok_def written_def split: option.split)
qed

lemma setState_written: "setState o1 k v s = tryMarkDirty (written k v o1) s"
  by (simp add: setState_def written_def)

lemma updateTrie_facts:
  assumes "cache_ok D o1"
  shows "base_storage D (updateTrie D o1) = storage_of D o1" "so_trie (updateTrie D o1) = Some (storage_of D o1)"
    "storage_of D (updateTrie D o1) = storage_of D o1" "cache_ok D (updateTrie D o1)"
    "so_data (updateTrie D o1) = so_data o1" "so_dirtyStorage (updateTrie D o1) = Map.empty"
    "so_address (updateTrie D o1) = so_address o1" "so_deleted (updateTrie D o1) = so_deleted o1"
    "so_suicided (updateTrie D o1) = so_suicided o1" "so_code (updateTrie D o1) = so_code o1"
proof -
  obtain t o2 where g: "getTrie D o1 = (t, o2)" by fastforce
  note gb = getTrie_base[OF g]
  have u: "updateTrie D o1 = o2\<lparr>so_trie := Some (storage_of D o1), so_dirtyStorage := Map.empty\<rparr>"
  proof -
    have "(\<lambda>k. case so_dirtyStorage o1 k of Some v \<Rightarrow> v | None \<Rightarrow> t k) = storage_of D o1"
      by (rule ext) (simp add: storage_of_dirty[OF assms] gb(1) split: option.split)
    with gb(4) show ?thesis by (simp add: updateTrie_def g)
  qed
  then show "so_trie (updateTrie D o1) = Some (storage_of D o1)"
    "base_storage D (updateTrie D o1) = storage_of D o1"
    "so_data (updateTrie D o1) = so_data o1" "so_dirtyStorage (updateTrie D o1) = Map.empty"
    "so_address (updateTrie D o1) = so_address o1" "so_deleted (updateTrie D o1) = so_deleted o1"
    "so_suicided (updateTrie D o1) = so_suicided o1" "so_code (updateTrie D o1) = so_code o1"
    using gb by (simp_all add: base_storage_def)
  show "storage_of D (updateTrie D o1) = storage_of D o1"
    using gb by (auto simp: u fun_eq_iff storage_of_base base_storage_def split: option.split)
  show "cache_ok D (updateTrie D o1)"
    using gb by (auto simp: u cache_ok_def storage_of_base base_storage_def split: option.split)
qed

lemma deepCopy_facts:
  assumes "cache_ok D o1"
  shows "obj_view D (deepCopy o1) = obj_view D o1" "cache_ok D (deepCopy o1)"
    "so_deleted (deepCopy o1) = so_deleted o1"
proof -
  have base: "base_storage D (deepCopy o1) = base_storage D o1"
    by (simp add: deepCopy_def base_storage_def split: option.split)
  have cached: "so_cachedStorage (deepCopy o1) = so_dirtyStorage o1"
    by (simp add: deepCopy_def)
  have "storage_of D (deepCopy o1) = storage_of D o1"
    by (rule ext) (simp add: storage_of_dirty[OF assms] storage_of_base[of D "deepCopy o1"] base cached
        split: option.split)
  then show "obj_view D (deepCopy o1) = obj_view D o1"
    unfolding obj_view_def code_of_eq by (simp add: deepCopy_def)
  show "cache_ok D (deepCopy o1)"
    by (simp add: cache_ok_def deepCopy_def)
  show "so_deleted (deepCopy o1) = so_deleted o1" by (simp add: deepCopy_def)
qed

section \<open>Finalise\<close>

text \<open>What \<open>Finalise\<close> does to one dirty object, without the loop.\<close>

definition dropped :: "backend \<Rightarrow> bool \<Rightarrow> stateObject \<Rightarrow> bool" where
  "dropped D del o1 \<longleftrightarrow> so_suicided o1 \<or> (del \<and> empty_obj D o1)"

definition finalised :: "backend \<Rightarrow> bool \<Rightarrow> stateObject \<Rightarrow> stateObject" where
  "finalised D del o1 = (if dropped D del o1 then o1\<lparr>so_deleted := True\<rparr> else updateRoot D o1)"

definition final_entry :: "backend \<Rightarrow> bool \<Rightarrow> stateObject \<Rightarrow> trie_entry" where
  "final_entry D del o1 =
     (if dropped D del o1 then NotFound None else Stored (reencoded (so_data (updateRoot D o1))))"

definition final_ok :: "backend \<Rightarrow> bool \<Rightarrow> stateObject option \<Rightarrow> bool" where
  "final_ok D del m = (case m of None \<Rightarrow> False | Some o1 \<Rightarrow> dropped D del o1 \<or> encodable (so_data o1))"

definition finalise_on :: "backend \<Rightarrow> bool \<Rightarrow> address set \<Rightarrow> StateDB \<Rightarrow> StateDB" where
  "finalise_on D del A s =
     s\<lparr>stateObjects := (\<lambda>a. if a \<in> A then map_option (finalised D del) (stateObjects s a) else stateObjects s a),
       trie := (\<lambda>a. case stateObjects s a of
                  None \<Rightarrow> trie s a
                | Some o1 \<Rightarrow> if a \<in> A then final_entry D del o1 else trie s a)\<rparr>"

lemma updateRoot_frame:
  "so_address (updateRoot D o1) = so_address o1" "encodable (so_data (updateRoot D o1)) = encodable (so_data o1)"
  by (auto simp: updateRoot_def updateTrie_def getTrie_def encodable_def Let_def split: option.split)

lemma finalise_one_eq:
  assumes "\<And>o1. stateObjects s a = Some o1 \<Longrightarrow> so_address o1 = a"
  shows "finalise_one D del a s =
    (if final_ok D del (stateObjects s a) then Some (finalise_on D del {a} s) else None)"
proof (cases "stateObjects s a")
  case None
  then show ?thesis by (simp add: finalise_one_def final_ok_def)
next
  case (Some o1)
  have eq: "finalise_on D del {a} s =
      s\<lparr>stateObjects := (stateObjects s)(a \<mapsto> finalised D del o1), trie := (trie s)(a := final_entry D del o1)\<rparr>"
    using Some by (auto simp: finalise_on_def fun_eq_iff split: option.split intro!: StateDB.equality)
  show ?thesis
    using assms[OF Some] updateRoot_frame[of D o1]
    by (simp add: eq finalise_one_def Some final_ok_def dropped_def finalised_def final_entry_def
        deleteStateObject_def updateStateObject_def setStateObject_def Let_def)
qed

lemma finalise_on_frame:
  "a \<notin> A \<Longrightarrow> stateObjects (finalise_on D del A s) a = stateObjects s a"
  by (simp add: finalise_on_def)

lemma finalise_on_insert:
  "a \<notin> A \<Longrightarrow> finalise_on D del A (finalise_on D del {a} s) = finalise_on D del (insert a A) s"
  by (auto simp: finalise_on_def fun_eq_iff split: option.split intro!: StateDB.equality)

lemma finalise_loop_eq:
  assumes "distinct ord" "\<And>a o1. a \<in> set ord \<Longrightarrow> stateObjects s a = Some o1 \<Longrightarrow> so_address o1 = a"
  shows "finalise_loop D del ord s =
    (if \<forall>a \<in> set ord. final_ok D del (stateObjects s a) then Some (finalise_on D del (set ord) s) else None)"
  using assms
proof (induction ord arbitrary: s)
  case Nil
  have "finalise_on D del {} s = s"
    by (auto simp: finalise_on_def fun_eq_iff split: option.split intro!: StateDB.equality)
  then show ?case by simp
next
  case (Cons a as)
  let ?s = "finalise_on D del {a} s"
  have same: "stateObjects ?s b = stateObjects s b" if "b \<in> set as" for b
    using that Cons.prems(1) by (intro finalise_on_frame) auto
  have "finalise_loop D del as ?s =
      (if \<forall>b \<in> set as. final_ok D del (stateObjects s b) then Some (finalise_on D del (set as) ?s) else None)"
    using Cons.IH[of ?s] Cons.prems same by simp
  moreover have "finalise_on D del (set as) ?s = finalise_on D del (set (a # as)) s"
    using finalise_on_insert[of a "set as"] Cons.prems(1) by simp
  ultimately show ?case
    using finalise_one_eq[of s a D del] Cons.prems(2) by auto
qed

lemma updateRoot_view:
  assumes "cache_ok D o1"
  shows "so_data (updateRoot D o1) = (so_data o1)\<lparr>acc_Root := StorageRoot D (storage_of D o1)\<rparr>"
  using updateTrie_facts[OF assms] by (simp add: updateRoot_def Let_def)

section \<open>Properties\<close>

text \<open>Two accounts paid in an empty database, for the examples below.\<close>

definition paid_db :: StateDB where
  "paid_db = AddBalance backend0 1 5 (AddBalance backend0 2 7 empty_db)"

definition paid_obj :: stateObject where
  "paid_obj = (newObject 1 ((zeroAccount backend0)\<lparr>acc_Nonce := 0, acc_Balance := 5\<rparr>))\<lparr>so_onDirty := False\<rparr>"

lemma paid_db_inv: "sdb_inv paid_db"
  unfolding paid_db_def
  using reverts_inv[OF reverts_writes(1)] empty_db_ok(1) by blast

lemma paid_db_objects: "stateObjects paid_db 1 = Some paid_obj" "stateObjectsDirty paid_db = {1, 2}"
  "stateObjects paid_db 2 \<noteq> None"
  by (simp_all add: paid_db_def paid_obj_def empty_db_def New_def AddBalance_def GetOrNewStateObject_def
      getStateObject_def createObject_def setNonce_def tryMarkDirty_def setStateObject_def MarkStateObjectDirty_def
      append_journal_def obj_AddBalance_def obj_SetBalance_def setBalance_def newObject_def zeroAccount_def
      setError_def Let_def insert_commute)

lemma paid_obj_cache: "cache_ok backend0 paid_obj" "storage_of backend0 paid_obj = (\<lambda>_. 0)"
  by (simp_all add: cache_ok_def paid_obj_def newObject_def storage_of_eq storage_value_def fun_eq_iff
      backend0_def zeroAccount_def)

text \<open>C5: \<open>Finalise\<close> ranges over a Go map in an order the runtime picks; the order does not matter.
  Whatever the order, it panics exactly when some dirty account is kept and cannot be encoded, and
  otherwise every dirty object is written or dropped once, all other accounts are left alone, and the
  journal, the snapshots and the refund are cleared.\<close>

theorem finalise_any_order:
  assumes "sdb_inv s" "distinct ord" "set ord = stateObjectsDirty s"
  shows "Finalise D ord del s =
    (if \<forall>a \<in> stateObjectsDirty s. final_ok D del (stateObjects s a)
     then Some ((finalise_on D del (stateObjectsDirty s) s)\<lparr>journal := [], validRevisions := [], refund := 0\<rparr>)
     else None)"
proof -
  have "so_address o1 = a" if "stateObjects s a = Some o1" for a o1
    using assms(1) that by (auto simp: sdb_inv_def)
  with finalise_loop_eq[OF assms(2), of s D del] assms(3) show ?thesis
    by (simp add: Finalise_def clearJournalAndRefund_def)
qed

theorem finalise_any_order_witness:
  "\<exists>t. Finalise backend0 [1, 2] True paid_db = Some t \<and> Finalise backend0 [2, 1] True paid_db = Some t"
proof -
  have ok: "\<forall>a \<in> stateObjectsDirty paid_db. final_ok backend0 True (stateObjects paid_db a)"
    unfolding paid_db_objects(2) by code_simp
  from finalise_any_order[OF paid_db_inv, of "[1, 2]" backend0 True]
    finalise_any_order[OF paid_db_inv, of "[2, 1]" backend0 True] ok
  show ?thesis by (simp add: paid_db_objects(2) insert_commute)
qed

lemma finalise_lookup:
  assumes "sdb_inv s" "distinct ord" "a \<in> set ord" "stateObjects s a = Some o1" "Finalise D ord del s = Some t"
  shows "trie t a = final_entry D del o1" "dropped D del o1 \<or> encodable (so_data o1)"
proof -
  have "so_address o2 = b" if "stateObjects s b = Some o2" for b o2
    using assms(1) that by (auto simp: sdb_inv_def)
  with finalise_loop_eq[OF assms(2), of s D del] assms(5)
  have "t = clearJournalAndRefund (finalise_on D del (set ord) s)"
    "\<forall>a \<in> set ord. final_ok D del (stateObjects s a)"
    by (auto simp: Finalise_def split: if_splits)
  with assms(3,4) show "trie t a = final_entry D del o1" "dropped D del o1 \<or> encodable (so_data o1)"
    by (force simp: clearJournalAndRefund_def finalise_on_def final_ok_def)+
qed

text \<open>C6: what \<open>Finalise\<close> wrote is what a database opened on the new trie reads: an account that was
  dropped is gone; one that was kept has the same nonce, balance, code hash, votes, assets and
  storage, provided the node store returns the storage trie for the root that was written. A nil
  lock balance comes back as zero.\<close>

theorem finalise_reopen:
  assumes inv: "sdb_inv s" and ord: "distinct ord" "a \<in> set ord" and o1: "stateObjects s a = Some o1"
    and cache: "cache_ok D o1" and fin: "Finalise D ord del s = Some t"
    and root: "OpenStorageTrie D (StorageRoot D (storage_of D o1)) = Some (storage_of D o1)"
  shows "if dropped D del o1 then fst (Exist a (New (trie t))) = False
    else fst (GetNonce a (New (trie t))) = acc_Nonce (so_data o1) \<and>
      fst (GetBalance a (New (trie t))) = acc_Balance (so_data o1) \<and>
      fst (GetCodeHash a (New (trie t))) = acc_CodeHash (so_data o1) \<and>
      fst (GetVoteList a (New (trie t))) = acc_VoteList (so_data o1) \<and>
      fst (GetAssetBalance a aid (New (trie t))) = BalanceOf (acc_AssetList (so_data o1)) aid \<and>
      fst (GetLockBalance a (New (trie t))) = Some (case acc_LockBalance (so_data o1) of None \<Rightarrow> 0 | Some v \<Rightarrow> v) \<and>
      fst (GetState D a k (New (trie t))) = storage_of D o1 k"
proof -
  note fl = finalise_lookup[OF inv ord o1 fin]
  have objs: "stateObjects (New (trie t)) = Map.empty" "trie (New (trie t)) = trie t"
    by (simp_all add: New_def)
  show ?thesis
  proof (cases "dropped D del o1")
    case True
    with fl objs show ?thesis by (simp add: final_entry_def Exist_def getStateObject_def)
  next
    case False
    let ?acc = "reencoded (so_data (updateRoot D o1))"
    from False fl have "trie t a = Stored ?acc" by (simp add: final_entry_def)
    moreover have "fst (obj_GetState D (newObject a ?acc) k) = storage_of D o1 k"
      using root by (simp add: obj_GetState_def newObject_def getTrie_def reencoded_def updateRoot_view[OF cache] Let_def)
    ultimately show ?thesis
      using False objs updateRoot_view[OF cache]
      by (auto simp: db_read_defs getStateObject_def Let_def reencoded_def split: prod.split)
  qed
qed

theorem finalise_reopen_witness:
  "\<exists>t. Finalise backend0 [1, 2] True paid_db = Some t \<and> fst (GetBalance 1 (New (trie t))) = 5"
proof -
  have "Finalise backend0 [1, 2] True paid_db \<noteq> None" by code_simp
  then obtain t where t: "Finalise backend0 [1, 2] True paid_db = Some t" by auto
  have root: "OpenStorageTrie backend0 (StorageRoot backend0 (storage_of backend0 paid_obj)) =
      Some (storage_of backend0 paid_obj)"
    by (simp add: paid_obj_cache(2)) (simp add: backend0_def)
  have "\<not> dropped backend0 True paid_obj" by code_simp
  with finalise_reopen[OF paid_db_inv _ _ paid_db_objects(1) paid_obj_cache(1) t root] t
  show ?thesis by (auto simp: paid_obj_def)
qed

text \<open>C7: the storage of an object behaves as one map. A new object is coherent; reading, writing and
  flushing the cache keep it coherent; a write changes the slot written and no other; reading and
  flushing change none; and a deep copy, which keeps the pending writes only, reads the same.\<close>

theorem storage_cache:
  assumes "cache_ok D o1"
  shows "cache_ok D (newObject a acc) \<and>
    cache_ok D (snd (obj_GetState D o1 k)) \<and> storage_of D (snd (obj_GetState D o1 k)) = storage_of D o1 \<and>
    (case stateObjects (obj_SetState D o1 k v s) (so_address o1) of
       None \<Rightarrow> False
     | Some o2 \<Rightarrow> cache_ok D o2 \<and> storage_of D o2 = (storage_of D o1)(k := v)) \<and>
    cache_ok D (updateTrie D o1) \<and> storage_of D (updateTrie D o1) = storage_of D o1 \<and>
    so_dirtyStorage (updateTrie D o1) = Map.empty \<and> so_trie (updateTrie D o1) = Some (storage_of D o1) \<and>
    cache_ok D (deepCopy o1) \<and> storage_of D (deepCopy o1) = storage_of D o1"
proof -
  obtain x o2 where g: "obj_GetState D o1 k = (x, o2)" by fastforce
  note fr = obj_GetState_frame[OF g] cache_ok_GetState[OF assms g]
  have view: "storage_of D o2 = storage_of D o1"
    using arg_cong[OF fr(4), of v_storage] by (simp add: obj_view_def)
  have dirty: "cache_ok D (o3\<lparr>so_onDirty := b\<rparr>) = cache_ok D o3"
    "storage_of D (o3\<lparr>so_onDirty := b\<rparr>) = storage_of D o3" for o3 b
    by (simp_all add: cache_ok_def base_storage_def storage_of_eq cong: option.case_cong)
  have "storage_of D (written k v o2) = (storage_of D o1)(k := v)"
    unfolding view[symmetric] by (simp add: storage_of_eq written_def storage_value_upd)
  then have "cache_ok D (written k v o2) \<and> storage_of D (written k v o2) = (storage_of D o1)(k := v)"
    using cache_ok_written[OF fr(6)] by simp
  moreover have "storage_of D (deepCopy o1) = storage_of D o1"
    using arg_cong[OF deepCopy_facts(1)[OF assms], of v_storage] by (simp add: obj_view_def)
  moreover have "stateObjects (obj_SetState D o1 k v s) (so_address o1) = Some ((written k v o2)\<lparr>so_onDirty := False\<rparr>)"
    using fr(1) by (simp add: obj_SetState_def g setState_written written_def)
  ultimately show ?thesis
    using updateTrie_facts[OF assms] deepCopy_facts(2)[OF assms] g fr(6) view
    by (simp add: cache_ok_new dirty)
qed

theorem storage_cache_witness:
  "cache_ok backend0 paid_obj \<and> storage_of backend0 (deepCopy paid_obj) = (\<lambda>_. 0) \<and>
   storage_of backend0 (updateTrie backend0 paid_obj) = (\<lambda>_. 0)"
  using storage_cache[OF paid_obj_cache(1)] paid_obj_cache by simp

lemma deepCopy_drops:
  "so_abi (deepCopy o1) = []" "so_assetData (deepCopy o1) = None" "so_data (deepCopy o1) = so_data o1" "so_address (deepCopy o1) = so_address o1"
  by (simp_all add: deepCopy_def newObject_def)

text \<open>C8: a copy of the database reads as the original on every dirty account, at the time of the copy: its account data is
  the same and so are the nonce, the balances, the code, the votes, the assets, the suicide mark and the storage. The
  ABI of a contract and the data of a published asset are not copied: the copy reads what the underlying database has
  for their hashes, whatever the original holds in memory, so that they are missing from the copy until they have been
  committed. The dirty set, the logs and the refund counter are copied, and the copy has no journal and no snapshots.\<close>

theorem copy_reads:
  assumes "Copy s = Some t" "a \<in> stateObjectsDirty s" "\<And>o1. stateObjects s a = Some o1 \<Longrightarrow> cache_ok D o1"
  shows "map_option (obj_view D) (peek t a) = map_option (obj_view D) (peek s a) \<and>
    map_option so_data (peek t a) = map_option so_data (peek s a) \<and>
    (\<forall>o1. peek s a = Some o1 \<longrightarrow>
      fst (GetAbi D a t) = (if acc_CodeHash (so_data o1) = emptyCodeHash D then []
        else case ContractAbi D (acc_CodeHash (so_data o1)) of Some abi \<Rightarrow> abi | None \<Rightarrow> []) \<and>
      (\<forall>h. acc_AssetHash (so_data o1) = Some h \<and> h \<noteq> emptyCodeHash D \<longrightarrow>
        fst (GetAssetInfo D a t) = (case StoredAssetData D h of
            None \<Rightarrow> Inl AssetDataMissing
          | Some d \<Rightarrow> (case DecodeAssetInfo D d of Some ai \<Rightarrow> Inr ai | None \<Rightarrow> Inl AssetDataCorrupt)))) \<and>
    trie t = trie s \<and> stateObjectsDirty t = stateObjectsDirty s \<and> logs t = logs s \<and> refund t = refund s \<and>
    journal t = [] \<and> validRevisions t = []"
proof -
  from assms(1) have dom: "stateObjectsDirty s \<subseteq> dom (stateObjects s)"
    and t: "t = (New (trie s))
        \<lparr>stateObjects := (\<lambda>a. if a \<in> stateObjectsDirty s then map_option deepCopy (stateObjects s a) else None),
         stateObjectsDirty := stateObjectsDirty s, refund := refund s, logs := logs s,
         logSize := logSize s, preimages := preimages s\<rparr>"
    by (auto simp: Copy_def split: if_splits)
  from dom assms(2) obtain o1 where o1: "stateObjects s a = Some o1" by blast
  have obj: "stateObjects t a = Some (deepCopy o1)" using o1 assms(2) by (simp add: t)
  note f = deepCopy_facts[OF assms(3)[OF o1]]
  have lost: "fst (GetAbi D a t) = (if acc_CodeHash (so_data o1) = emptyCodeHash D then []
        else case ContractAbi D (acc_CodeHash (so_data o1)) of Some abi \<Rightarrow> abi | None \<Rightarrow> [])"
      "acc_AssetHash (so_data o1) = Some h \<Longrightarrow> h \<noteq> emptyCodeHash D \<Longrightarrow>
        fst (GetAssetInfo D a t) = (case StoredAssetData D h of
            None \<Rightarrow> Inl AssetDataMissing
          | Some d \<Rightarrow> (case DecodeAssetInfo D d of Some ai \<Rightarrow> Inr ai | None \<Rightarrow> Inl AssetDataCorrupt))"
    if "\<not> so_deleted o1" for h
    using that f(3) by (simp_all add: obj GetAbi_def GetAssetInfo_def GetOrNewStateObject_def getStateObject_def obj_Abi_def
        obj_AssetData_def IsAssetAccount_def deepCopy_drops split: option.split)
  have "peek s a = Some o2 \<Longrightarrow> o2 = o1 \<and> \<not> so_deleted o1" for o2 using o1 by (auto simp: peek_eq split: if_splits)
  then have live: "(\<forall>o2. peek s a = Some o2 \<longrightarrow> P o2) \<longleftrightarrow> (\<not> so_deleted o1 \<longrightarrow> P o1)" for P using o1 by (auto simp: peek_eq)
  have "map_option (obj_view D) (peek t a) = map_option (obj_view D) (peek s a)" "map_option so_data (peek t a) = map_option so_data (peek s a)"
    using o1 obj f by (simp_all add: peek_eq deepCopy_drops)
  then show ?thesis using lost unfolding live by (simp add: t New_def)
qed

definition abi_db :: StateDB where
  "abi_db = SetAbi backend0 9 ''f'' (SetCode backend0 9 [1, 2] empty_db)"

definition abi_obj :: stateObject where
  "abi_obj = (newObject 9 ((zeroAccount backend0)\<lparr>acc_CodeHash := 2\<rparr>))\<lparr>so_code := Some [1, 2], so_abi := ''f'', so_dirtyCode := True, so_onDirty := False\<rparr>"

lemma abi_db_objects: "stateObjects abi_db 9 = Some abi_obj" "stateObjectsDirty abi_db = {9}"
  by (simp_all add: abi_db_def abi_obj_def SetAbi_def SetCode_def GetOrNewStateObject_def getStateObject_def createObject_def empty_db_def New_def
      obj_SetCode_def setter_defs obj_Code_def newObject_def zeroAccount_def emptyCodeHash_def backend0_def Let_def tryMarkDirty_def
      setStateObject_def MarkStateObjectDirty_def append_journal_def setNonce_def setError_def)

theorem copy_reads_witness:
  "\<exists>t. Copy abi_db = Some t \<and> map_option (obj_view backend0) (peek t 9) = map_option (obj_view backend0) (peek abi_db 9) \<and>
     peek abi_db 9 = Some abi_obj \<and> fst (GetAbi backend0 9 abi_db) = ''f'' \<and> fst (GetAbi backend0 9 t) = []"
proof -
  have "stateObjectsDirty abi_db \<subseteq> dom (stateObjects abi_db)" using abi_db_objects by (auto simp: dom_def)
  then obtain t where t: "Copy abi_db = Some t" by (simp add: Copy_def)
  have p: "peek abi_db 9 = Some abi_obj" using abi_db_objects(1) by (simp add: peek_eq abi_obj_def)
  have ok: "cache_ok backend0 abi_obj" by (simp add: cache_ok_def abi_obj_def newObject_def)
  have "fst (GetAbi backend0 9 abi_db) = ''f''" by code_simp
  with copy_reads[OF t, of 9 backend0] t p ok abi_db_objects show ?thesis by (auto simp: backend0_def)
qed

section \<open>Limits of the journal\<close>

text \<open>C9: an update that is lost. Undoing the touch of an empty account removes it from the set of
  dirty objects although its callback for marking it dirty has been used up. A later payment in the
  same block is visible in memory, but the account is not written back.\<close>

theorem touch_undo_loses_update:
  assumes "tr a = Stored acc" "empty_obj D (newObject a acc)" "a \<noteq> ripemd" "v \<noteq> 0"
  shows "\<exists>u. RevertToSnapshot 0 True (AddBalance D a 0 (snd (Snapshot (New tr)))) = Some u \<and>
    fst (GetBalance a (AddBalance D a v u)) = v \<and>
    stateObjectsDirty (AddBalance D a v u) = {} \<and>
    map_option trie (Finalise D [] del (AddBalance D a v u)) = Some tr"
proof -
  have bal: "acc_Balance acc = 0" using assms(2) by (simp add: empty_obj_def)
  define o1 where "o1 = (newObject a acc)\<lparr>so_touched := True\<rparr>"
  have "AddBalance D a 0 (snd (Snapshot (New tr))) =
      tryMarkDirty o1 (append_journal (touchChange a False False)
        (setStateObject (newObject a acc) (snd (Snapshot (New tr)))))"
    using assms by (simp add: AddBalance_def GetOrNewStateObject_def getStateObject_def obj_AddBalance_def
        touch_def Snapshot_def New_def o1_def newObject_def Let_def)
  then have u: "RevertToSnapshot 0 True (AddBalance D a 0 (snd (Snapshot (New tr)))) =
      Some ((New tr)\<lparr>stateObjects := [a \<mapsto> o1\<lparr>so_onDirty := False, so_touched := False\<rparr>], nextRevisionId := 1\<rparr>)"
    using assms(3)
    by (simp add: RevertToSnapshot_def Snapshot_def New_def sort_Search_def search_loop.simps undo_at_def
        with_object_def getStateObject_def Let_def setStateObject_def append_journal_def tryMarkDirty_def
        MarkStateObjectDirty_def o1_def newObject_def)
  show ?thesis
    unfolding u using assms(4) bal
    by (simp add: AddBalance_def GetOrNewStateObject_def getStateObject_def obj_AddBalance_def obj_SetBalance_def
        setBalance_def tryMarkDirty_def setStateObject_def append_journal_def New_def o1_def newObject_def
        GetBalance_def Finalise_def clearJournalAndRefund_def)
qed

theorem touch_undo_loses_update_witness:
  "\<exists>u. RevertToSnapshot 0 True (AddBalance backend0 9 0
      (snd (Snapshot (New ((\<lambda>_. NotFound None)(9 := Stored (zeroAccount backend0))))))) = Some u \<and>
    fst (GetBalance 9 (AddBalance backend0 9 4 u)) = 4 \<and> stateObjectsDirty (AddBalance backend0 9 4 u) = {}"
proof -
  have "empty_obj backend0 (newObject 9 (zeroAccount backend0))" by code_simp
  moreover have "(9 :: address) \<noteq> ripemd" by code_simp
  ultimately show ?thesis
    using touch_undo_loses_update[of "(\<lambda>_. NotFound None)(9 := Stored (zeroAccount backend0))" 9
        "zeroAccount backend0" backend0 4] by auto
qed

text \<open>C10: the lock balance of an account that was created in memory is a nil pointer, so changing it
  before the account has been through the trie panics.\<close>

theorem new_account_lock_balance_panics:
  assumes "fst (Exist a s) = False" "v \<noteq> 0" "sdb_inv s"
  shows "AddLockBalance D a v (CreateAccount D a s) = None \<and> SubLockBalance D a v (CreateAccount D a s) = None \<and>
    SetLockBalance D a v (CreateAccount D a s) = None \<and> AddLockBalance D a v s = None"
proof -
  obtain r s0 where g: "getStateObject a s = (r, s0)" by fastforce
  with assms(1) have r: "r = None" by (simp add: Exist_def)
  note inv0 = getStateObject_inv[OF g assms(3)]
  have create: "createObject D a t = (o1, p, t1) \<Longrightarrow> sdb_inv t \<Longrightarrow>
      getStateObject a t1 = (Some o1, t1) \<and> acc_LockBalance (so_data o1) = None" for t o1 p t1
    using createObject_facts[of t D a o1 p t1]
    by (auto simp: live_def getStateObject_def zeroAccount_def)
  obtain o1 p s1 where c: "createObject D a s = (o1, p, s1)" by (cases "createObject D a s")
  with g r have "CreateAccount D a s = s1"
    by (auto simp: CreateAccount_def createObject_def Let_def)
  moreover obtain o2 p2 s2 where c0: "createObject D a s0 = (o2, p2, s2)" by (cases "createObject D a s0")
  ultimately show ?thesis
    using create[OF c assms(3)] create[OF c0 inv0] g r assms(2)
    by (simp add: AddLockBalance_def SubLockBalance_def SetLockBalance_def GetOrNewStateObject_def
        obj_AddLockBalance_def obj_SubLockBalance_def obj_SetLockBalance_def)
qed

theorem new_account_lock_balance_panics_witness:
  "AddLockBalance backend0 1 3 (CreateAccount backend0 1 empty_db) = None"
proof -
  have "fst (Exist 1 empty_db) = False" by code_simp
  from new_account_lock_balance_panics[OF this, of 3] show ?thesis by simp
qed

section \<open>Publishing an asset\<close>

lemma createObject_objects:
  assumes "createObject D b s = (o1, p, s1)"
  shows "stateObjects s1 b = Some o1"
    "a \<noteq> b \<Longrightarrow> stateObjects s a = Some o2 \<Longrightarrow> stateObjects s1 a = Some o2"
  using assms
  by (auto simp: createObject_def Let_def getStateObject_def setNonce_def newObject_def
      zeroAccount_def split: prod.splits option.splits trie_entry.splits)

lemma read_object:
  assumes "stateObjects s a = Some o1" "\<not> so_deleted o1"
  shows "getStateObject a s = (Some o1, s)" "GetOrNewStateObject D a s = (o1, s)"
  using assms by (simp_all add: getStateObject_def GetOrNewStateObject_def)

text \<open>The object of an issuer that exists or not, as \<open>PublishAsset\<close> finds it.\<close>

lemma GetOrNew_reads:
  assumes "sdb_inv s" "GetOrNewStateObject D a s = (o1, s1)"
  shows "fst (GetBalance a s) = acc_Balance (so_data o1)" "fst (GetNonce a s) = acc_Nonce (so_data o1)"
    "fst (GetAssetBalance a aid s) = BalanceOf (acc_AssetList (so_data o1)) aid"
proof -
  have *: "acc_Balance (so_data o1) = 0 \<and> acc_Nonce (so_data o1) = 0 \<and> BalanceOf (acc_AssetList (so_data o1)) aid = 0"
    if "createObject D a s0 = (o1, p, t)" "sdb_inv s0" for p s0 t
    using createObject_facts[OF that(2,1)]
    by (simp add: zeroAccount_def NewAssets_def BalanceOf_def indexOf_def)
  show "fst (GetBalance a s) = acc_Balance (so_data o1)" "fst (GetNonce a s) = acc_Nonce (so_data o1)"
    "fst (GetAssetBalance a aid s) = BalanceOf (acc_AssetList (so_data o1)) aid"
    using assms * getStateObject_inv[of a s]
    by (auto simp: GetOrNewStateObject_def GetBalance_def GetNonce_def GetAssetBalance_def
        split: prod.splits option.splits)
qed

text \<open>C11: publishing an asset. The issuer's nonce grows by one (modulo 2 ^ 64), the supply is
  credited to the issuer under the new address, and the asset's description can be read back there.
  The account at that address is created afresh: a balance it held before is gone, unlike in
  \<open>CreateAccount\<close>, which carries it over.\<close>

theorem publish_asset:
  assumes inv: "sdb_inv s" and valid: "IsAssetInfoValid (Some (ai\<lparr>Issuer := Some a\<rparr>)) = None"
    and enc: "EncodeAssetInfo D (ai\<lparr>Issuer := Some a\<rparr>) = Some d"
    and dec: "DecodeAssetInfo D d = Some (ai\<lparr>Issuer := Some a\<rparr>)"
    and hash: "keccak256 D d \<noteq> emptyCodeHash D" and sup: "Supply ai = Some v" "0 \<le> v"
    and aid: "aid = CreateAddress D a (fst (GetNonce a s))" "aid \<noteq> a"
    and pub: "PublishAsset D a ai s = (e, t)"
  shows "e = None \<and> fst (GetNonce a t) = fst (GetNonce a s) + 1 \<and>
    fst (GetBalance a t) = fst (GetBalance a s) \<and>
    fst (GetAssetBalance a aid t) = fst (GetAssetBalance a aid s) + v \<and>
    fst (GetAssetInfo D aid t) = Inr (ai\<lparr>Issuer := Some a\<rparr>) \<and> fst (GetBalance aid t) = 0"
proof -
  obtain o1 s1 where g: "GetOrNewStateObject D a s = (o1, s1)" by fastforce
  note reads = GetOrNew_reads[OF inv g] and s1 = reverts_GetOrNew[OF inv g]
  have o1: "\<not> so_deleted o1" "assets_ok (acc_AssetList (so_data o1))"
    using s1 live_ok[OF s1(2,4)] by (simp_all add: live_def obj_ok_def)
  define o2 where "o2 = o1\<lparr>so_data := (so_data o1)\<lparr>acc_Nonce := acc_Nonce (so_data o1) + 1\<rparr>, so_onDirty := False\<rparr>"
  define s2 where "s2 = obj_SetNonce o1 (acc_Nonce (so_data o1) + 1) s1"
  have s2: "stateObjects s2 a = Some o2" "sdb_inv s2"
    using s1 reverts_inv[OF reverts_setters(2)[OF s1(4,2)]]
    by (auto simp: s2_def o2_def obj_SetNonce_def setNonce_def)
  obtain n p s3 where c: "createObject D aid s2 = (n, p, s3)" by (cases "createObject D aid s2")
  note cf = createObject_facts[OF s2(2) c] createObject_objects[OF c]
  have s3: "stateObjects s3 a = Some o2" "stateObjects s3 aid = Some n"
    using cf(9,10) s2(1) aid(2) by auto
  define n2 where "n2 = n\<lparr>so_assetData := Some d, so_data := (so_data n)\<lparr>acc_AssetHash := Some (keccak256 D d)\<rparr>,
      so_dirtyAssetData := True\<rparr>"
  define s4 where "s4 = tryMarkDirty n2 s3"
  have sad: "SetAssetData n (keccak256 D d) d s3 = Some (n2\<lparr>so_onDirty := False\<rparr>, s4)"
    using cf(7) by (simp add: SetAssetData_def Let_def n2_def s4_def)
  have s4: "stateObjects s4 a = Some o2" "stateObjects s4 aid = Some (n2\<lparr>so_onDirty := False\<rparr>)"
    using s3 cf(2) aid(2) by (simp_all add: s4_def n2_def)
  have t: "e = None" "t = obj_AddAssetBalance o2 aid v s4"
    using pub valid enc g c sad s4 sup reads(2) aid(1)
    by (simp_all add: PublishAsset_def Let_def s2_def[symmetric])
  let ?o3 = "o2\<lparr>so_data := (so_data o2)\<lparr>acc_AssetList :=
      AddAsset (acc_AssetList (so_data o2)) \<lparr>ID = aid, Balance = v\<rparr>\<rparr>, so_onDirty := False\<rparr>"
  have objs: "stateObjects t a = Some ?o3" "stateObjects t aid = Some (n2\<lparr>so_onDirty := False\<rparr>)"
    using s4 s1(3) aid(2) by (auto simp: t obj_AddAssetBalance_def Let_def o2_def)
  have del: "\<not> so_deleted ?o3" "\<not> so_deleted (n2\<lparr>so_onDirty := False\<rparr>)"
    using o1 cf(1) by (simp_all add: o2_def n2_def live_def)
  note ra = read_object[OF objs(1) del(1)] and rn = read_object[OF objs(2) del(2)]
  have "fst (GetNonce a t) = fst (GetNonce a s) + 1" "fst (GetBalance a t) = fst (GetBalance a s)"
    "fst (GetAssetBalance a aid t) = fst (GetAssetBalance a aid s) + v"
    using o1(2) by (simp_all add: GetNonce_def GetBalance_def GetAssetBalance_def ra reads[unfolded GetNonce_def GetBalance_def GetAssetBalance_def] o2_def al.bal_add)
  moreover have "fst (GetBalance aid t) = 0"
    using cf(5) by (simp add: GetBalance_def rn n2_def zeroAccount_def)
  moreover have "fst (GetAssetInfo D aid t) = Inr (ai\<lparr>Issuer := Some a\<rparr>)"
    using hash dec by (simp add: GetAssetInfo_def rn n2_def IsAssetAccount_def obj_AssetData_def)
  ultimately show ?thesis using t(1) by simp
qed

text \<open>The example publishes an asset whose address already holds a balance of 5.\<close>

definition ai0 :: AssetInfo where
  "ai0 = \<lparr>Issuer = None, Name = ''Gold'', Symbol = ''GLD'', Supply = Some 100, Desc = []\<rparr>"

definition publish_backend :: backend where
  "publish_backend = backend0\<lparr>keccak256 := (\<lambda>bs. of_nat (length bs)), EncodeAssetInfo := (\<lambda>_. Some [1]),
     DecodeAssetInfo := (\<lambda>_. Some (ai0\<lparr>Issuer := Some 4\<rparr>)), CreateAddress := (\<lambda>a n. 1)\<rparr>"

theorem publish_asset_witness:
  "fst (GetBalance 1 paid_db) = 5 \<and>
   fst (GetBalance 1 (snd (PublishAsset publish_backend 4 ai0 paid_db))) = 0 \<and>
   fst (GetAssetBalance 4 1 (snd (PublishAsset publish_backend 4 ai0 paid_db))) = 100"
proof -
  have "IsAssetInfoValid (Some (ai0\<lparr>Issuer := Some 4\<rparr>)) = None" by code_simp
  moreover have "keccak256 publish_backend [1] \<noteq> emptyCodeHash publish_backend" by code_simp
  moreover have "fst (GetAssetBalance 4 1 paid_db) = 0" "fst (GetBalance 1 paid_db) = 5" by code_simp+
  moreover obtain e t where "PublishAsset publish_backend 4 ai0 paid_db = (e, t)" by fastforce
  ultimately show ?thesis
    using publish_asset[OF paid_db_inv, where ai = ai0 and a = 4 and D = publish_backend and d = "[1]" and v = 100
        and aid = 1 and e = e and t = t]
    by (simp add: publish_backend_def ai0_def)
qed

end
