(* ===== verification/Delegate_DB.thy ===== *)
theory Delegate_DB
  imports State_DB
begin

text \<open>
  The delegates of the chain and their votes: \<open>consensus/delegatestate/delegate_object.go\<close>,
  \<open>delegatedb.go\<close> and \<open>journal.go\<close>. The database has the shape of the account state (live objects
  above a trie, a journal, a stack of snapshots), but a cancelled delegate stays in the trie with
  its \<open>Delete\<close> flag set, and most changes of votes are not journaled.
\<close>

section \<open>Data\<close>

record Delegate =
  dl_Root :: hash
  dl_Vote :: int
  dl_Nickname :: string
  dl_RegisterTime :: uint64
  dl_Delete :: bool

record delegateObject =
  dob_address :: address
  dob_data :: Delegate
  dob_dbErr :: "db_error option"
  dob_trie :: "(hash \<Rightarrow> hash) option"
  dob_cachedStorage :: "hash \<rightharpoonup> hash"
  dob_dirtyStorage :: "hash \<rightharpoonup> hash"
  dob_touched :: bool
  dob_deleted :: bool
  dob_suicided :: bool
  dob_onDirty :: bool

datatype d_journalEntry =
    d_createObjectChange address
  | d_resetObjectChange delegateObject
  | d_addLogChange hash
  | d_storageChange address hash hash
  | d_voteChange address int
  | d_touchChange address bool bool
  | d_suicideChange address bool int

datatype d_entry = DNotFound "db_error option" | DUndecodable | DStored Delegate

record DelegateDB =
  d_trie :: "address \<Rightarrow> d_entry"
  delegateObjects :: "address \<rightharpoonup> delegateObject"
  delegateObjectsDirty :: "address set"
  d_dbErr :: "db_error option"
  d_thash :: hash
  d_bhash :: hash
  d_txIndex :: uint64
  d_logs :: "hash \<rightharpoonup> Log list"
  d_logSize :: uint64
  d_journal :: "d_journalEntry list"
  d_validRevisions :: "(nat \<times> nat) list"
  d_nextRevisionId :: nat

section \<open>Delegate objects\<close>

definition d_MarkStateObjectDirty :: "address \<Rightarrow> DelegateDB \<Rightarrow> DelegateDB" where
  "d_MarkStateObjectDirty a s = s\<lparr>delegateObjectsDirty := insert a (delegateObjectsDirty s)\<rparr>"

definition d_setStateObject :: "delegateObject \<Rightarrow> DelegateDB \<Rightarrow> DelegateDB" where
  "d_setStateObject o1 s = s\<lparr>delegateObjects := (delegateObjects s)(dob_address o1 \<mapsto> o1)\<rparr>"

definition d_append_journal :: "d_journalEntry \<Rightarrow> DelegateDB \<Rightarrow> DelegateDB" where
  "d_append_journal e s = s\<lparr>d_journal := d_journal s @ [e]\<rparr>"

text \<open>The object is marked dirty as soon as it is made, before it is filed in the map.\<close>

definition d_newObject :: "address \<Rightarrow> Delegate \<Rightarrow> DelegateDB \<Rightarrow> delegateObject \<times> DelegateDB" where
  "d_newObject a d s =
     (\<lparr>dob_address = a, dob_data = d, dob_dbErr = None, dob_trie = None, dob_cachedStorage = Map.empty,
       dob_dirtyStorage = Map.empty, dob_touched = False, dob_deleted = False, dob_suicided = False,
       dob_onDirty = False\<rparr>,
      d_MarkStateObjectDirty a s)"

definition d_tryMarkDirty :: "delegateObject \<Rightarrow> DelegateDB \<Rightarrow> DelegateDB" where
  "d_tryMarkDirty o1 s =
     (if dob_onDirty o1
      then d_setStateObject (o1\<lparr>dob_onDirty := False\<rparr>) (d_MarkStateObjectDirty (dob_address o1) s)
      else d_setStateObject o1 s)"

definition d_empty :: "delegateObject \<Rightarrow> bool" where
  "d_empty o1 = False"

definition d_touch :: "delegateObject \<Rightarrow> DelegateDB \<Rightarrow> DelegateDB" where
  "d_touch o1 s =
     d_tryMarkDirty (o1\<lparr>dob_touched := True\<rparr>)
       (d_append_journal (d_touchChange (dob_address o1) (dob_touched o1) (\<not> dob_onDirty o1)) s)"

definition setVote :: "delegateObject \<Rightarrow> int \<Rightarrow> DelegateDB \<Rightarrow> DelegateDB" where
  "setVote o1 v s = d_tryMarkDirty (o1\<lparr>dob_data := (dob_data o1)\<lparr>dl_Vote := v\<rparr>\<rparr>) s"

definition dob_SetVote :: "delegateObject \<Rightarrow> int \<Rightarrow> DelegateDB \<Rightarrow> DelegateDB" where
  "dob_SetVote o1 v s =
     setVote o1 v (d_append_journal (d_voteChange (dob_address o1) (dl_Vote (dob_data o1))) s)"

definition dob_SubVote :: "delegateObject \<Rightarrow> int \<Rightarrow> DelegateDB \<Rightarrow> DelegateDB" where
  "dob_SubVote o1 amount s =
     (if amount = 0 then s
      else let result = dl_Vote (dob_data o1) - amount in
           if result < 0 then setVote o1 0 s else setVote o1 result s)"

definition dob_AddVote :: "delegateObject \<Rightarrow> int \<Rightarrow> DelegateDB \<Rightarrow> DelegateDB" where
  "dob_AddVote o1 amount s =
     (if amount = 0 then (if d_empty o1 then d_touch o1 s else s)
      else setVote o1 (dl_Vote (dob_data o1) + amount) s)"

definition d_getTrie :: "backend \<Rightarrow> delegateObject \<Rightarrow> (hash \<Rightarrow> hash) \<times> delegateObject" where
  "d_getTrie D o1 =
     (case dob_trie o1 of
        Some t \<Rightarrow> (t, o1)
      | None \<Rightarrow>
          (case OpenStorageTrie D (dl_Root (dob_data o1)) of
             Some t \<Rightarrow> (t, o1\<lparr>dob_trie := Some t\<rparr>)
           | None \<Rightarrow> ((\<lambda>_. 0), o1\<lparr>dob_trie := Some (\<lambda>_. 0),
               dob_dbErr := (case dob_dbErr o1 of None \<Rightarrow> Some CannotOpenStorage | Some e \<Rightarrow> Some e)\<rparr>)))"

definition dob_GetState :: "backend \<Rightarrow> delegateObject \<Rightarrow> hash \<Rightarrow> hash \<times> delegateObject" where
  "dob_GetState D o1 key =
     (case dob_cachedStorage o1 key of
        Some v \<Rightarrow> (v, o1)
      | None \<Rightarrow>
          (let (t, o2) = d_getTrie D o1; v = t key in
           (v, if v \<noteq> 0 then o2\<lparr>dob_cachedStorage := (dob_cachedStorage o2)(key \<mapsto> v)\<rparr> else o2)))"

definition d_setState :: "delegateObject \<Rightarrow> hash \<Rightarrow> hash \<Rightarrow> DelegateDB \<Rightarrow> DelegateDB" where
  "d_setState o1 key v s =
     d_tryMarkDirty (o1\<lparr>dob_cachedStorage := (dob_cachedStorage o1)(key \<mapsto> v),
                        dob_dirtyStorage := (dob_dirtyStorage o1)(key \<mapsto> v)\<rparr>) s"

definition dob_SetState :: "backend \<Rightarrow> delegateObject \<Rightarrow> hash \<Rightarrow> hash \<Rightarrow> DelegateDB \<Rightarrow> DelegateDB" where
  "dob_SetState D o1 key v s =
     (let (prev, o2) = dob_GetState D o1 key in
      d_setState o2 key v (d_append_journal (d_storageChange (dob_address o1) key prev) s))"

definition d_updateTrie :: "backend \<Rightarrow> delegateObject \<Rightarrow> delegateObject" where
  "d_updateTrie D o1 =
     (let (t, o2) = d_getTrie D o1 in
      o2\<lparr>dob_trie := Some (\<lambda>k. case dob_dirtyStorage o2 k of Some v \<Rightarrow> v | None \<Rightarrow> t k),
         dob_dirtyStorage := Map.empty\<rparr>)"

definition d_updateRoot :: "backend \<Rightarrow> delegateObject \<Rightarrow> delegateObject" where
  "d_updateRoot D o1 =
     (let o2 = d_updateTrie D o1 in
      case dob_trie o2 of
        Some t \<Rightarrow> o2\<lparr>dob_data := (dob_data o2)\<lparr>dl_Root := StorageRoot D t\<rparr>\<rparr>
      | None \<Rightarrow> o2)"

text \<open>A copy is made by \<open>newObject\<close> and so is dirty in the copy; it does not keep \<open>suicided\<close>.\<close>

definition d_deepCopy :: "delegateObject \<Rightarrow> delegateObject" where
  "d_deepCopy o1 =
     \<lparr>dob_address = dob_address o1, dob_data = dob_data o1, dob_dbErr = None, dob_trie = dob_trie o1,
      dob_cachedStorage = dob_dirtyStorage o1, dob_dirtyStorage = dob_dirtyStorage o1, dob_touched = False,
      dob_deleted = dob_deleted o1, dob_suicided = False, dob_onDirty = False\<rparr>"

section \<open>The database\<close>

definition d_setError :: "db_error option \<Rightarrow> DelegateDB \<Rightarrow> DelegateDB" where
  "d_setError e s = (if d_dbErr s = None then s\<lparr>d_dbErr := e\<rparr> else s)"

text \<open>The lookup that skips cancelled delegates, but only when the object is in memory already.\<close>

definition d_GetStateObject :: "address \<Rightarrow> DelegateDB \<Rightarrow> delegateObject option \<times> DelegateDB" where
  "d_GetStateObject a s =
     (case delegateObjects s a of
        Some o1 \<Rightarrow> (if dob_deleted o1 \<or> dl_Delete (dob_data o1) then None else Some o1, s)
      | None \<Rightarrow>
          (case d_trie s a of
             DNotFound e \<Rightarrow> (None, d_setError e s)
           | DUndecodable \<Rightarrow> (None, s)
           | DStored d \<Rightarrow> (case d_newObject a d s of (o1, s1) \<Rightarrow> (Some o1, d_setStateObject o1 s1))))"

definition getStateObjectContainDelete :: "address \<Rightarrow> DelegateDB \<Rightarrow> delegateObject option \<times> DelegateDB" where
  "getStateObjectContainDelete a s =
     (case delegateObjects s a of
        Some o1 \<Rightarrow> (Some o1, s)
      | None \<Rightarrow>
          (case d_trie s a of
             DNotFound e \<Rightarrow> (None, d_setError e s)
           | DUndecodable \<Rightarrow> (None, s)
           | DStored d \<Rightarrow> (case d_newObject a d s of (o1, s1) \<Rightarrow> (Some o1, d_setStateObject o1 s1))))"

text \<open>Opening a database loads every delegate; the keys come from an iterator over the trie.\<close>

fun loadDelegateToCache :: "address list \<Rightarrow> DelegateDB \<Rightarrow> DelegateDB" where
  "loadDelegateToCache [] s = s"
| "loadDelegateToCache (a # as) s = loadDelegateToCache as (snd (d_GetStateObject a s))"

definition d_New :: "address list \<Rightarrow> (address \<Rightarrow> d_entry) \<Rightarrow> DelegateDB" where
  "d_New keys tr =
     loadDelegateToCache keys
       \<lparr>d_trie = tr, delegateObjects = Map.empty, delegateObjectsDirty = {}, d_dbErr = None, d_thash = 0,
        d_bhash = 0, d_txIndex = 0, d_logs = Map.empty, d_logSize = 0, d_journal = [],
        d_validRevisions = [], d_nextRevisionId = 0\<rparr>"

definition clearJournal :: "DelegateDB \<Rightarrow> DelegateDB" where
  "clearJournal s = s\<lparr>d_journal := [], d_validRevisions := []\<rparr>"

definition d_Reset :: "(address \<Rightarrow> d_entry) \<Rightarrow> DelegateDB \<Rightarrow> DelegateDB" where
  "d_Reset tr s =
     clearJournal
       (s\<lparr>d_trie := tr, delegateObjects := Map.empty, delegateObjectsDirty := {}, d_thash := 0, d_bhash := 0,
          d_txIndex := 0, d_logs := Map.empty, d_logSize := 0\<rparr>)"

definition d_Prepare :: "hash \<Rightarrow> hash \<Rightarrow> uint64 \<Rightarrow> DelegateDB \<Rightarrow> DelegateDB" where
  "d_Prepare th bh ti s = s\<lparr>d_thash := th, d_bhash := bh, d_txIndex := ti\<rparr>"

definition d_AddLog :: "Log \<Rightarrow> DelegateDB \<Rightarrow> DelegateDB" where
  "d_AddLog l s =
     (let s1 = d_append_journal (d_addLogChange (d_thash s)) s;
          l1 = l\<lparr>log_TxHash := d_thash s, log_BlockHash := d_bhash s, log_TxIndex := d_txIndex s,
                 log_Index := d_logSize s\<rparr>;
          old = (case d_logs s (d_thash s) of None \<Rightarrow> [] | Some ls \<Rightarrow> ls) in
      s1\<lparr>d_logs := (d_logs s)(d_thash s \<mapsto> old @ [l1]), d_logSize := d_logSize s + 1\<rparr>)"

definition d_Exist :: "address \<Rightarrow> DelegateDB \<Rightarrow> bool \<times> DelegateDB" where
  "d_Exist a s = (case d_GetStateObject a s of (o1, s1) \<Rightarrow> (o1 \<noteq> None, s1))"

definition SubExist :: "address \<Rightarrow> DelegateDB \<Rightarrow> bool \<times> DelegateDB" where
  "SubExist a s = (case getStateObjectContainDelete a s of (o1, s1) \<Rightarrow> (o1 \<noteq> None, s1))"

definition GetVote :: "address \<Rightarrow> DelegateDB \<Rightarrow> int \<times> DelegateDB" where
  "GetVote a s =
     (case getStateObjectContainDelete a s of
        (Some o1, s1) \<Rightarrow> (dl_Vote (dob_data o1), s1) | (None, s1) \<Rightarrow> (0, s1))"

text \<open>The three setters call \<open>tryMarkDirty\<close> on the object once more.\<close>

definition remark :: "address \<Rightarrow> DelegateDB \<Rightarrow> DelegateDB" where
  "remark a s = (case delegateObjects s a of None \<Rightarrow> s | Some o1 \<Rightarrow> d_tryMarkDirty o1 s)"

definition d_AddVote :: "address \<Rightarrow> int \<Rightarrow> DelegateDB \<Rightarrow> DelegateDB" where
  "d_AddVote a amount s =
     (case d_GetStateObject a s of
        (Some o1, s1) \<Rightarrow> remark a (dob_AddVote o1 amount s1) | (None, s1) \<Rightarrow> s1)"

definition d_SubVote :: "address \<Rightarrow> int \<Rightarrow> DelegateDB \<Rightarrow> DelegateDB" where
  "d_SubVote a amount s =
     (case getStateObjectContainDelete a s of
        (Some o1, s1) \<Rightarrow> remark a (dob_SubVote o1 amount s1) | (None, s1) \<Rightarrow> s1)"

definition d_SetVote :: "address \<Rightarrow> int \<Rightarrow> DelegateDB \<Rightarrow> DelegateDB" where
  "d_SetVote a amount s =
     (case d_GetStateObject a s of
        (Some o1, s1) \<Rightarrow> remark a (setVote o1 amount s1) | (None, s1) \<Rightarrow> s1)"

definition d_GetState :: "backend \<Rightarrow> address \<Rightarrow> hash \<Rightarrow> DelegateDB \<Rightarrow> hash \<times> DelegateDB" where
  "d_GetState D a key s =
     (case d_GetStateObject a s of
        (Some o1, s1) \<Rightarrow> (case dob_GetState D o1 key of (v, o2) \<Rightarrow> (v, d_setStateObject o2 s1))
      | (None, s1) \<Rightarrow> (0, s1))"

definition d_SetState :: "backend \<Rightarrow> address \<Rightarrow> hash \<Rightarrow> hash \<Rightarrow> DelegateDB \<Rightarrow> DelegateDB" where
  "d_SetState D a key v s =
     (case d_GetStateObject a s of
        (Some o1, s1) \<Rightarrow> dob_SetState D o1 key v s1 | (None, s1) \<Rightarrow> s1)"

text \<open>Cancelling a delegate sets the flag; the vote count is kept for a later registration.\<close>

definition d_Suicide :: "address \<Rightarrow> DelegateDB \<Rightarrow> bool \<times> DelegateDB" where
  "d_Suicide a s =
     (case d_GetStateObject a s of
        (None, s1) \<Rightarrow> (False, s1)
      | (Some o1, s1) \<Rightarrow>
          (True, d_tryMarkDirty (o1\<lparr>dob_data := (dob_data o1)\<lparr>dl_Delete := True\<rparr>\<rparr>)
             (d_append_journal (d_suicideChange a (dob_suicided o1) (dl_Vote (dob_data o1))) s1)))"

definition d_HasSuicided :: "address \<Rightarrow> DelegateDB \<Rightarrow> bool \<times> DelegateDB" where
  "d_HasSuicided a s =
     (case d_GetStateObject a s of
        (Some o1, s1) \<Rightarrow> (dl_Delete (dob_data o1), s1) | (None, s1) \<Rightarrow> (False, s1))"

definition d_createObject ::
  "address \<Rightarrow> string \<Rightarrow> uint64 \<Rightarrow> DelegateDB \<Rightarrow> delegateObject \<times> delegateObject option \<times> DelegateDB" where
  "d_createObject a nickname registerTime s =
     (let (prev, s1) = d_GetStateObject a s;
          (newobj, s2) = d_newObject a \<lparr>dl_Root = 0, dl_Vote = 0, dl_Nickname = nickname,
                            dl_RegisterTime = registerTime, dl_Delete = False\<rparr> s1;
          s3 = d_append_journal
                 (case prev of None \<Rightarrow> d_createObjectChange a | Some p \<Rightarrow> d_resetObjectChange p) s2
      in (newobj, prev, d_setStateObject newobj s3))"

text \<open>Registering a delegate: a cancelled one is created again with the votes it had.\<close>

definition d_GetOrNewStateObject :: "address \<Rightarrow> string \<Rightarrow> uint64 \<Rightarrow> DelegateDB \<Rightarrow> DelegateDB" where
  "d_GetOrNewStateObject a nickname registerTime s =
     (case getStateObjectContainDelete a s of
        (None, s1) \<Rightarrow> (case d_createObject a nickname registerTime s1 of (_, _, s2) \<Rightarrow> s2)
      | (Some o1, s1) \<Rightarrow>
          if dl_Delete (dob_data o1) then
            (case d_createObject a nickname registerTime s1 of
               (_, _, s2) \<Rightarrow> d_AddVote a (dl_Vote (dob_data o1)) s2)
          else s1)"

definition d_Copy :: "DelegateDB \<Rightarrow> DelegateDB option" where
  "d_Copy s =
     (if delegateObjectsDirty s \<subseteq> dom (delegateObjects s)
      then Some \<lparr>d_trie = d_trie s,
        delegateObjects = (\<lambda>a. if a \<in> delegateObjectsDirty s then map_option d_deepCopy (delegateObjects s a) else None),
        delegateObjectsDirty = delegateObjectsDirty s, d_dbErr = None, d_thash = 0, d_bhash = 0, d_txIndex = 0,
        d_logs = d_logs s, d_logSize = d_logSize s, d_journal = [], d_validRevisions = [], d_nextRevisionId = 0\<rparr>
      else None)"

section \<open>The journal\<close>

fun d_undo :: "d_journalEntry \<Rightarrow> DelegateDB \<Rightarrow> DelegateDB option" where
  "d_undo (d_createObjectChange a) s =
     Some (s\<lparr>delegateObjects := (delegateObjects s)(a := None),
             delegateObjectsDirty := delegateObjectsDirty s - {a}\<rparr>)"
| "d_undo (d_resetObjectChange prev) s = Some (d_setStateObject prev s)"
| "d_undo (d_addLogChange h) s =
     (case d_logs s h of
        None \<Rightarrow> None
      | Some ls \<Rightarrow>
          if length ls = 1 then Some (s\<lparr>d_logs := (d_logs s)(h := None), d_logSize := d_logSize s - 1\<rparr>)
          else if ls = [] then None
          else Some (s\<lparr>d_logs := (d_logs s)(h \<mapsto> butlast ls), d_logSize := d_logSize s - 1\<rparr>))"
| "d_undo (d_storageChange a key prevalue) s =
     (case d_GetStateObject a s of (None, _) \<Rightarrow> None | (Some o1, s1) \<Rightarrow> Some (d_setState o1 key prevalue s1))"
| "d_undo (d_voteChange a prev) s =
     (case d_GetStateObject a s of (None, _) \<Rightarrow> None | (Some o1, s1) \<Rightarrow> Some (setVote o1 prev s1))"
| "d_undo (d_touchChange a prev prevDirty) s =
     (if \<not> prev \<and> a \<noteq> ripemd then
        (case d_GetStateObject a s of
           (None, _) \<Rightarrow> None
         | (Some o1, s1) \<Rightarrow>
             let s2 = d_setStateObject (o1\<lparr>dob_touched := prev\<rparr>) s1 in
             Some (if \<not> prevDirty then s2\<lparr>delegateObjectsDirty := delegateObjectsDirty s2 - {a}\<rparr> else s2))
      else Some s)"
| "d_undo (d_suicideChange a prev prevVote) s =
     (case d_GetStateObject a s of
        (None, s1) \<Rightarrow> Some s1
      | (Some o1, s1) \<Rightarrow> Some (setVote (o1\<lparr>dob_suicided := prev\<rparr>) prevVote s1))"

definition d_Snapshot :: "DelegateDB \<Rightarrow> nat \<times> DelegateDB" where
  "d_Snapshot s =
     (let rid = d_nextRevisionId s in
      (rid, s\<lparr>d_nextRevisionId := rid + 1,
              d_validRevisions := d_validRevisions s @ [(rid, length (d_journal s))]\<rparr>))"

definition d_RevertToSnapshot :: "nat \<Rightarrow> DelegateDB \<Rightarrow> DelegateDB option" where
  "d_RevertToSnapshot revid s =
     (let rs = d_validRevisions s;
          idx = sort_Search (length rs) (\<lambda>i. revid \<le> fst (rs ! i)) in
      if idx = length rs \<or> fst (rs ! idx) \<noteq> revid then None
      else
        (let snapshot = snd (rs ! idx) in
         map_option (\<lambda>s'. s'\<lparr>d_journal := take snapshot (d_journal s), d_validRevisions := take idx rs\<rparr>)
           (undo_list d_undo (rev (drop snapshot (d_journal s))) s)))"

section \<open>Writing back\<close>

definition d_updateStateObject :: "delegateObject \<Rightarrow> DelegateDB \<Rightarrow> DelegateDB option" where
  "d_updateStateObject o1 s =
     (if 0 \<le> dl_Vote (dob_data o1)
      then Some (s\<lparr>d_trie := (d_trie s)(dob_address o1 := DStored (dob_data o1))\<rparr>)
      else None)"

definition d_deleteStateObject :: "delegateObject \<Rightarrow> DelegateDB \<Rightarrow> DelegateDB" where
  "d_deleteStateObject o1 s =
     (d_setStateObject (o1\<lparr>dob_deleted := True\<rparr>) s)\<lparr>d_trie := (d_trie s)(dob_address o1 := DNotFound None)\<rparr>"

definition d_finalise_one :: "backend \<Rightarrow> address \<Rightarrow> DelegateDB \<Rightarrow> DelegateDB option" where
  "d_finalise_one D a s =
     (case delegateObjects s a of
        None \<Rightarrow> None
      | Some o1 \<Rightarrow>
          if dob_suicided o1 then Some (d_deleteStateObject o1 s)
          else let o2 = d_updateRoot D o1 in d_updateStateObject o2 (d_setStateObject o2 s))"

fun d_finalise_loop :: "backend \<Rightarrow> address list \<Rightarrow> DelegateDB \<Rightarrow> DelegateDB option" where
  "d_finalise_loop D [] s = Some s"
| "d_finalise_loop D (a # as) s = Option.bind (d_finalise_one D a s) (d_finalise_loop D as)"

definition d_Finalise :: "backend \<Rightarrow> address list \<Rightarrow> bool \<Rightarrow> DelegateDB \<Rightarrow> DelegateDB option" where
  "d_Finalise D ord deleteEmptyObjects s = map_option clearJournal (d_finalise_loop D ord s)"

definition d_IntermediateRoot ::
  "backend \<Rightarrow> ((address \<Rightarrow> d_entry) \<Rightarrow> hash) \<Rightarrow> address list \<Rightarrow> bool \<Rightarrow> DelegateDB \<Rightarrow> (hash \<times> DelegateDB) option" where
  "d_IntermediateRoot D rootOf ord deleteEmptyObjects s =
     map_option (\<lambda>s1. (rootOf (d_trie s1), s1)) (d_Finalise D ord deleteEmptyObjects s)"

end
