(* ===== verification/Delegate_Votes.thy ===== *)
theory Delegate_Votes
  imports Delegate_DB Addresses Snapshots
begin

text \<open>
  What the database of delegates promises: a map from addresses to delegates with their votes. The
  theory gives the list of candidates (\<open>GetDelegates\<close> with the order of
  \<open>core/types/delegatePoll.go\<close>), the abstract map and the refinement of every operation to it, the
  round trip through the trie, and what a snapshot does not restore.
\<close>

section \<open>Candidates\<close>

record Candidate =
  c_Address :: string
  c_Vote :: uint64
  c_Nickname :: string
  c_RegisterTime :: uint64

text \<open>More votes first, then earlier registration, then the greater address.\<close>

definition cand_Less :: "Candidate \<Rightarrow> Candidate \<Rightarrow> bool" where
  "cand_Less ci cj =
     (if c_Vote cj \<noteq> c_Vote ci then c_Vote cj < c_Vote ci
      else if c_RegisterTime cj \<noteq> c_RegisterTime ci then c_RegisterTime cj > c_RegisterTime ci
      else c_Address cj < c_Address ci)"

definition candidate_of :: "(string \<Rightarrow> byte list) \<Rightarrow> address \<Rightarrow> delegateObject \<Rightarrow> Candidate" where
  "candidate_of sha3 k v =
     \<lparr>c_Address = Hex sha3 k, c_Vote = of_int (dl_Vote (dob_data v)), c_Nickname = dl_Nickname (dob_data v),
      c_RegisterTime = dl_RegisterTime (dob_data v)\<rparr>"

definition GetDelegates :: "(string \<Rightarrow> byte list) \<Rightarrow> address list \<Rightarrow> DelegateDB \<Rightarrow> Candidate list" where
  "GetDelegates sha3 ord s =
     (let list = concat (map (\<lambda>k. case delegateObjects s k of
                   None \<Rightarrow> []
                 | Some v \<Rightarrow> if dl_Delete (dob_data v) \<or> dob_suicided v then [] else [candidate_of sha3 k v]) ord)
      in if 1 < length list then sort_by cand_Less list else list)"

section \<open>The abstract map\<close>

record delegate =
  votes :: int
  nick :: string
  since :: uint64
  cancelled :: bool

definition delegate_of :: "delegateObject \<Rightarrow> delegate" where
  "delegate_of o1 = \<lparr>votes = dl_Vote (dob_data o1), nick = dl_Nickname (dob_data o1),
     since = dl_RegisterTime (dob_data o1), cancelled = dl_Delete (dob_data o1)\<rparr>"

lemma delegate_of_simps [simp]:
  "votes (delegate_of o1) = dl_Vote (dob_data o1)" "cancelled (delegate_of o1) = dl_Delete (dob_data o1)"
  by (simp_all add: delegate_of_def)

definition delegates :: "DelegateDB \<Rightarrow> address \<rightharpoonup> delegate" where
  "delegates s = (\<lambda>a. map_option delegate_of (delegateObjects s a))"

definition add_votes :: "address \<Rightarrow> int \<Rightarrow> (address \<rightharpoonup> delegate) \<Rightarrow> (address \<rightharpoonup> delegate)" where
  "add_votes a v m = (case m a of
      Some d \<Rightarrow> if cancelled d then m else m(a \<mapsto> d\<lparr>votes := votes d + v\<rparr>) | None \<Rightarrow> m)"

definition sub_votes :: "address \<Rightarrow> int \<Rightarrow> (address \<rightharpoonup> delegate) \<Rightarrow> (address \<rightharpoonup> delegate)" where
  "sub_votes a v m = (case m a of Some d \<Rightarrow> m(a \<mapsto> d\<lparr>votes := max 0 (votes d - v)\<rparr>) | None \<Rightarrow> m)"

definition set_votes :: "address \<Rightarrow> int \<Rightarrow> (address \<rightharpoonup> delegate) \<Rightarrow> (address \<rightharpoonup> delegate)" where
  "set_votes a v m = (case m a of
      Some d \<Rightarrow> if cancelled d then m else m(a \<mapsto> d\<lparr>votes := v\<rparr>) | None \<Rightarrow> m)"

definition cancel :: "address \<Rightarrow> (address \<rightharpoonup> delegate) \<Rightarrow> (address \<rightharpoonup> delegate)" where
  "cancel a m = (case m a of Some d \<Rightarrow> m(a \<mapsto> d\<lparr>cancelled := True\<rparr>) | None \<Rightarrow> m)"

definition register :: "address \<Rightarrow> string \<Rightarrow> uint64 \<Rightarrow> (address \<rightharpoonup> delegate) \<Rightarrow> (address \<rightharpoonup> delegate)" where
  "register a n t m = (case m a of
      None \<Rightarrow> m(a \<mapsto> \<lparr>votes = 0, nick = n, since = t, cancelled = False\<rparr>)
    | Some d \<Rightarrow> if cancelled d then m(a \<mapsto> \<lparr>votes = votes d, nick = n, since = t, cancelled = False\<rparr>) else m)"

text \<open>The invariant of a database that was opened with \<open>New\<close>: every delegate of the trie is in
  memory, objects are filed under their address and dirty, and votes are not negative.\<close>

definition ddb_inv :: "DelegateDB \<Rightarrow> bool" where
  "ddb_inv s \<longleftrightarrow>
     (\<forall>a o1. delegateObjects s a = Some o1 \<longrightarrow> dob_address o1 = a \<and> \<not> dob_deleted o1 \<and> \<not> dob_suicided o1 \<and>
        \<not> dob_onDirty o1 \<and> a \<in> delegateObjectsDirty s \<and> 0 \<le> dl_Vote (dob_data o1)) \<and>
     (\<forall>a d. d_trie s a = DStored d \<longrightarrow> delegateObjects s a \<noteq> None) \<and>
     delegateObjectsDirty s \<subseteq> dom (delegateObjects s)"

lemma ddb_invD:
  assumes "ddb_inv s" "delegateObjects s a = Some o1"
  shows "dob_address o1 = a" "\<not> dob_deleted o1" "\<not> dob_suicided o1" "\<not> dob_onDirty o1" "0 \<le> dl_Vote (dob_data o1)"
    "a \<in> delegateObjectsDirty s"
  using assms by (auto simp: ddb_inv_def)

lemma d_lookup:
  assumes "ddb_inv s"
  shows "delegateObjects s a = Some o1 \<Longrightarrow>
      d_GetStateObject a s = (if dl_Delete (dob_data o1) then None else Some o1, s)"
    "delegateObjects s a = Some o1 \<Longrightarrow> getStateObjectContainDelete a s = (Some o1, s)"
    "delegateObjects s a = None \<Longrightarrow> \<exists>e. d_GetStateObject a s = (None, d_setError e s) \<and>
       getStateObjectContainDelete a s = (None, d_setError e s)"
proof -
  show "delegateObjects s a = Some o1 \<Longrightarrow>
      d_GetStateObject a s = (if dl_Delete (dob_data o1) then None else Some o1, s)"
    using ddb_invD(2)[OF assms] by (simp add: d_GetStateObject_def)
  show "delegateObjects s a = Some o1 \<Longrightarrow> getStateObjectContainDelete a s = (Some o1, s)"
    by (simp add: getStateObjectContainDelete_def)
  assume none: "delegateObjects s a = None"
  then have "d_trie s a \<noteq> DStored d" for d using assms by (auto simp: ddb_inv_def)
  then have "(\<exists>e. d_trie s a = DNotFound e) \<or> d_trie s a = DUndecodable" by (cases "d_trie s a") auto
  moreover have "d_setError None s = s" by (simp add: d_setError_def)
  ultimately show "\<exists>e. d_GetStateObject a s = (None, d_setError e s) \<and>
      getStateObjectContainDelete a s = (None, d_setError e s)"
    using none by (elim disjE exE) (auto simp: d_GetStateObject_def getStateObjectContainDelete_def intro: exI[of _ None])
qed

text \<open>Writing an object that is not new, and filing a new one.\<close>

definition d_write :: "delegateObject \<Rightarrow> DelegateDB \<Rightarrow> DelegateDB" where
  "d_write o1 s = s\<lparr>delegateObjects := (delegateObjects s)(dob_address o1 \<mapsto> o1)\<rparr>"

lemma d_tryMarkDirty_clean: "\<not> dob_onDirty o1 \<Longrightarrow> d_tryMarkDirty o1 s = d_write o1 s"
  by (simp add: d_tryMarkDirty_def d_write_def d_setStateObject_def)

lemma remark_write: "dob_address o1 = a \<Longrightarrow> \<not> dob_onDirty o1 \<Longrightarrow> remark a (d_write o1 s) = d_write o1 s"
  by (simp add: remark_def d_write_def d_tryMarkDirty_def d_setStateObject_def)

lemma remark_same:
  "delegateObjects s a = Some o1 \<Longrightarrow> dob_address o1 = a \<Longrightarrow> \<not> dob_onDirty o1 \<Longrightarrow> remark a s = s"
  by (simp add: remark_def d_tryMarkDirty_def d_setStateObject_def fun_upd_idem)

lemma delegates_write [view_simps]:
  "delegates (d_write o1 s) = (delegates s)(dob_address o1 \<mapsto> delegate_of o1)"
  by (auto simp: delegates_def d_write_def)

lemma ddb_inv_write:
  assumes "ddb_inv s" "delegateObjects s (dob_address o1) \<noteq> None" "\<not> dob_deleted o1" "\<not> dob_suicided o1"
    "\<not> dob_onDirty o1" "0 \<le> dl_Vote (dob_data o1)"
  shows "ddb_inv (d_write o1 s)"
proof -
  have "dob_address o1 \<in> delegateObjectsDirty s"
    using assms(1,2) by (auto simp: ddb_inv_def)
  then show ?thesis using assms by (auto simp: ddb_inv_def d_write_def)
qed

lemma d_setError_simps [simp]:
  "delegates (d_setError e s) = delegates s" "ddb_inv (d_setError e s) = ddb_inv s"
  "delegateObjects (d_setError e s) = delegateObjects s"
  by (simp_all add: delegates_def d_setError_def ddb_inv_def)

lemma d_append_journal_simps [simp]:
  "delegates (d_append_journal e s) = delegates s" "ddb_inv (d_append_journal e s) = ddb_inv s"
  "delegateObjects (d_append_journal e s) = delegateObjects s"
  by (simp_all add: delegates_def d_append_journal_def ddb_inv_def)

definition with_votes :: "int \<Rightarrow> delegateObject \<Rightarrow> delegateObject" where
  "with_votes v o1 = o1\<lparr>dob_data := (dob_data o1)\<lparr>dl_Vote := v\<rparr>\<rparr>"

lemma with_votes_simps [simp]:
  "dob_address (with_votes v o1) = dob_address o1" "dob_deleted (with_votes v o1) = dob_deleted o1"
  "dob_suicided (with_votes v o1) = dob_suicided o1" "dob_onDirty (with_votes v o1) = dob_onDirty o1"
  "dl_Vote (dob_data (with_votes v o1)) = v" "delegate_of (with_votes v o1) = (delegate_of o1)\<lparr>votes := v\<rparr>"
  by (simp_all add: with_votes_def delegate_of_def)

text \<open>Each operation by cases on whether the delegate is known.\<close>

lemma vote_ops_known:
  assumes inv: "ddb_inv s" and o1: "delegateObjects s a = Some o1"
  shows "d_AddVote a v s = (if dl_Delete (dob_data o1) \<or> v = 0 then s
      else d_write (with_votes (dl_Vote (dob_data o1) + v) o1) s)"
    "d_SubVote a v s = (if v = 0 then s else d_write (with_votes (max 0 (dl_Vote (dob_data o1) - v)) o1) s)"
    "d_SetVote a v s = (if dl_Delete (dob_data o1) then s else d_write (with_votes v o1) s)"
    "d_Suicide a s = (if dl_Delete (dob_data o1) then (False, s)
      else (True, d_write (o1\<lparr>dob_data := (dob_data o1)\<lparr>dl_Delete := True\<rparr>\<rparr>)
          (d_append_journal (d_suicideChange a False (dl_Vote (dob_data o1))) s)))"
  using d_lookup(1,2)[OF inv o1] ddb_invD[OF inv o1] remark_same[OF o1] o1
  by (auto simp: d_AddVote_def d_SubVote_def d_SetVote_def d_Suicide_def dob_AddVote_def dob_SubVote_def setVote_def
      d_empty_def Let_def d_tryMarkDirty_clean remark_write with_votes_def[symmetric] max_def)

lemma vote_ops_unknown:
  assumes inv: "ddb_inv s" and o1: "delegateObjects s a = None"
  shows "\<exists>e. d_AddVote a v s = d_setError e s \<and> d_SubVote a v s = d_setError e s \<and>
    d_SetVote a v s = d_setError e s \<and> d_Suicide a s = (False, d_setError e s)"
  using d_lookup(3)[OF inv o1]
  by (auto simp: d_AddVote_def d_SubVote_def d_SetVote_def d_Suicide_def)

lemma create_known:
  assumes inv: "ddb_inv s" and a: "\<And>o1. delegateObjects s a = Some o1 \<Longrightarrow> dl_Delete (dob_data o1)"
    and create: "d_createObject a n t s = (o1, p, s1)"
  shows "delegates s1 = (delegates s)(a \<mapsto> \<lparr>votes = 0, nick = n, since = t, cancelled = False\<rparr>)" "ddb_inv s1"
    "delegateObjects s1 a = Some o1" "\<not> dl_Delete (dob_data o1)" "dl_Vote (dob_data o1) = 0"
    "dl_Nickname (dob_data o1) = n" "dl_RegisterTime (dob_data o1) = t"
    "\<exists>e. d_journal s1 = d_journal s @ [d_createObjectChange a] \<and> d_trie s1 = d_trie s"
proof -
  obtain s0 where s0: "d_GetStateObject a s = (None, s0)" "delegateObjects s0 = delegateObjects s"
      "d_trie s0 = d_trie s" "delegateObjectsDirty s0 = delegateObjectsDirty s" "d_journal s0 = d_journal s"
  proof (cases "delegateObjects s a")
    case None
    with d_lookup(3)[OF inv] obtain e where "d_GetStateObject a s = (None, d_setError e s)" by blast
    then show ?thesis by (rule that) (simp_all add: d_setError_def)
  next
    case (Some o2)
    with d_lookup(1)[OF inv] a that show ?thesis by auto
  qed
  have facts: "delegateObjects s1 = (delegateObjects s)(a \<mapsto> o1)" "d_trie s1 = d_trie s"
    "delegateObjectsDirty s1 = insert a (delegateObjectsDirty s)" "d_journal s1 = d_journal s @ [d_createObjectChange a]"
    "dob_address o1 = a" "\<not> dob_deleted o1" "\<not> dob_suicided o1" "\<not> dob_onDirty o1"
    "dob_data o1 = \<lparr>dl_Root = 0, dl_Vote = 0, dl_Nickname = n, dl_RegisterTime = t, dl_Delete = False\<rparr>"
    using create s0 by (auto simp: d_createObject_def d_newObject_def d_MarkStateObjectDirty_def
        d_setStateObject_def d_append_journal_def)
  then show "delegates s1 = (delegates s)(a \<mapsto> \<lparr>votes = 0, nick = n, since = t, cancelled = False\<rparr>)"
    "delegateObjects s1 a = Some o1" "\<not> dl_Delete (dob_data o1)" "dl_Vote (dob_data o1) = 0"
    "dl_Nickname (dob_data o1) = n" "dl_RegisterTime (dob_data o1) = t"
    "\<exists>e. d_journal s1 = d_journal s @ [d_createObjectChange a] \<and> d_trie s1 = d_trie s"
    by (auto simp: delegates_def delegate_of_def)
  show "ddb_inv s1" using inv facts by (auto simp: ddb_inv_def)
qed

lemma register_known:
  assumes inv: "ddb_inv s"
  shows "delegates (d_GetOrNewStateObject a n t s) = register a n t (delegates s) \<and>
    ddb_inv (d_GetOrNewStateObject a n t s)"
proof (cases "delegateObjects s a")
  case None
  then obtain e where e: "getStateObjectContainDelete a s = (None, d_setError e s)"
    using d_lookup(3)[OF inv] by blast
  obtain o1 p s1 where c: "d_createObject a n t (d_setError e s) = (o1, p, s1)"
    by (cases "d_createObject a n t (d_setError e s)")
  from create_known(1,2)[OF _ _ c] inv None e c show ?thesis
    by (simp add: d_GetOrNewStateObject_def register_def delegates_def)
next
  case (Some o2)
  note look = d_lookup(2)[OF inv Some]
  show ?thesis
  proof (cases "dl_Delete (dob_data o2)")
    case False
    then show ?thesis using look Some inv by (simp add: d_GetOrNewStateObject_def register_def delegates_def delegate_of_def)
  next
    case True
    obtain o1 p s1 where c: "d_createObject a n t s = (o1, p, s1)" by (cases "d_createObject a n t s")
    note k = create_known[OF inv _ c]
    have k': "delegates s1 = (delegates s)(a \<mapsto> \<lparr>votes = 0, nick = n, since = t, cancelled = False\<rparr>)" "ddb_inv s1"
      "delegateObjects s1 a = Some o1" "\<not> dl_Delete (dob_data o1)" "dl_Vote (dob_data o1) = 0"
      using k True Some by auto
    have "0 \<le> dl_Vote (dob_data o2)" using ddb_invD[OF inv Some] by simp
    moreover have "delegate_of o1 = \<lparr>votes = 0, nick = n, since = t, cancelled = False\<rparr>"
      using fun_cong[OF k'(1), of a] k'(3) by (simp add: delegates_def)
    ultimately show ?thesis
      using vote_ops_known(1)[OF k'(2,3), of "dl_Vote (dob_data o2)"] k' True Some look c ddb_invD[OF k'(2,3)]
      by (auto simp: d_GetOrNewStateObject_def register_def delegates_def[of s] view_simps
          intro!: ddb_inv_write)
  qed
qed

lemma delegates_ops:
  assumes "ddb_inv s" "0 \<le> v"
  shows "delegates (d_AddVote a v s) = add_votes a v (delegates s) \<and> ddb_inv (d_AddVote a v s) \<and>
    delegates (d_SubVote a v s) = sub_votes a v (delegates s) \<and> ddb_inv (d_SubVote a v s) \<and>
    delegates (d_SetVote a v s) = set_votes a v (delegates s) \<and> ddb_inv (d_SetVote a v s) \<and>
    delegates (snd (d_Suicide a s)) = cancel a (delegates s) \<and> ddb_inv (snd (d_Suicide a s)) \<and>
    delegates (d_GetOrNewStateObject a n t s) = register a n t (delegates s) \<and>
    ddb_inv (d_GetOrNewStateObject a n t s) \<and>
    fst (GetVote a s) = (case delegates s a of None \<Rightarrow> 0 | Some d \<Rightarrow> votes d) \<and>
    fst (d_Exist a s) = (case delegates s a of None \<Rightarrow> False | Some d \<Rightarrow> \<not> cancelled d) \<and>
    fst (SubExist a s) = (delegates s a \<noteq> None)"
proof (cases "delegateObjects s a")
  case None
  then obtain e where e: "d_GetStateObject a s = (None, d_setError e s)"
      "getStateObjectContainDelete a s = (None, d_setError e s)"
    using d_lookup(3)[OF assms(1)] by blast
  from None have "delegates s a = None" by (simp add: delegates_def)
  with e assms vote_ops_unknown[OF assms(1) None, of v] register_known[OF assms(1)] show ?thesis
    by (auto simp: add_votes_def sub_votes_def set_votes_def cancel_def GetVote_def d_Exist_def SubExist_def)
next
  case (Some o1)
  note inv = ddb_invD[OF assms(1) Some] and look = d_lookup(1,2)[OF assms(1) Some]
  have d: "delegates s a = Some (delegate_of o1)" using Some by (simp add: delegates_def)
  have cancel: "delegate_of (o1\<lparr>dob_data := (dob_data o1)\<lparr>dl_Delete := True\<rparr>\<rparr>) = (delegate_of o1)\<lparr>cancelled := True\<rparr>"
    by (simp add: delegate_of_def)
  have idem: "(delegates s)(a \<mapsto> delegate_of o1) = delegates s" using d by (simp add: fun_upd_idem)
  have self: "(delegate_of o1)\<lparr>votes := dl_Vote (dob_data o1)\<rparr> = delegate_of o1"
    "dl_Delete (dob_data o1) \<Longrightarrow> (delegate_of o1)\<lparr>cancelled := True\<rparr> = delegate_of o1"
    by (simp_all add: delegate_of_def)
  note ops = vote_ops_known[OF assms(1) Some]
  have w: "ddb_inv (d_write o2 s)" if "dob_address o2 = a" "\<not> dob_deleted o2" "\<not> dob_suicided o2"
      "\<not> dob_onDirty o2" "0 \<le> dl_Vote (dob_data o2)" for o2
    using ddb_inv_write[OF assms(1), of o2] Some that by simp
  have w': "ddb_inv (d_write o2 (d_append_journal e s))" if "dob_address o2 = a" "\<not> dob_deleted o2" "\<not> dob_suicided o2"
      "\<not> dob_onDirty o2" "0 \<le> dl_Vote (dob_data o2)" for o2 e
    using ddb_inv_write[of "d_append_journal e s" o2] assms(1) Some that by simp
  show ?thesis
    using register_known[OF assms(1)] assms inv look
    by (auto simp: ops view_simps add_votes_def sub_votes_def set_votes_def cancel_def d idem self cancel
        GetVote_def d_Exist_def SubExist_def w w' max_def)
qed

text \<open>C14: the database of delegates implements a map from addresses to delegates. Adding votes
  applies to a delegate that is not cancelled; subtracting votes applies to cancelled delegates as
  well and stops at zero; cancelling keeps the votes; registering creates a delegate without votes,
  gives a cancelled one its votes back, and leaves a registered one alone. Every operation keeps
  the invariant, in particular no vote count ever becomes negative.\<close>

theorem delegate_db_refines_map:
  assumes "ddb_inv s" "0 \<le> v"
  shows "delegates (d_AddVote a v s) = add_votes a v (delegates s) \<and> ddb_inv (d_AddVote a v s) \<and>
    delegates (d_SubVote a v s) = sub_votes a v (delegates s) \<and> ddb_inv (d_SubVote a v s) \<and>
    delegates (d_SetVote a v s) = set_votes a v (delegates s) \<and> ddb_inv (d_SetVote a v s) \<and>
    delegates (snd (d_Suicide a s)) = cancel a (delegates s) \<and> ddb_inv (snd (d_Suicide a s)) \<and>
    delegates (d_GetOrNewStateObject a n t s) = register a n t (delegates s) \<and>
    ddb_inv (d_GetOrNewStateObject a n t s) \<and>
    fst (GetVote a s) = (case delegates s a of None \<Rightarrow> 0 | Some d \<Rightarrow> votes d) \<and>
    fst (d_Exist a s) = (case delegates s a of None \<Rightarrow> False | Some d \<Rightarrow> \<not> cancelled d) \<and>
    fst (SubExist a s) = (delegates s a \<noteq> None)"
  using delegates_ops[OF assms] by simp

text \<open>An empty database with two delegates registered, one of which is cancelled.\<close>

definition empty_ddb :: DelegateDB where
  "empty_ddb = d_New [] (\<lambda>_. DNotFound None)"

definition two_delegates :: DelegateDB where
  "two_delegates = d_AddVote 1 9 (snd (d_Suicide 2 (d_AddVote 2 4
     (d_GetOrNewStateObject 2 ''b'' 20 (d_GetOrNewStateObject 1 ''a'' 10 empty_ddb)))))"

lemma empty_ddb_inv: "ddb_inv empty_ddb"
  by (simp add: empty_ddb_def d_New_def ddb_inv_def)

lemma two_delegates_inv: "ddb_inv two_delegates"
proof -
  have reg: "ddb_inv (d_GetOrNewStateObject a n t s)" if "ddb_inv s" for a n t s
    using delegates_ops[OF that, of 0 a n t] by simp
  have add: "ddb_inv (d_AddVote a v s)" if "ddb_inv s" "0 \<le> v" for a v s
    using delegates_ops[OF that, of a] by simp
  have can: "ddb_inv (snd (d_Suicide a s))" if "ddb_inv s" for a s
    using delegates_ops[OF that, of 0 a] by simp
  show ?thesis unfolding two_delegates_def by (intro add can reg empty_ddb_inv) simp_all
qed

lemma two_delegates_objects: "delegates two_delegates =
    [1 \<mapsto> \<lparr>votes = 9, nick = ''a'', since = 10, cancelled = False\<rparr>,
     2 \<mapsto> \<lparr>votes = 4, nick = ''b'', since = 20, cancelled = True\<rparr>]"
  "delegateObjectsDirty two_delegates = {1, 2}" "d_validRevisions two_delegates = []"
  by (auto simp: two_delegates_def empty_ddb_def d_New_def d_GetOrNewStateObject_def getStateObjectContainDelete_def
      d_createObject_def d_GetStateObject_def d_newObject_def d_setError_def d_setStateObject_def
      d_MarkStateObjectDirty_def d_append_journal_def d_AddVote_def dob_AddVote_def setVote_def d_tryMarkDirty_def
      remark_def d_Suicide_def delegates_def delegate_of_def fun_eq_iff)

theorem delegate_db_refines_map_witness:
  "ddb_inv two_delegates \<and> fst (GetVote 2 (d_SubVote 2 7 two_delegates)) = 0 \<and>
   delegates (d_AddVote 1 5 two_delegates) 1 = Some \<lparr>votes = 14, nick = ''a'', since = 10, cancelled = False\<rparr>"
proof -
  have inv: "ddb_inv (d_SubVote 2 7 two_delegates)" "delegates (d_SubVote 2 7 two_delegates) 2 =
      Some \<lparr>votes = 0, nick = ''b'', since = 20, cancelled = True\<rparr>"
    using delegate_db_refines_map[OF two_delegates_inv, of 7 2] by (simp_all add: two_delegates_objects sub_votes_def)
  show ?thesis
    using two_delegates_inv delegate_db_refines_map[OF two_delegates_inv, of 5 1]
      delegate_db_refines_map[OF inv(1), of 0 2] inv(2)
    by (simp add: two_delegates_objects add_votes_def)
qed

section \<open>Through the trie\<close>

definition loaded_obj :: "address \<Rightarrow> Delegate \<Rightarrow> delegateObject" where
  "loaded_obj a d = \<lparr>dob_address = a, dob_data = d, dob_dbErr = None, dob_trie = None, dob_cachedStorage = Map.empty,
     dob_dirtyStorage = Map.empty, dob_touched = False, dob_deleted = False, dob_suicided = False,
     dob_onDirty = False\<rparr>"

lemma d_GetStateObject_load:
  "delegateObjects (snd (d_GetStateObject a s)) b =
     (case delegateObjects s b of
        Some o1 \<Rightarrow> Some o1
      | None \<Rightarrow> if b = a then (case d_trie s a of DStored d \<Rightarrow> Some (loaded_obj a d) | _ \<Rightarrow> None) else None)"
  "d_trie (snd (d_GetStateObject a s)) = d_trie s"
  "delegateObjectsDirty (snd (d_GetStateObject a s)) = delegateObjectsDirty s \<union>
     {b. b = a \<and> delegateObjects s b = None \<and> (\<exists>d. d_trie s b = DStored d)}"
  by (auto simp: d_GetStateObject_def d_newObject_def d_setStateObject_def d_MarkStateObjectDirty_def d_setError_def
      loaded_obj_def split: option.split d_entry.split)

lemma loadDelegateToCache_facts:
  "delegateObjects (loadDelegateToCache keys s) b =
     (case delegateObjects s b of
        Some o1 \<Rightarrow> Some o1
      | None \<Rightarrow> if b \<in> set keys then (case d_trie s b of DStored d \<Rightarrow> Some (loaded_obj b d) | _ \<Rightarrow> None) else None)
   \<and> d_trie (loadDelegateToCache keys s) = d_trie s
   \<and> delegateObjectsDirty (loadDelegateToCache keys s) = delegateObjectsDirty s \<union>
       {b. b \<in> set keys \<and> delegateObjects s b = None \<and> (\<exists>d. d_trie s b = DStored d)}"
proof (induction keys arbitrary: s)
  case Nil
  then show ?case by (simp split: option.split)
next
  case (Cons a keys)
  note IH = Cons[of "snd (d_GetStateObject a s)"] and load = d_GetStateObject_load[of a s]
  have "delegateObjects (loadDelegateToCache (a # keys) s) b =
     (case delegateObjects s b of
        Some o1 \<Rightarrow> Some o1
      | None \<Rightarrow> if b \<in> set (a # keys) then (case d_trie s b of DStored d \<Rightarrow> Some (loaded_obj b d) | _ \<Rightarrow> None) else None)"
    using IH[THEN conjunct1] load(1)[of b] load(2)
    by (cases "delegateObjects s b"; cases "b = a"; cases "d_trie s b") simp_all
  moreover have "delegateObjectsDirty (loadDelegateToCache (a # keys) s) = delegateObjectsDirty s \<union>
       {b. b \<in> set (a # keys) \<and> delegateObjects s b = None \<and> (\<exists>d. d_trie s b = DStored d)}"
  proof (rule set_eqI)
    fix x
    have dirty: "delegateObjectsDirty (loadDelegateToCache (a # keys) s) =
        delegateObjectsDirty (snd (d_GetStateObject a s)) \<union>
        {b. b \<in> set keys \<and> delegateObjects (snd (d_GetStateObject a s)) b = None \<and> (\<exists>d. d_trie s b = DStored d)}"
      using IH[THEN conjunct2, THEN conjunct2] load(2) by simp
    show "x \<in> delegateObjectsDirty (loadDelegateToCache (a # keys) s) \<longleftrightarrow> x \<in> delegateObjectsDirty s \<union>
       {b. b \<in> set (a # keys) \<and> delegateObjects s b = None \<and> (\<exists>d. d_trie s b = DStored d)}"
      unfolding dirty load(3)
      by (cases "x = a"; cases "delegateObjects s x"; cases "d_trie s x") (simp_all add: load(1))
  qed
  ultimately show ?case using IH load(2) by simp
qed

lemma d_New_facts:
  assumes "set keys = {a. \<exists>d. tr a = DStored d}"
  shows "delegateObjects (d_New keys tr) a = (case tr a of DStored d \<Rightarrow> Some (loaded_obj a d) | _ \<Rightarrow> None)"
    "d_trie (d_New keys tr) = tr" "delegateObjectsDirty (d_New keys tr) = {a. \<exists>d. tr a = DStored d}"
  using assms by (auto simp: d_New_def loadDelegateToCache_facts split: d_entry.split)

definition d_final :: "backend \<Rightarrow> address set \<Rightarrow> DelegateDB \<Rightarrow> DelegateDB" where
  "d_final D A s =
     s\<lparr>delegateObjects := (\<lambda>a. if a \<in> A then map_option (d_updateRoot D) (delegateObjects s a) else delegateObjects s a),
       d_trie := (\<lambda>a. case delegateObjects s a of
                  None \<Rightarrow> d_trie s a
                | Some o1 \<Rightarrow> if a \<in> A then DStored (dob_data (d_updateRoot D o1)) else d_trie s a)\<rparr>"

lemma d_updateRoot_frame:
  "dob_address (d_updateRoot D o1) = dob_address o1" "dl_Vote (dob_data (d_updateRoot D o1)) = dl_Vote (dob_data o1)"
  "delegate_of (d_updateRoot D o1) = delegate_of o1"
  by (auto simp: d_updateRoot_def d_updateTrie_def d_getTrie_def delegate_of_def Let_def split: option.split)

lemma d_finalise_one_eq:
  assumes "delegateObjects s a = Some o1" "dob_address o1 = a" "\<not> dob_suicided o1" "0 \<le> dl_Vote (dob_data o1)"
  shows "d_finalise_one D a s = Some (d_final D {a} s)"
proof -
  have "d_final D {a} s =
      s\<lparr>delegateObjects := (delegateObjects s)(a \<mapsto> d_updateRoot D o1),
        d_trie := (d_trie s)(a := DStored (dob_data (d_updateRoot D o1)))\<rparr>"
    using assms(1) by (auto simp: d_final_def fun_eq_iff split: option.split intro!: DelegateDB.equality)
  then show ?thesis
    using assms by (simp add: d_finalise_one_def d_updateStateObject_def d_setStateObject_def d_updateRoot_frame Let_def)
qed

lemma d_finalise_loop_eq:
  assumes "distinct ord" "\<And>a. a \<in> set ord \<Longrightarrow> \<exists>o1. delegateObjects s a = Some o1 \<and> dob_address o1 = a \<and>
      \<not> dob_suicided o1 \<and> 0 \<le> dl_Vote (dob_data o1)"
  shows "d_finalise_loop D ord s = Some (d_final D (set ord) s)"
  using assms
proof (induction ord arbitrary: s)
  case Nil
  have "d_final D {} s = s"
    by (auto simp: d_final_def fun_eq_iff split: option.split intro!: DelegateDB.equality)
  then show ?case by simp
next
  case (Cons a as)
  let ?s = "d_final D {a} s"
  from Cons.prems(2)[of a] have one: "d_finalise_one D a s = Some ?s"
    using d_finalise_one_eq by fastforce
  have same: "delegateObjects ?s b = delegateObjects s b" if "b \<in> set as" for b
    using that Cons.prems(1) by (auto simp: d_final_def)
  have "d_finalise_loop D as ?s = Some (d_final D (set as) ?s)"
    using Cons.IH[of ?s] Cons.prems same by simp
  moreover have "d_final D (set as) ?s = d_final D (set (a # as)) s"
    using Cons.prems(1) by (auto simp: d_final_def fun_eq_iff split: option.split intro!: DelegateDB.equality)
  ultimately show ?case using one by simp
qed

text \<open>C15: finalising the delegates never panics, whatever order the dirty set is visited in, and a
  database opened on the trie it leaves holds the same delegates with the same votes and satisfies
  the invariant, which is how the invariant is established in the first place.\<close>

theorem delegate_db_roundtrip:
  assumes "ddb_inv s" "distinct ord" "set ord = delegateObjectsDirty s"
  shows "\<exists>t. d_Finalise D ord del s = Some t \<and> d_journal t = [] \<and> delegates t = delegates s \<and>
    (\<forall>keys. set keys = {a. \<exists>d. d_trie t a = DStored d} \<longrightarrow>
       delegates (d_New keys (d_trie t)) = delegates s \<and> ddb_inv (d_New keys (d_trie t)))"
proof -
  let ?A = "delegateObjectsDirty s" let ?t = "clearJournal (d_final D ?A s)"
  have obj: "a \<in> ?A \<longleftrightarrow> delegateObjects s a \<noteq> None" for a
    using assms(1) by (auto simp: ddb_inv_def)
  have "d_Finalise D ord del s = Some ?t"
    using d_finalise_loop_eq[OF assms(2), of s D] ddb_invD[OF assms(1)] obj assms(3)
    by (fastforce simp: d_Finalise_def)
  moreover have "delegates ?t = delegates s"
    by (auto simp: delegates_def clearJournal_def d_final_def fun_eq_iff option.map_comp comp_def d_updateRoot_frame)
  moreover have "delegates (d_New keys (d_trie ?t)) = delegates s \<and> ddb_inv (d_New keys (d_trie ?t))"
    if keys: "set keys = {a. \<exists>d. d_trie ?t a = DStored d}" for keys
  proof -
    have trie: "d_trie ?t a = (case delegateObjects s a of
        None \<Rightarrow> d_trie s a | Some o1 \<Rightarrow> DStored (dob_data (d_updateRoot D o1)))" for a
      using obj by (simp add: clearJournal_def d_final_def split: option.split)
    have none: "delegateObjects s a = None \<Longrightarrow> d_trie s a \<noteq> DStored d" for a d
      using assms(1) by (auto simp: ddb_inv_def)
    have of: "delegate_of (loaded_obj a (dob_data o1)) = delegate_of o1" for a o1
      by (simp add: delegate_of_def loaded_obj_def)
    have "delegates (d_New keys (d_trie ?t)) = delegates s"
      using none by (auto simp: delegates_def d_New_facts[OF keys] trie of d_updateRoot_frame fun_eq_iff
          split: option.split d_entry.split)
    moreover have "ddb_inv (d_New keys (d_trie ?t))"
      using none ddb_invD(5)[OF assms(1)]
      by (auto simp: ddb_inv_def d_New_facts[OF keys] trie loaded_obj_def d_updateRoot_frame
          split: option.splits d_entry.splits)
    ultimately show ?thesis by simp
  qed
  ultimately show ?thesis by (auto simp: clearJournal_def)
qed

theorem delegate_db_roundtrip_witness:
  "\<exists>t. d_Finalise backend0 [2, 1] True two_delegates = Some t \<and> delegates t = delegates two_delegates"
  using delegate_db_roundtrip[OF two_delegates_inv, of "[2, 1]" backend0 True]
  by (auto simp: two_delegates_objects(2))

section \<open>Snapshots\<close>

lemma d_revs_simps [simp]:
  "d_validRevisions (d_write o1 s) = d_validRevisions s" "d_journal (d_write o1 s) = d_journal s"
  "d_validRevisions (d_setError e s) = d_validRevisions s" "d_journal (d_setError e s) = d_journal s"
  "d_validRevisions (d_append_journal en s) = d_validRevisions s"
  "d_journal (d_append_journal en s) = d_journal s @ [en]" "d_trie (d_write o1 s) = d_trie s"
  by (simp_all add: d_write_def d_setError_def d_append_journal_def)

definition d_revs_ok :: "DelegateDB \<Rightarrow> bool" where
  "d_revs_ok s \<longleftrightarrow> (\<forall>r \<in> set (d_validRevisions s). fst r < d_nextRevisionId s)"

lemma d_Snapshot_facts:
  assumes "d_Snapshot s = (rid, s1)"
  shows "rid = d_nextRevisionId s" "d_validRevisions s1 = d_validRevisions s @ [(rid, length (d_journal s))]"
    "d_journal s1 = d_journal s" "delegates s1 = delegates s" "ddb_inv s1 = ddb_inv s"
    "delegateObjects s1 = delegateObjects s" "d_trie s1 = d_trie s"
  using assms by (auto simp: d_Snapshot_def Let_def delegates_def ddb_inv_def)

lemma d_revert:
  assumes snap: "d_Snapshot s = (rid, s1)" "d_revs_ok s"
    and t: "d_validRevisions t = d_validRevisions s1" "d_journal t = d_journal s1 @ es"
      "undo_list d_undo (rev es) t = Some t'"
  shows "d_RevertToSnapshot rid t = Some (t'\<lparr>d_journal := d_journal s, d_validRevisions := d_validRevisions s\<rparr>)"
proof -
  note f = d_Snapshot_facts[OF snap(1)]
  have "sort_Search (length (d_validRevisions t)) (\<lambda>i. rid \<le> fst (d_validRevisions t ! i)) = length (d_validRevisions s)"
    unfolding t(1) f(2) by (rule find_revision) (use snap(2) f(1) in \<open>auto simp: d_revs_ok_def\<close>)
  then show ?thesis using t f by (simp add: d_RevertToSnapshot_def Let_def)
qed

lemma delegates_frame [simp]:
  "delegates (s\<lparr>d_journal := j, d_validRevisions := r\<rparr>) = delegates s"
  by (simp add: delegates_def)

lemma d_revert_silent:
  assumes "d_Snapshot s = (rid, s1)" "d_revs_ok s" "d_validRevisions t = d_validRevisions s1" "d_journal t = d_journal s1"
  shows "\<exists>u. d_RevertToSnapshot rid t = Some u \<and> delegates u = delegates t"
  using d_revert[OF assms(1,2,3), of "[]" t] assms(4) by simp

lemma vote_ops_silent:
  assumes "ddb_inv s"
  shows "d_validRevisions (d_AddVote a v s) = d_validRevisions s \<and> d_journal (d_AddVote a v s) = d_journal s"
    "d_validRevisions (d_SubVote a v s) = d_validRevisions s \<and> d_journal (d_SubVote a v s) = d_journal s"
    "d_validRevisions (d_SetVote a v s) = d_validRevisions s \<and> d_journal (d_SetVote a v s) = d_journal s"
  using vote_ops_known(1-3)[OF assms] vote_ops_unknown[OF assms, of a v]
  by (cases "delegateObjects s a"; force)+

lemma Suicide_undo:
  assumes "ddb_inv s" "snd (d_Suicide a s) = t"
  shows "d_validRevisions t = d_validRevisions s \<and> (\<exists>es. d_journal t = d_journal s @ es \<and>
    (\<exists>t'. undo_list d_undo (rev es) t = Some t' \<and> delegates t' = delegates t))"
proof (cases "delegateObjects s a")
  case None
  with vote_ops_unknown[OF assms(1) None] assms(2) obtain e where "t = d_setError e s" by fastforce
  then show ?thesis by (intro conjI exI[of _ "[]"] exI[of _ t]) simp_all
next
  case (Some o1)
  note k = vote_ops_known(4)[OF assms(1) Some] and inv = ddb_invD[OF assms(1) Some]
  show ?thesis
  proof (cases "dl_Delete (dob_data o1)")
    case True
    with k assms(2) show ?thesis by auto
  next
    case False
    let ?e = "d_suicideChange a False (dl_Vote (dob_data o1))"
    from False k assms(2) have t: "t = d_write (o1\<lparr>dob_data := (dob_data o1)\<lparr>dl_Delete := True\<rparr>\<rparr>) (d_append_journal ?e s)"
      by simp
    then have "d_undo ?e t = Some t"
      using inv(1) by (simp add: d_GetStateObject_def d_write_def)
    with t show ?thesis by (intro conjI exI[of _ "[?e]"] exI[of _ t]) auto
  qed
qed

text \<open>C16: what the journal of the delegates does not cover. After \<open>RevertToSnapshot\<close> the votes added,
  subtracted or set since the snapshot are still there, and a delegate that was cancelled stays
  cancelled: the entry written by \<open>Suicide\<close> looks the delegate up with the function that skips
  cancelled ones, and so undoes nothing.\<close>

theorem delegate_revert_keeps_votes:
  assumes "ddb_inv s" "0 \<le> v" "d_revs_ok s" "d_Snapshot s = (rid, s1)"
  shows "(\<exists>u. d_RevertToSnapshot rid (d_AddVote a v s1) = Some u \<and> delegates u = add_votes a v (delegates s)) \<and>
    (\<exists>u. d_RevertToSnapshot rid (d_SubVote a v s1) = Some u \<and> delegates u = sub_votes a v (delegates s)) \<and>
    (\<exists>u. d_RevertToSnapshot rid (d_SetVote a v s1) = Some u \<and> delegates u = set_votes a v (delegates s)) \<and>
    (\<exists>u. d_RevertToSnapshot rid (snd (d_Suicide a s1)) = Some u \<and> delegates u = cancel a (delegates s))"
proof -
  note f = d_Snapshot_facts[OF assms(4)]
  have inv: "ddb_inv s1" using assms(1) f(5) by simp
  have ref: "delegates (d_AddVote a v s1) = add_votes a v (delegates s)"
    "delegates (d_SubVote a v s1) = sub_votes a v (delegates s)"
    "delegates (d_SetVote a v s1) = set_votes a v (delegates s)"
    "delegates (snd (d_Suicide a s1)) = cancel a (delegates s)"
    using delegates_ops[OF inv assms(2)] f(4) by simp_all
  obtain es t' where S: "d_validRevisions (snd (d_Suicide a s1)) = d_validRevisions s1"
      "d_journal (snd (d_Suicide a s1)) = d_journal s1 @ es"
      "undo_list d_undo (rev es) (snd (d_Suicide a s1)) = Some t'" "delegates t' = delegates (snd (d_Suicide a s1))"
    using Suicide_undo[OF inv refl, of a] by blast
  show ?thesis
    using d_revert_silent[OF assms(4,3), of "d_AddVote a v s1"] d_revert_silent[OF assms(4,3), of "d_SubVote a v s1"]
      d_revert_silent[OF assms(4,3), of "d_SetVote a v s1"] vote_ops_silent[OF inv, of a v] ref
      d_revert[OF assms(4,3) S(1-3)] S(4)
    by simp
qed

theorem delegate_revert_keeps_votes_witness:
  "\<exists>u. d_RevertToSnapshot 0 (d_AddVote 1 5 (snd (d_Snapshot two_delegates))) = Some u \<and>
     delegates u 1 = Some \<lparr>votes = 14, nick = ''a'', since = 10, cancelled = False\<rparr>"
proof -
  have "d_nextRevisionId two_delegates = 0" by code_simp
  then have "d_Snapshot two_delegates = (0, snd (d_Snapshot two_delegates))" by (simp add: d_Snapshot_def)
  moreover have "d_revs_ok two_delegates" by (simp add: d_revs_ok_def two_delegates_objects(3))
  ultimately show ?thesis
    using delegate_revert_keeps_votes[OF two_delegates_inv, of 5 0 "snd (d_Snapshot two_delegates)" 1]
    by (auto simp: two_delegates_objects add_votes_def)
qed

text \<open>C17: undoing a second registration loses the delegate. Registering a cancelled delegate again
  journals the creation of a new object; undoing it drops the object, votes included. If the trie
  holds the cancelled delegate, the next lookup loads it and takes it for a registered one.\<close>

theorem reregister_revert_drops_delegate:
  assumes inv: "ddb_inv s" and a: "delegateObjects s a = Some o1" "dl_Delete (dob_data o1)"
    and snap: "d_revs_ok s" "d_Snapshot s = (rid, s1)"
  shows "fst (d_Exist a s) = False \<and> (\<exists>u. d_RevertToSnapshot rid (d_GetOrNewStateObject a n t s1) = Some u \<and>
    delegates u = (delegates s)(a := None) \<and> (\<forall>d. d_trie s a = DStored d \<longrightarrow> fst (d_Exist a u) = True))"
proof -
  note f = d_Snapshot_facts[OF snap(2)]
  have inv1: "ddb_inv s1" and a1: "delegateObjects s1 a = Some o1" using inv a f by simp_all
  obtain o2 p s2 where c: "d_createObject a n t s1 = (o2, p, s2)" by (cases "d_createObject a n t s1")
  have k: "delegates s2 = (delegates s1)(a \<mapsto> \<lparr>votes = 0, nick = n, since = t, cancelled = False\<rparr>)" "ddb_inv s2"
      "delegateObjects s2 a = Some o2" "d_journal s2 = d_journal s1 @ [d_createObjectChange a]" "d_trie s2 = d_trie s1"
    using create_known[OF inv1 _ c] a1 a(2) by auto
  have revs2: "d_validRevisions s2 = d_validRevisions s1"
    using c d_lookup(1)[OF inv1 a1] a(2) by (auto simp: d_createObject_def d_newObject_def d_setStateObject_def
        d_MarkStateObjectDirty_def)
  define t2 where "t2 = d_GetOrNewStateObject a n t s1"
  have t2: "t2 = d_AddVote a (dl_Vote (dob_data o1)) s2"
    using d_lookup(2)[OF inv1 a1] a(2) c by (simp add: t2_def d_GetOrNewStateObject_def)
  note silent = vote_ops_silent(1)[OF k(2), of a "dl_Vote (dob_data o1)"]
  have other: "delegates t2 = (delegates s)(a := delegates t2 a)" "d_trie t2 = d_trie s"
    using vote_ops_known(1)[OF k(2,3), of "dl_Vote (dob_data o1)"] k(1,5) f(4,7) ddb_invD(1)[OF k(2,3)]
    by (auto simp: t2 view_simps fun_eq_iff split: if_splits)
  define t3 where "t3 = t2\<lparr>delegateObjects := (delegateObjects t2)(a := None),
      delegateObjectsDirty := delegateObjectsDirty t2 - {a}\<rparr>"
  have rev: "d_RevertToSnapshot rid t2 = Some (t3\<lparr>d_journal := d_journal s, d_validRevisions := d_validRevisions s\<rparr>)"
    by (rule d_revert[OF snap(2,1), where es = "[d_createObjectChange a]"])
      (use silent revs2 k(4) t2 in \<open>simp_all add: t3_def\<close>)
  have "delegates t3 = (delegates s)(a := None)"
    using other(1) by (simp add: t3_def delegates_def fun_eq_iff)
  moreover have "fst (d_Exist a (t3\<lparr>d_journal := j, d_validRevisions := r\<rparr>)) = True" if "d_trie s a = DStored d" for d j r
    using that other(2) by (simp add: d_Exist_def d_GetStateObject_def t3_def d_newObject_def)
  moreover have "fst (d_Exist a s) = False" using d_lookup(1)[OF inv a(1)] a(2) by (simp add: d_Exist_def)
  ultimately show ?thesis using rev by (auto simp: t2_def)
qed

theorem reregister_revert_drops_delegate_witness:
  "\<exists>u. d_RevertToSnapshot 0 (d_GetOrNewStateObject 2 ''c'' 30 (snd (d_Snapshot two_delegates))) = Some u \<and>
     delegates two_delegates 2 \<noteq> None \<and> delegates u 2 = None"
proof -
  have "d_nextRevisionId two_delegates = 0" by code_simp
  then have "d_Snapshot two_delegates = (0, snd (d_Snapshot two_delegates))" by (simp add: d_Snapshot_def)
  moreover have "d_revs_ok two_delegates" by (simp add: d_revs_ok_def two_delegates_objects(3))
  moreover from two_delegates_objects(1) obtain o1 where "delegateObjects two_delegates 2 = Some o1" "dl_Delete (dob_data o1)"
    by (fastforce simp: delegates_def fun_eq_iff delegate_of_def dest: spec[of _ 2])
  ultimately show ?thesis
    using reregister_revert_drops_delegate[OF two_delegates_inv, of 2 o1 0 "snd (d_Snapshot two_delegates)" "''c''" 30]
    by (auto simp: two_delegates_objects)
qed

section \<open>The list of candidates\<close>

lemma distinct_concat_map:
  assumes "distinct ks" "\<And>k. distinct (f k)" "\<And>k k' c. c \<in> set (f k) \<Longrightarrow> c \<in> set (f k') \<Longrightarrow> k = k'"
  shows "distinct (concat (map f ks))"
  using assms(1)
proof (induction ks)
  case (Cons k ks)
  have "set (f k) \<inter> set (concat (map f ks)) = {}"
    using Cons.prems assms(3)[of _ k] by (auto simp del: distinct.simps) (metis distinct.simps(2))
  then show ?case using Cons assms(2) by simp
qed simp

lemma Hex_inj: "Hex sha3 a = Hex sha3 b \<Longrightarrow> a = b"
  using address_roundtrip DecodeString_Encode by (metis Hex_eq append_same_eq fst_conv same_append_eq)

lemma cand_Less_total:
  assumes "inj_on c_Address A"
  shows "strict_total_on A cand_Less"
  unfolding strict_total_on_def
proof (intro conjI ballI impI)
  fix x y z assume "x \<in> A" "y \<in> A" "z \<in> A" and "cand_Less x y" "cand_Less y z"
  then show "cand_Less x z"
    by (auto simp: cand_Less_def split: if_splits)
next
  fix x y assume "x \<in> A" "y \<in> A" "x \<noteq> y"
  then have "c_Address x \<noteq> c_Address y" using assms by (auto dest: inj_onD)
  then show "cand_Less x y \<or> cand_Less y x"
    by (auto simp: cand_Less_def)
qed (simp add: cand_Less_def)

definition live_candidates :: "(string \<Rightarrow> byte list) \<Rightarrow> DelegateDB \<Rightarrow> Candidate set" where
  "live_candidates sha3 s = {candidate_of sha3 a o1 | a o1. delegateObjects s a = Some o1 \<and>
     \<not> dl_Delete (dob_data o1) \<and> \<not> dob_suicided o1}"

lemma GetDelegates_sorted:
  assumes ord: "distinct ord" "set ord = dom (delegateObjects s)"
  shows "set (GetDelegates sha3 ord s) = live_candidates sha3 s" "sorted_wrt cand_Less (GetDelegates sha3 ord s)"
    "inj_on c_Address (live_candidates sha3 s)"
proof -
  let ?f = "\<lambda>k. case delegateObjects s k of None \<Rightarrow> []
      | Some v \<Rightarrow> if dl_Delete (dob_data v) \<or> dob_suicided v then [] else [candidate_of sha3 k v]"
  let ?l = "concat (map ?f ord)"
  show inj: "inj_on c_Address (live_candidates sha3 s)"
    by (auto simp: inj_on_def live_candidates_def candidate_of_def dest!: Hex_inj)
  have set: "set ?l = live_candidates sha3 s"
  proof (intro set_eqI iffI)
    fix x assume "x \<in> live_candidates sha3 s"
    then obtain a o1 where a: "x = candidate_of sha3 a o1" "delegateObjects s a = Some o1"
        "\<not> dl_Delete (dob_data o1)" "\<not> dob_suicided o1"
      by (auto simp: live_candidates_def)
    then have "a \<in> set ord" "x \<in> set (?f a)" using ord(2) by auto
    then show "x \<in> set ?l" unfolding set_concat set_map by blast
  qed (auto simp: live_candidates_def split: option.splits if_splits intro: sym)
  have addr: "c \<in> set (?f k) \<Longrightarrow> c_Address c = Hex sha3 k" for c k
    by (auto simp: candidate_of_def split: option.splits if_splits)
  have dist: "distinct ?l"
  proof (rule distinct_concat_map[OF ord(1)])
    show "distinct (?f k)" for k by (simp split: option.split)
    show "k = k'" if "c \<in> set (?f k)" "c \<in> set (?f k')" for c k k'
      using addr[OF that(1)] addr[OF that(2)] by (intro Hex_inj[of sha3]) simp
  qed
  have sorted: "sorted_wrt cand_Less (sort_by cand_Less ?l)"
    using sorted_sort_by[OF cand_Less_total[OF inj] _ dist] set by simp
  have "sorted_wrt cand_Less l" if "\<not> 1 < length l" for l
    using that by (cases l) auto
  then have short: "\<not> 1 < length ?l \<Longrightarrow> sorted_wrt cand_Less ?l" .
  show "set (GetDelegates sha3 ord s) = live_candidates sha3 s"
    using set by (simp add: GetDelegates_def Let_def)
  show "sorted_wrt cand_Less (GetDelegates sha3 ord s)"
    using sorted short by (simp add: GetDelegates_def Let_def)
qed

text \<open>C18: the list of candidates does not depend on the order in which the objects are visited, nor
  on the sorting algorithm: it is the only list of the delegates that are not cancelled in the order
  of \<open>CandidateSlice\<close>, which is a strict total order because addresses differ. All nodes that hold
  the same delegates elect from the same list.\<close>

theorem candidates_unique:
  assumes "distinct ord" "set ord = dom (delegateObjects s)" "distinct ord'" "set ord' = dom (delegateObjects s)"
    "set cs = live_candidates sha3 s" "sorted_wrt cand_Less cs"
  shows "GetDelegates sha3 ord s = cs \<and> GetDelegates sha3 ord' s = GetDelegates sha3 ord s \<and>
    strict_total_on (live_candidates sha3 s) cand_Less"
proof -
  note g = GetDelegates_sorted[OF assms(1,2), of sha3] and g' = GetDelegates_sorted[OF assms(3,4), of sha3]
  note total = cand_Less_total[OF g(3)]
  have "GetDelegates sha3 o1 s = cs" if "set (GetDelegates sha3 o1 s) = live_candidates sha3 s"
      "sorted_wrt cand_Less (GetDelegates sha3 o1 s)" for o1
    by (rule sorted_unique[OF total]) (use that assms(5,6) in simp_all)
  from this[OF g(1,2)] this[OF g'(1,2)] show ?thesis using total by simp
qed

theorem candidates_unique_witness:
  "GetDelegates (\<lambda>_. []) [1, 2] two_delegates = GetDelegates (\<lambda>_. []) [2, 1] two_delegates"
proof -
  have dom: "dom (delegateObjects two_delegates) = {1, 2}"
    using arg_cong[OF two_delegates_objects(1), of dom] by (auto simp: delegates_def dom_def)
  note g = GetDelegates_sorted[of "[1, 2]" two_delegates "\<lambda>_. []"]
  show ?thesis
    using candidates_unique[of "[1, 2]" two_delegates "[2, 1]" "GetDelegates (\<lambda>_. []) [1, 2] two_delegates" "\<lambda>_. []"] g dom
    by (simp add: insert_commute)
qed

end
