(* ===== verification/Voting.thy ===== *)
theory Voting
  imports State_Commit Delegate_Votes
begin

text \<open>
  Voting for delegates, the voter's side: \<open>Vote\<close> and \<open>changeVoteList\<close> of \<open>core/evm.go\<close>, which
  change the voter's account.

  \<open>changeVoteList\<close> works on the slice of the voter's account itself. The model keeps the backing
  array of that slice (its elements and its spare capacity) next to the list the code sees, and says
  what the account's slice holds afterwards.
\<close>

section \<open>The list of votes of an account\<close>

record Vote =
  vt_Candidate :: "address option"
  vt_Operation :: uint64

definition Aoa :: int where
  "Aoa = 10 ^ 18"

fun sliceContains :: "address \<Rightarrow> address list \<Rightarrow> nat option" where
  "sliceContains a [] = None"
| "sliceContains a (x # xs) = (if a = x then Some 0 else map_option Suc (sliceContains a xs))"

text \<open>A slice: the backing array it started with, the elements it has now, and whether the two still
  share memory.\<close>

record slice =
  arr :: "address list"
  cur :: "address list"
  shared :: bool

definition slice_append :: "slice \<Rightarrow> address \<Rightarrow> slice" where
  "slice_append sl x =
     (if shared sl \<and> length (cur sl) < length (arr sl)
      then \<lparr>arr = (arr sl)[length (cur sl) := x], cur = cur sl @ [x], shared = True\<rparr>
      else \<lparr>arr = arr sl, cur = cur sl @ [x], shared = False\<rparr>)"

text \<open>\<open>append(s[:j], s[j+1:]...)\<close> fits and so writes in place; the last element is left behind.\<close>

definition slice_remove :: "slice \<Rightarrow> nat \<Rightarrow> slice" where
  "slice_remove sl j =
     (let c = remove_at j (cur sl) in
      sl\<lparr>arr := (if shared sl then c @ drop (length c) (arr sl) else arr sl), cur := c\<rparr>)"

datatype 'a vote_result = VotePanic | ErrVote | VoteOk 'a

fun changeVoteList_loop ::
  "(address \<rightharpoonup> Candidate) \<Rightarrow> Vote list \<Rightarrow> slice \<Rightarrow> int \<Rightarrow> (address list \<times> int) vote_result \<times> slice" where
  "changeVoteList_loop dl [] sl diff = (VoteOk (cur sl, diff), sl)"
| "changeVoteList_loop dl (vote # vs) sl diff =
     (if vt_Operation vote = 0 then
        (case vt_Candidate vote of
           None \<Rightarrow> (VotePanic, sl)
         | Some c \<Rightarrow>
             (case sliceContains c (cur sl) of
                None \<Rightarrow> if dl c = None then (ErrVote, sl)
                        else changeVoteList_loop dl vs (slice_append sl c) (diff + 1)
              | Some _ \<Rightarrow> (ErrVote, sl)))
      else if vt_Operation vote = 1 then
        (case vt_Candidate vote of
           None \<Rightarrow> (VotePanic, sl)
         | Some c \<Rightarrow>
             (case sliceContains c (cur sl) of
                Some j \<Rightarrow> changeVoteList_loop dl vs (slice_remove sl j) (diff - 1)
              | None \<Rightarrow> (ErrVote, sl)))
      else (ErrVote, sl))"

text \<open>The caller's slice keeps its length; \<open>spare\<close> is what its backing array holds beyond it. The
  second component is what the caller's slice reads afterwards.\<close>

definition changeVoteList ::
  "address list \<Rightarrow> address list \<Rightarrow> Vote list \<Rightarrow> (address \<rightharpoonup> Candidate) \<Rightarrow>
   (address list \<times> int) vote_result \<times> address list" where
  "changeVoteList spare prevVoteList curVoteList delegateList =
     (case changeVoteList_loop delegateList curVoteList
             \<lparr>arr = prevVoteList @ spare, cur = prevVoteList, shared = True\<rparr> 0 of
        (r, sl) \<Rightarrow>
          (case r of VoteOk (l, diff) \<Rightarrow> VoteOk (l, diff * Aoa) | ErrVote \<Rightarrow> ErrVote | VotePanic \<Rightarrow> VotePanic,
           take (length prevVoteList) (arr sl)))"

text \<open>Writing through the shared array: no journal entry, no dirty mark.\<close>

definition poke_votes :: "address \<Rightarrow> address list \<Rightarrow> StateDB \<Rightarrow> StateDB" where
  "poke_votes a l s =
     (case stateObjects s a of
        None \<Rightarrow> s
      | Some o1 \<Rightarrow> if so_deleted o1 then s
                   else setStateObject (o1\<lparr>so_data := (so_data o1)\<lparr>acc_VoteList := l\<rparr>\<rparr>) s)"

definition evm_Vote ::
  "backend \<Rightarrow> address list \<Rightarrow> address \<Rightarrow> Vote list \<Rightarrow> (address \<rightharpoonup> Candidate) \<Rightarrow> int \<Rightarrow> StateDB \<Rightarrow>
   (unit vote_result \<times> StateDB)" where
  "evm_Vote D spare user vs delegateList maxElectDelegate s =
     (let (prev, s1) = GetVoteList user s;
          (r, seen) = changeVoteList spare prev vs delegateList;
          s2 = poke_votes user seen s1 in
      case r of
        VotePanic \<Rightarrow> (VotePanic, s2)
      | ErrVote \<Rightarrow> (ErrVote, s2)
      | VoteOk (newVoteList, diff) \<Rightarrow>
          (let (lock, s3) = GetLockBalance user s2 in
           case lock of
             None \<Rightarrow> (VotePanic, s3)
           | Some l \<Rightarrow>
               if Aoa * maxElectDelegate < l + diff then (ErrVote, s3)
               else
                 (let s4 = SubBalance D user diff s3 in
                  case AddLockBalance D user diff s4 of
                    None \<Rightarrow> (VotePanic, s4)
                  | Some s5 \<Rightarrow> (VoteOk (), SetVoteList D user newVoteList s5))))"

section \<open>Properties of the vote list\<close>

text \<open>The list the code sees, without the aliasing.\<close>

fun apply_votes :: "(address \<Rightarrow> bool) \<Rightarrow> Vote list \<Rightarrow> address list \<Rightarrow> address list vote_result" where
  "apply_votes known [] l = VoteOk l"
| "apply_votes known (v # vs) l =
     (if vt_Operation v = 0 then
        (case vt_Candidate v of
           None \<Rightarrow> VotePanic
         | Some c \<Rightarrow> if c \<in> set l \<or> \<not> known c then ErrVote else apply_votes known vs (l @ [c]))
      else if vt_Operation v = 1 then
        (case vt_Candidate v of
           None \<Rightarrow> VotePanic
         | Some c \<Rightarrow> if c \<in> set l then apply_votes known vs (remove1 c l) else ErrVote)
      else ErrVote)"

lemma sliceContains_None: "sliceContains a xs = None \<longleftrightarrow> a \<notin> set xs"
  by (induction xs) auto

lemma sliceContains_Some:
  "sliceContains a xs = Some j \<Longrightarrow> j < length xs \<and> xs ! j = a \<and> remove_at j xs = remove1 a xs"
proof (induction xs arbitrary: j)
  case (Cons x xs)
  then show ?case by (cases "a = x") (auto simp: remove_at_def)
qed simp

lemma cur_slice_ops [simp]:
  "cur (slice_append sl x) = cur sl @ [x]" "cur (slice_remove sl j) = remove_at j (cur sl)"
  by (simp_all add: slice_append_def slice_remove_def Let_def)

lemma changeVoteList_loop_eq:
  "fst (changeVoteList_loop dl vs sl diff) =
     (case apply_votes (\<lambda>c. dl c \<noteq> None) vs (cur sl) of
        VoteOk l \<Rightarrow> VoteOk (l, diff + int (length l) - int (length (cur sl)))
      | ErrVote \<Rightarrow> ErrVote | VotePanic \<Rightarrow> VotePanic)"
proof (induction dl vs sl diff rule: changeVoteList_loop.induct)
  case (2 dl vote vs sl diff)
  have rm: "length (remove1 c (cur sl)) = length (cur sl) - 1 \<and> 0 < length (cur sl)" if "c \<in> set (cur sl)" for c
    using that by (auto simp: length_remove1)
  show ?case
  proof (cases "vt_Candidate vote")
    case (Some c)
    show ?thesis
    proof (cases "sliceContains c (cur sl)")
      case None
      then have "c \<notin> set (cur sl)" by (simp add: sliceContains_None)
      with None show ?thesis using 2 Some by (auto split: vote_result.splits)
    next
      case j: (Some j)
      note sc = sliceContains_Some[OF j]
      then have "c \<in> set (cur sl)" by auto
      then show ?thesis using 2 Some j sc rm[of c]
        by (auto split: vote_result.splits simp: of_nat_diff Suc_leI)
    qed
  qed (simp split: vote_result.split)
qed simp

lemma apply_votes_distinct:
  "apply_votes known vs l = VoteOk l' \<Longrightarrow> distinct l \<Longrightarrow> distinct l'"
  by (induction known vs l rule: apply_votes.induct) (auto split: if_splits option.splits)

lemma changeVoteList_result:
  "fst (changeVoteList spare prev vs dl) =
     (case apply_votes (\<lambda>c. dl c \<noteq> None) vs prev of
        VoteOk l \<Rightarrow> VoteOk (l, (int (length l) - int (length prev)) * Aoa)
      | ErrVote \<Rightarrow> ErrVote | VotePanic \<Rightarrow> VotePanic)"
  using changeVoteList_loop_eq[of dl vs "\<lparr>arr = prev @ spare, cur = prev, shared = True\<rparr>" 0]
  by (cases "changeVoteList_loop dl vs \<lparr>arr = prev @ spare, cur = prev, shared = True\<rparr> 0")
    (auto simp: changeVoteList_def split: vote_result.splits)

text \<open>C19: \<open>changeVoteList\<close> computes, through all its slice surgery, the list that applying the votes
  one by one gives: a vote for a known candidate not yet voted for appends it, a withdrawn vote
  removes the candidate, anything else is refused. A list without duplicates stays without, and the
  amount to lock is one AOA for every vote the list grew by.\<close>

theorem change_vote_list:
  "fst (changeVoteList spare prev vs dl) =
     (case apply_votes (\<lambda>c. dl c \<noteq> None) vs prev of
        VoteOk l \<Rightarrow> VoteOk (l, (int (length l) - int (length prev)) * Aoa)
      | ErrVote \<Rightarrow> ErrVote | VotePanic \<Rightarrow> VotePanic) \<and>
   (\<forall>l diff. fst (changeVoteList spare prev vs dl) = VoteOk (l, diff) \<and> distinct prev \<longrightarrow> distinct l)"
  using changeVoteList_result[of spare prev vs dl]
  by (auto simp: apply_votes_distinct split: vote_result.splits)

theorem change_vote_list_witness:
  "fst (changeVoteList [] [1, 2] [\<lparr>vt_Candidate = Some 1, vt_Operation = 1\<rparr>, \<lparr>vt_Candidate = Some 3, vt_Operation = 0\<rparr>]
     [3 \<mapsto> \<lparr>c_Address = [], c_Vote = 0, c_Nickname = [], c_RegisterTime = 0\<rparr>]) = VoteOk ([2, 3], 0) \<and>
   distinct [2, 3 :: address]"
  using change_vote_list[of "[]" "[1, 2]" "[\<lparr>vt_Candidate = Some 1, vt_Operation = 1\<rparr>, \<lparr>vt_Candidate = Some 3, vt_Operation = 0\<rparr>]"
      "[3 \<mapsto> \<lparr>c_Address = [], c_Vote = 0, c_Nickname = [], c_RegisterTime = 0\<rparr>]"]
  by simp

text \<open>The voter's object after the calls that read it.\<close>

definition poked :: "address \<Rightarrow> address list \<Rightarrow> StateDB \<Rightarrow> StateDB" where
  "poked user l s = poke_votes user l (snd (getStateObject user s))"

lemma vote_object:
  assumes inv: "sdb_inv s" and o1: "peek s user = Some o1"
    and r: "changeVoteList spare (acc_VoteList (so_data o1)) vs dl = (r, seen)"
  shows "stateObjects (poked user seen s) user = Some (o1\<lparr>so_data := (so_data o1)\<lparr>acc_VoteList := seen\<rparr>\<rparr>)"
    "\<not> so_deleted o1" "so_address o1 = user" "sdb_inv (poked user seen s)"
    "b \<noteq> user \<Longrightarrow> peek (poked user seen s) b = peek s b" "journal (poked user seen s) = journal s"
    "evm_Vote D spare user vs dl maxE s =
      (case r of
        VotePanic \<Rightarrow> (VotePanic, poked user seen s)
      | ErrVote \<Rightarrow> (ErrVote, poked user seen s)
      | VoteOk (newVoteList, diff) \<Rightarrow>
          (case acc_LockBalance (so_data o1) of
             None \<Rightarrow> (VotePanic, poked user seen s)
           | Some l \<Rightarrow>
               if Aoa * maxE < l + diff then (ErrVote, poked user seen s)
               else (case AddLockBalance D user diff (SubBalance D user diff (poked user seen s)) of
                    None \<Rightarrow> (VotePanic, SubBalance D user diff (poked user seen s))
                  | Some s5 \<Rightarrow> (VoteOk (), SetVoteList D user newVoteList s5))))"
proof -
  obtain x s1 where g: "getStateObject user s = (x, s1)" by fastforce
  note pk = getStateObject_peek[OF g] and inv1 = getStateObject_inv[OF g inv]
  have x: "x = Some o1" using pk o1 by simp
  have live: "live o1 s1" "so_address o1 = user" using getStateObject_live[of user s o1 s1] g x inv by auto
  define o2 where "o2 = o1\<lparr>so_data := (so_data o1)\<lparr>acc_VoteList := seen\<rparr>\<rparr>"
  have s2: "poked user seen s = setStateObject o2 s1"
    using live g by (simp add: poked_def poke_votes_def live_def o2_def)
  show obj: "stateObjects (poked user seen s) user = Some (o1\<lparr>so_data := (so_data o1)\<lparr>acc_VoteList := seen\<rparr>\<rparr>)"
    "\<not> so_deleted o1" "so_address o1 = user" "sdb_inv (poked user seen s)"
    "journal (poked user seen s) = journal s"
    using live live_write_inv(2)[OF live(1) inv1, of o2] getStateObject_frame(2)[OF g]
    by (auto simp: s2 o2_def live_def)
  show "peek (poked user seen s) b = peek s b" if "b \<noteq> user"
    using that pk(1) live(2) by (simp add: s2 o2_def peek_eq fun_eq_iff)
  have "GetVoteList user s = (acc_VoteList (so_data o1), s1)" using g x by (simp add: GetVoteList_def)
  moreover have "poke_votes user seen s1 = poked user seen s" using g by (simp add: poked_def)
  moreover have "GetLockBalance user (poked user seen s) = (acc_LockBalance (so_data o1), poked user seen s)"
    using read_object(1)[OF obj(1)] obj(2) by (simp add: GetLockBalance_def)
  ultimately show "evm_Vote D spare user vs dl maxE s =
      (case r of
        VotePanic \<Rightarrow> (VotePanic, poked user seen s)
      | ErrVote \<Rightarrow> (ErrVote, poked user seen s)
      | VoteOk (newVoteList, diff) \<Rightarrow>
          (case acc_LockBalance (so_data o1) of
             None \<Rightarrow> (VotePanic, poked user seen s)
           | Some l \<Rightarrow>
               if Aoa * maxE < l + diff then (ErrVote, poked user seen s)
               else (case AddLockBalance D user diff (SubBalance D user diff (poked user seen s)) of
                    None \<Rightarrow> (VotePanic, SubBalance D user diff (poked user seen s))
                  | Some s5 \<Rightarrow> (VoteOk (), SetVoteList D user newVoteList s5))))"
    by (simp add: evm_Vote_def r Let_def split: vote_result.split option.split)
qed

lemma dirty_tryMarkDirty:
  "stateObjectsDirty (tryMarkDirty o1 s) =
     (if so_onDirty o1 then insert (so_address o1) (stateObjectsDirty s) else stateObjectsDirty s)"
  by (simp add: tryMarkDirty_def MarkStateObjectDirty_def)

lemma db_writes_object:
  assumes "stateObjects s a = Some o1" "\<not> so_deleted o1" "so_address o1 = a"
  shows "\<exists>o2. stateObjects (SubBalance D a v s) a = Some o2 \<and> \<not> so_deleted o2 \<and> so_address o2 = a \<and>
      so_data o2 = (so_data o1)\<lparr>acc_Balance := acc_Balance (so_data o1) - v\<rparr> \<and> so_suicided o2 = so_suicided o1 \<and>
      (\<forall>b. b \<noteq> a \<longrightarrow> peek (SubBalance D a v s) b = peek s b) \<and>
      (v \<noteq> 0 \<and> (so_onDirty o1 \<or> a \<in> stateObjectsDirty s) \<longrightarrow> a \<in> stateObjectsDirty (SubBalance D a v s))"
    "acc_LockBalance (so_data o1) = Some l \<Longrightarrow> \<exists>t o2. AddLockBalance D a v s = Some t \<and> stateObjects t a = Some o2 \<and>
      \<not> so_deleted o2 \<and> so_address o2 = a \<and> so_data o2 = (so_data o1)\<lparr>acc_LockBalance := Some (l + v)\<rparr> \<and>
      so_suicided o2 = so_suicided o1 \<and> (\<forall>b. b \<noteq> a \<longrightarrow> peek t b = peek s b) \<and>
      (a \<in> stateObjectsDirty s \<longrightarrow> a \<in> stateObjectsDirty t)"
    "\<exists>o2. stateObjects (SetVoteList D a vs s) a = Some o2 \<and> \<not> so_deleted o2 \<and> so_address o2 = a \<and>
      so_data o2 = (so_data o1)\<lparr>acc_VoteList := vs\<rparr> \<and> so_suicided o2 = so_suicided o1 \<and>
      (\<forall>b. b \<noteq> a \<longrightarrow> peek (SetVoteList D a vs s) b = peek s b) \<and>
      (a \<in> stateObjectsDirty s \<longrightarrow> a \<in> stateObjectsDirty (SetVoteList D a vs s))"
  using assms read_object(2)[OF assms(1,2)]
  by (auto simp: SubBalance_def obj_SubBalance_def obj_SetBalance_def AddLockBalance_def obj_AddLockBalance_def
      obj_SetLockBalance_def SetVoteList_def obj_SetVoteList_def setter_defs touch_def peek_eq dirty_tryMarkDirty)

lemma vote_success:
  assumes inv: "sdb_inv s" and o1: "peek s user = Some o1" "acc_LockBalance (so_data o1) = Some l"
    and ok: "apply_votes (\<lambda>c. dl c \<noteq> None) vs (acc_VoteList (so_data o1)) = VoteOk vl"
    and diff: "diff = (int (length vl) - int (length (acc_VoteList (so_data o1)))) * Aoa" "l + diff \<le> Aoa * maxE"
  obtains t o2 where "evm_Vote D spare user vs dl maxE s = (VoteOk (), t)" "stateObjects t user = Some o2"
    "\<not> so_deleted o2" "so_data o2 = (so_data o1)\<lparr>acc_Balance := acc_Balance (so_data o1) - diff,
      acc_LockBalance := Some (l + diff), acc_VoteList := vl\<rparr>" "so_suicided o2 = so_suicided o1"
    "\<And>b. b \<noteq> user \<Longrightarrow> peek t b = peek s b" "sdb_inv t"
proof -
  obtain r seen where r: "changeVoteList spare (acc_VoteList (so_data o1)) vs dl = (r, seen)" by fastforce
  have r': "r = VoteOk (vl, diff)"
    using changeVoteList_result[of spare "acc_VoteList (so_data o1)" vs dl] r ok diff(1) by simp
  define o2 s2 where "o2 = o1\<lparr>so_data := (so_data o1)\<lparr>acc_VoteList := seen\<rparr>\<rparr>" and "s2 = poked user seen s"
  have s2: "o2 = o1\<lparr>so_data := (so_data o1)\<lparr>acc_VoteList := seen\<rparr>\<rparr>"
      "stateObjects s2 user = Some o2" "\<not> so_deleted o2" "so_address o2 = user"
      "\<And>b. b \<noteq> user \<Longrightarrow> peek s2 b = peek s b"
      "evm_Vote D spare user vs dl maxE s =
        (case AddLockBalance D user diff (SubBalance D user diff s2) of
                    None \<Rightarrow> (VotePanic, SubBalance D user diff s2)
                  | Some s5 \<Rightarrow> (VoteOk (), SetVoteList D user vl s5))"
    unfolding o2_def s2_def using vote_object[OF inv o1(1) r] r' o1(2) diff(2) by simp_all
  obtain o3 where o3: "stateObjects (SubBalance D user diff s2) user = Some o3" "\<not> so_deleted o3" "so_address o3 = user"
      "so_data o3 = (so_data o2)\<lparr>acc_Balance := acc_Balance (so_data o2) - diff\<rparr>" "so_suicided o3 = so_suicided o2"
      "\<And>b. b \<noteq> user \<Longrightarrow> peek (SubBalance D user diff s2) b = peek s2 b"
    using db_writes_object(1)[OF s2(2-4), of D diff] by blast
  have "acc_LockBalance (so_data o3) = Some l" using o3(4) s2(1) o1(2) by simp
  then obtain s5 o4 where o4: "AddLockBalance D user diff (SubBalance D user diff s2) = Some s5" "stateObjects s5 user = Some o4"
      "\<not> so_deleted o4" "so_address o4 = user" "so_data o4 = (so_data o3)\<lparr>acc_LockBalance := Some (l + diff)\<rparr>"
      "so_suicided o4 = so_suicided o3" "\<And>b. b \<noteq> user \<Longrightarrow> peek s5 b = peek (SubBalance D user diff s2) b"
    using db_writes_object(2)[OF o3(1-3), of l D diff] by blast
  obtain o5 where o5: "stateObjects (SetVoteList D user vl s5) user = Some o5" "\<not> so_deleted o5"
      "so_data o5 = (so_data o4)\<lparr>acc_VoteList := vl\<rparr>" "so_suicided o5 = so_suicided o4"
      "\<And>b. b \<noteq> user \<Longrightarrow> peek (SetVoteList D user vl s5) b = peek s5 b"
    using db_writes_object(3)[OF o4(2-4), of D vl] by blast
  have "sdb_inv (SubBalance D user diff s2)"
    using reverts_inv[OF reverts_writes(2)] vote_object(4)[OF inv o1(1) r] s2_def by blast
  then have "sdb_inv s5" using reverts_inv[OF reverts_writes(8)[OF _ o4(1)]] by blast
  then have "sdb_inv (SetVoteList D user vl s5)" using reverts_inv[OF reverts_writes(4)] by blast
  then show thesis
    by (intro that[of "SetVoteList D user vl s5" o5]) (use s2 o3 o4 o5 in \<open>simp_all\<close>)
qed

lemma vote_refused:
  assumes inv: "sdb_inv s" and o1: "peek s user = Some o1" "acc_LockBalance (so_data o1) = Some l"
    and ok: "apply_votes (\<lambda>c. dl c \<noteq> None) vs (acc_VoteList (so_data o1)) = VoteOk vl"
    and diff: "diff = (int (length vl) - int (length (acc_VoteList (so_data o1)))) * Aoa" "\<not> l + diff \<le> Aoa * maxE"
  obtains t seen where "evm_Vote D spare user vs dl maxE s = (ErrVote, t)"
    "peek t user = Some (o1\<lparr>so_data := (so_data o1)\<lparr>acc_VoteList := seen\<rparr>\<rparr>)" "\<And>b. b \<noteq> user \<Longrightarrow> peek t b = peek s b"
proof -
  obtain r seen where r: "changeVoteList spare (acc_VoteList (so_data o1)) vs dl = (r, seen)" by fastforce
  have r': "r = VoteOk (vl, diff)"
    using changeVoteList_result[of spare "acc_VoteList (so_data o1)" vs dl] r ok diff(1) by simp
  note v = vote_object[OF inv o1(1) r]
  show thesis
    by (rule that[of "poked user seen s" seen]) (use v r' o1(2) diff(2) in \<open>simp_all add: peek_eq\<close>)
qed

text \<open>C20: a vote whose changes to the voter's list are all valid. It is accepted exactly when the lock
  balance it leads to is within one AOA per elected delegate. Then the voter's balance and lock balance have moved by
  one AOA for every vote added or withdrawn, their sum is unchanged, the new list is stored, the rest of the voter's
  account data and every other account are unchanged, and if the lock was one AOA per vote before it is so afterwards.
  Otherwise the vote is refused, no balance and no lock balance has changed, and no account but the voter's has.\<close>

theorem vote_conserves:
  assumes "sdb_inv s" "peek s user = Some o1" "acc_LockBalance (so_data o1) = Some l"
    "apply_votes (\<lambda>c. dl c \<noteq> None) vs (acc_VoteList (so_data o1)) = VoteOk vl"
    "diff = (int (length vl) - int (length (acc_VoteList (so_data o1)))) * Aoa"
  shows "\<exists>t. (\<forall>b. b \<noteq> user \<longrightarrow> peek t b = peek s b) \<and>
    (if l + diff \<le> Aoa * maxE
     then evm_Vote D spare user vs dl maxE s = (VoteOk (), t) \<and>
       fst (GetBalance user t) = fst (GetBalance user s) - diff \<and> fst (GetLockBalance user t) = Some (l + diff) \<and>
       fst (GetVoteList user t) = vl \<and>
       map_option so_data (peek t user) = Some ((so_data o1)\<lparr>acc_Balance := acc_Balance (so_data o1) - diff,
         acc_LockBalance := Some (l + diff), acc_VoteList := vl\<rparr>) \<and>
       (l = Aoa * int (length (acc_VoteList (so_data o1))) \<longrightarrow> l + diff = Aoa * int (length vl))
     else evm_Vote D spare user vs dl maxE s = (ErrVote, t) \<and>
       fst (GetBalance user t) = fst (GetBalance user s) \<and> fst (GetLockBalance user t) = Some l)"
proof -
  have reads: "fst (GetBalance b u) = (case peek u b of None \<Rightarrow> 0 | Some x \<Rightarrow> acc_Balance (so_data x))"
    "fst (GetLockBalance b u) = (case peek u b of None \<Rightarrow> Some 0 | Some x \<Rightarrow> acc_LockBalance (so_data x))"
    "fst (GetVoteList b u) = (case peek u b of None \<Rightarrow> [] | Some x \<Rightarrow> acc_VoteList (so_data x))" for b u
    by (auto simp: db_read_defs peek_def split: prod.split option.split)
  show ?thesis
  proof (cases "l + diff \<le> Aoa * maxE")
    case True
    obtain t o2 where t: "evm_Vote D spare user vs dl maxE s = (VoteOk (), t)" "stateObjects t user = Some o2"
      "\<not> so_deleted o2" "so_data o2 = (so_data o1)\<lparr>acc_Balance := acc_Balance (so_data o1) - diff,
        acc_LockBalance := Some (l + diff), acc_VoteList := vl\<rparr>" "\<And>b. b \<noteq> user \<Longrightarrow> peek t b = peek s b"
      using vote_success[OF assms True, of D spare] by blast
    have "peek t user = Some o2" using t(2,3) by (simp add: peek_eq)
    then show ?thesis
      using t True assms(2,5) by (intro exI[of _ t]) (simp add: reads algebra_simps)
  next
    case False
    obtain t seen where "evm_Vote D spare user vs dl maxE s = (ErrVote, t)"
      "peek t user = Some (o1\<lparr>so_data := (so_data o1)\<lparr>acc_VoteList := seen\<rparr>\<rparr>)" "\<And>b. b \<noteq> user \<Longrightarrow> peek t b = peek s b"
      using vote_refused[OF assms False, of D spare] by blast
    with False assms(2,3) show ?thesis by (intro exI[of _ t]) (simp add: reads)
  qed
qed

text \<open>A stored account with the given balance, lock and votes.\<close>

definition voter_acc :: "int \<Rightarrow> int \<Rightarrow> address list \<Rightarrow> Account" where
  "voter_acc b l vl = (zeroAccount backend0)\<lparr>acc_Balance := b, acc_LockBalance := Some l, acc_VoteList := vl\<rparr>"

definition voter_db :: "int \<Rightarrow> int \<Rightarrow> address list \<Rightarrow> StateDB" where
  "voter_db b l vl = New ((\<lambda>_. NotFound None)(7 := Stored (voter_acc b l vl)))"

definition known0 :: "address \<rightharpoonup> Candidate" where
  "known0 = [3 \<mapsto> \<lparr>c_Address = [], c_Vote = 0, c_Nickname = [], c_RegisterTime = 0\<rparr>]"

lemma voter_db_ok: "sdb_inv (voter_db b l vl)" "peek (voter_db b l vl) 7 = Some (newObject 7 (voter_acc b l vl))"
  by (auto simp: voter_db_def New_def sdb_inv_def peek_eq find_obj_def voter_acc_def zeroAccount_def NewAssets_def)

lemma voter_acc_simps:
  "acc_Balance (voter_acc b l vl) = b" "acc_LockBalance (voter_acc b l vl) = Some l" "acc_VoteList (voter_acc b l vl) = vl"
  by (simp_all add: voter_acc_def)

theorem vote_conserves_witness:
  "\<exists>t u. evm_Vote backend0 [] 7 [\<lparr>vt_Candidate = Some 3, vt_Operation = 0\<rparr>] known0 101 (voter_db (5 * Aoa) 0 []) = (VoteOk (), t) \<and>
     fst (GetBalance 7 t) = fst (GetBalance 7 (voter_db (5 * Aoa) 0 [])) - Aoa \<and> fst (GetLockBalance 7 t) = Some Aoa \<and>
     evm_Vote backend0 [] 7 [\<lparr>vt_Candidate = Some 3, vt_Operation = 0\<rparr>] known0 0 (voter_db (5 * Aoa) 0 []) = (ErrVote, u)"
proof -
  note v = vote_conserves[OF voter_db_ok(1)[of "5 * Aoa" 0 "[]"] voter_db_ok(2), where l = 0 and dl = known0 and D = backend0 and spare = "[]"
      and vs = "[\<lparr>vt_Candidate = Some 3, vt_Operation = 0\<rparr>]" and vl = "[3]" and diff = Aoa]
  show ?thesis using v[where maxE = 101] v[where maxE = 0] by (auto simp: voter_acc_simps known0_def Aoa_def)
qed



text \<open>C22: the balance of the voter is not checked. A vote locks one AOA whatever the voter owns, so a
  voter with less ends up with a negative balance, which cannot be encoded: writing the state back
  panics.\<close>

theorem unfunded_vote_panics_later:
  assumes inv: "sdb_inv s" and o1: "peek s user = Some o1" "acc_LockBalance (so_data o1) = Some l" "\<not> so_suicided o1"
    and poor: "acc_Balance (so_data o1) < Aoa" and c: "c \<notin> set (acc_VoteList (so_data o1))" "dl c \<noteq> None"
    and max: "l + Aoa \<le> Aoa * maxE"
    and t: "evm_Vote D spare user [\<lparr>vt_Candidate = Some c, vt_Operation = 0\<rparr>] dl maxE s = (r, t)"
    and ord: "distinct ord" "user \<in> set ord"
  shows "r = VoteOk () \<and> fst (GetBalance user t) < 0 \<and> Finalise D ord del t = None"
proof -
  let ?vs = "[\<lparr>vt_Candidate = Some c, vt_Operation = 0\<rparr>]"
  have ok: "apply_votes (\<lambda>c. dl c \<noteq> None) ?vs (acc_VoteList (so_data o1)) = VoteOk (acc_VoteList (so_data o1) @ [c])"
    using c by simp
  obtain t' o2 where t': "evm_Vote D spare user ?vs dl maxE s = (VoteOk (), t')" "stateObjects t' user = Some o2"
    "\<not> so_deleted o2" "so_data o2 = (so_data o1)\<lparr>acc_Balance := acc_Balance (so_data o1) - Aoa,
      acc_LockBalance := Some (l + Aoa), acc_VoteList := acc_VoteList (so_data o1) @ [c]\<rparr>" "so_suicided o2 = so_suicided o1"
    "sdb_inv t'"
    by (rule vote_success[OF inv o1(1,2) ok, of Aoa maxE D spare]) (use max in auto)
  have tt: "t' = t" "r = VoteOk ()" using t t'(1) by auto
  have neg: "acc_Balance (so_data o2) < 0" using t'(4) poor by simp
  have "\<not> final_ok D del (stateObjects t user)"
    using t'(2,5) o1(3) neg unfolding tt by (auto simp: final_ok_def dropped_def empty_obj_def encodable_def)
  moreover have "so_address o3 = b" if "stateObjects t b = Some o3" for b o3
    using t'(6) that unfolding tt by (auto simp: sdb_inv_def)
  ultimately have "Finalise D ord del t = None"
    using finalise_loop_eq[OF ord(1), of t D del] ord(2) by (auto simp: Finalise_def)
  then show ?thesis
    using neg tt read_object(1)[OF t'(2,3)] by (simp add: GetBalance_def)
qed

theorem unfunded_vote_panics_later_witness:
  "fst (GetBalance 7 (voter_db 5 0 [])) = 5 \<and>
   Finalise backend0 [7] True (snd (evm_Vote backend0 [] 7 [\<lparr>vt_Candidate = Some 3, vt_Operation = 0\<rparr>] known0 101
     (voter_db 5 0 []))) = None"
proof -
  obtain r t where t: "evm_Vote backend0 [] 7 [\<lparr>vt_Candidate = Some 3, vt_Operation = 0\<rparr>] known0 101 (voter_db 5 0 []) = (r, t)"
    by fastforce
  have "fst (GetBalance 7 (voter_db 5 0 [])) = 5" by code_simp
  with unfunded_vote_panics_later[OF voter_db_ok(1)[of 5 0 "[]"] voter_db_ok(2), where l = 0 and c = 3 and dl = known0 and maxE = 101
      and D = backend0 and spare = "[]" and r = r and t = t and ord = "[7]" and del = True] t show ?thesis
    by (simp add: voter_acc_simps known0_def Aoa_def)
qed

end
