(* ===== verification/Vote_Counting.thy ===== *)
theory Vote_Counting
  imports Voting
begin

text \<open>
  Voting for delegates, the delegates' side: \<open>CountTrxVote\<close> (\<open>core/vote_util.go\<close>), which turns a
  transaction into a list of changes, and \<open>voteCount\<close> and \<open>voteChangeToDelegateState\<close>
  (\<open>core/state_processor.go\<close>), which apply them to the delegates' database.
\<close>

section \<open>Votes and delegates\<close>

definition register_action :: nat where "register_action = 1"
definition addVote_action :: nat where "addVote_action = 2"
definition subVote_action :: nat where "subVote_action = 3"
definition cancel_action :: nat where "cancel_action = 4"

definition TxGasAgentCreation :: int where
  "TxGasAgentCreation = 5000000000000000000000000"

definition ActionTrans :: uint64 where "ActionTrans = 0"
definition ActionRegister :: uint64 where "ActionRegister = 1"
definition ActionAddVote :: uint64 where "ActionAddVote = 2"
definition ActionSubVote :: uint64 where "ActionSubVote = 3"
definition ActionPublishAsset :: uint64 where "ActionPublishAsset = 4"
definition ActionCreateContract :: uint64 where "ActionCreateContract = 5"
definition ActionCallContract :: uint64 where "ActionCallContract = 6"

record VoteCandidate =
  vc_Address :: string
  vc_Vote :: uint64
  vc_Nickname :: string
  vc_Action :: nat

record vote_tx =
  tx_Action :: uint64
  tx_Vote :: "byte list"
  tx_Nickname :: string

text \<open>The count per candidate, a map from texts to int64. A vote without a candidate is a nil pointer.\<close>

fun count_votes :: "(string \<Rightarrow> byte list) \<Rightarrow> Vote list \<Rightarrow> (string \<rightharpoonup> uint64) \<Rightarrow> (string \<rightharpoonup> uint64) option" where
  "count_votes sha3 [] m = Some m"
| "count_votes sha3 (vote # vs) m =
     (case vt_Candidate vote of
        None \<Rightarrow> None
      | Some c \<Rightarrow>
          (let a = map lower (Hex sha3 c) in
           count_votes sha3 vs
             (if vt_Operation vote = 0 then m(a \<mapsto> (case m a of Some n \<Rightarrow> n + 1 | None \<Rightarrow> 1))
              else if vt_Operation vote = 1 then m(a \<mapsto> (case m a of Some n \<Rightarrow> n - 1 | None \<Rightarrow> - 1))
              else m)))"

definition vote_candidate :: "string \<Rightarrow> uint64 \<Rightarrow> VoteCandidate" where
  "vote_candidate address vote =
     (if sint vote < 0
      then \<lparr>vc_Address = address, vc_Vote = - vote, vc_Nickname = [], vc_Action = subVote_action\<rparr>
      else \<lparr>vc_Address = address, vc_Vote = vote, vc_Nickname = [], vc_Action = addVote_action\<rparr>)"

datatype count_error = VoteUnmarshal | ErrDuplicateRegisterAgent | ErrAddVote | ErrSubVote
  | ErrSubVoteNotEnough | ErrCancelAgent

text \<open>\<open>CountTrxVote\<close>. \<open>unmarshal\<close> is the JSON decoder, \<open>ord\<close> the order of the range over the counts.
  \<open>None\<close> is the panic on a vote without a candidate.\<close>

definition CountTrxVote ::
  "(string \<Rightarrow> byte list) \<Rightarrow> (byte list \<Rightarrow> Vote list option) \<Rightarrow> string list \<Rightarrow> string \<Rightarrow> vote_tx \<Rightarrow> StateDB \<Rightarrow> DelegateDB \<Rightarrow>
   ((count_error + VoteCandidate list) \<times> StateDB \<times> DelegateDB) option" where
  "CountTrxVote sha3 unmarshal ord from tx statedb db =
     (let voting = tx_Action tx = ActionAddVote \<or> tx_Action tx = ActionSubVote in
      if voting \<and> unmarshal (tx_Vote tx) = None then Some (Inl VoteUnmarshal, statedb, db)
      else
        (case count_votes sha3 (if voting then the (unmarshal (tx_Vote tx)) else []) Map.empty of
           None \<Rightarrow> None
         | Some counts \<Rightarrow>
             (let registered = (if tx_Action tx = ActionRegister
                    then [\<lparr>vc_Address = from, vc_Vote = 0, vc_Nickname = tx_Nickname tx, vc_Action = register_action\<rparr>]
                    else []);
                  voted = concat (map (\<lambda>a. case counts a of None \<Rightarrow> [] | Some n \<Rightarrow> [vote_candidate a n]) ord) in
              case HexToAddress from of
                None \<Rightarrow> None
              | Some a \<Rightarrow>
                  (let (ex, db1) = d_Exist a db in
                   if ex then
                     (let (bal, st1) = GetBalance a statedb in
                      if bal < TxGasAgentCreation
                      then Some (Inr (registered @ voted @
                             [\<lparr>vc_Address = from, vc_Vote = 0, vc_Nickname = [], vc_Action = cancel_action\<rparr>]), st1, db1)
                      else Some (Inr (registered @ voted), st1, db1))
                   else Some (Inr (registered @ voted), statedb, db1)))))"

text \<open>\<open>voteCount\<close>. Amounts go through \<open>int64\<close>.\<close>

definition voteCount :: "uint64 \<Rightarrow> VoteCandidate \<Rightarrow> DelegateDB \<Rightarrow> (count_error option \<times> DelegateDB) option" where
  "voteCount blockTime v db =
     (case HexToAddress (vc_Address v) of
        None \<Rightarrow> None
      | Some address \<Rightarrow>
          Some (if vc_Action v = register_action then
             (let (ex, db1) = d_Exist address db in
              if ex then (Some ErrDuplicateRegisterAgent, db1)
              else (None, d_GetOrNewStateObject address (vc_Nickname v) blockTime db1))
           else if vc_Action v = addVote_action then
             (let (ex, db1) = d_Exist address db in
              if \<not> ex then (Some count_error.ErrAddVote, db1)
              else (None, d_AddVote address (sint (vc_Vote v)) db1))
           else if vc_Action v = subVote_action then
             (let (ex, db1) = SubExist address db in
              if \<not> ex then (Some count_error.ErrSubVote, db1)
              else
                (let (vote, db2) = GetVote address db1;
                     subVoteNumber = sint (vc_Vote v) in
                 if sint (of_int vote :: uint64) < subVoteNumber then (Some ErrSubVoteNotEnough, db2)
                 else (None, d_SubVote address subVoteNumber db2)))
           else if vc_Action v = cancel_action then
             (let (ex, db1) = d_Exist address db in
              if \<not> ex then (Some ErrCancelAgent, db1)
              else (None, snd (d_Suicide address db1)))
           else (None, db)))"

text \<open>The loop of \<open>voteChangeToDelegateState\<close> stops at the first error.\<close>

fun voteCounts :: "uint64 \<Rightarrow> VoteCandidate list \<Rightarrow> DelegateDB \<Rightarrow> (count_error option \<times> DelegateDB) option" where
  "voteCounts bt [] db = Some (None, db)"
| "voteCounts bt (v # vs) db =
     (case voteCount bt v db of
        None \<Rightarrow> None
      | Some (Some e, db1) \<Rightarrow> Some (Some e, db1)
      | Some (None, db1) \<Rightarrow> voteCounts bt vs db1)"

definition voteChangeToDelegateState ::
  "(string \<Rightarrow> byte list) \<Rightarrow> (byte list \<Rightarrow> Vote list option) \<Rightarrow> string list \<Rightarrow> address \<Rightarrow> vote_tx \<Rightarrow> StateDB \<Rightarrow>
   DelegateDB \<Rightarrow> uint64 \<Rightarrow> (count_error option \<times> StateDB \<times> DelegateDB) option" where
  "voteChangeToDelegateState sha3 unmarshal ord from tx statedb db blockTime =
     (case CountTrxVote sha3 unmarshal ord (map lower (Hex sha3 from)) tx statedb db of
        None \<Rightarrow> None
      | Some (Inl e, st1, db1) \<Rightarrow> Some (Some e, st1, db1)
      | Some (Inr candidates, st1, db1) \<Rightarrow>
          if candidates = [] then Some (None, st1, db1)
          else map_option (\<lambda>(e, db2). (e, st1, db2)) (voteCounts blockTime candidates db1))"

section \<open>Properties of the counting\<close>

text \<open>What one candidate of the list does to the delegate of its address.\<close>

definition effect :: "uint64 \<Rightarrow> VoteCandidate \<Rightarrow> delegate option \<Rightarrow> count_error + delegate option" where
  "effect bt v d =
     (if vc_Action v = register_action then
        (case d of
           None \<Rightarrow> Inr (Some \<lparr>votes = 0, nick = vc_Nickname v, since = bt, cancelled = False\<rparr>)
         | Some x \<Rightarrow> if cancelled x then Inr (Some \<lparr>votes = votes x, nick = vc_Nickname v, since = bt, cancelled = False\<rparr>)
                     else Inl ErrDuplicateRegisterAgent)
      else if vc_Action v = addVote_action then
        (case d of
           None \<Rightarrow> Inl count_error.ErrAddVote
         | Some x \<Rightarrow> if cancelled x then Inl count_error.ErrAddVote else Inr (Some (x\<lparr>votes := votes x + sint (vc_Vote v)\<rparr>)))
      else if vc_Action v = subVote_action then
        (case d of
           None \<Rightarrow> Inl count_error.ErrSubVote
         | Some x \<Rightarrow> if sint (of_int (votes x) :: uint64) < sint (vc_Vote v) then Inl ErrSubVoteNotEnough
                     else Inr (Some (x\<lparr>votes := max 0 (votes x - sint (vc_Vote v))\<rparr>)))
      else if vc_Action v = cancel_action then
        (case d of
           None \<Rightarrow> Inl ErrCancelAgent
         | Some x \<Rightarrow> if cancelled x then Inl ErrCancelAgent else Inr (Some (x\<lparr>cancelled := True\<rparr>)))
      else Inr d)"

fun effects :: "uint64 \<Rightarrow> (address \<times> VoteCandidate) list \<Rightarrow> (address \<rightharpoonup> delegate) \<Rightarrow> count_error option \<times> (address \<rightharpoonup> delegate)" where
  "effects bt [] m = (None, m)"
| "effects bt ((a, v) # vs) m =
     (case effect bt v (m a) of Inl e \<Rightarrow> (Some e, m) | Inr d \<Rightarrow> effects bt vs (m(a := d)))"

lemma HexToAddress_total: "\<exists>a. HexToAddress s = Some a"
  by (auto simp: HexToAddress_def FromAoAHex_def hasAOAPrefix_def)

definition vc_addr :: "VoteCandidate \<Rightarrow> address" where
  "vc_addr v = the (HexToAddress (vc_Address v))"

lemma reads_refine:
  assumes "ddb_inv s"
  shows "\<exists>s1. d_Exist a s = ((case delegates s a of None \<Rightarrow> False | Some d \<Rightarrow> \<not> cancelled d), s1) \<and>
      delegates s1 = delegates s \<and> ddb_inv s1"
    "\<exists>s1. SubExist a s = (delegates s a \<noteq> None, s1) \<and> delegates s1 = delegates s \<and> ddb_inv s1"
    "\<exists>s1. GetVote a s = ((case delegates s a of None \<Rightarrow> 0 | Some d \<Rightarrow> votes d), s1) \<and> delegates s1 = delegates s \<and> ddb_inv s1"
proof -
  note ops = delegates_ops[OF assms, of 0 a]
  have snd: "delegates s1 = delegates s \<and> ddb_inv s1" if "snd (d_GetStateObject a s) = s1 \<or> snd (getStateObjectContainDelete a s) = s1" for s1
  proof (cases "delegateObjects s a")
    case None
    with d_lookup(3)[OF assms None] that assms show ?thesis by auto
  next
    case (Some o1)
    with d_lookup(1,2)[OF assms Some] that assms show ?thesis by auto
  qed
  show "\<exists>s1. d_Exist a s = ((case delegates s a of None \<Rightarrow> False | Some d \<Rightarrow> \<not> cancelled d), s1) \<and>
      delegates s1 = delegates s \<and> ddb_inv s1"
    using ops snd by (cases "d_GetStateObject a s") (auto simp: d_Exist_def)
  show "\<exists>s1. SubExist a s = (delegates s a \<noteq> None, s1) \<and> delegates s1 = delegates s \<and> ddb_inv s1"
    using ops snd by (cases "getStateObjectContainDelete a s") (auto simp: SubExist_def)
  show "\<exists>s1. GetVote a s = ((case delegates s a of None \<Rightarrow> 0 | Some d \<Rightarrow> votes d), s1) \<and> delegates s1 = delegates s \<and> ddb_inv s1"
    using ops snd by (cases "getStateObjectContainDelete a s") (auto simp: GetVote_def split: option.splits)
qed

lemma voteCount_effect:
  assumes inv: "ddb_inv s" and ok: "0 \<le> sint (vc_Vote v)"
  shows "\<exists>e s1. voteCount bt v s = Some (e, s1) \<and> ddb_inv s1 \<and>
    (case effect bt v (delegates s (vc_addr v)) of
       Inl x \<Rightarrow> e = Some x \<and> delegates s1 = delegates s
     | Inr d \<Rightarrow> e = None \<and> delegates s1 = (delegates s)(vc_addr v := d))"
proof -
  obtain a where a: "HexToAddress (vc_Address v) = Some a" using HexToAddress_total by blast
  then have addr: "vc_addr v = a" by (simp add: vc_addr_def)
  obtain s1 where ex: "d_Exist a s = ((case delegates s a of None \<Rightarrow> False | Some d \<Rightarrow> \<not> cancelled d), s1)"
      "delegates s1 = delegates s" "ddb_inv s1"
    using reads_refine(1)[OF inv] by blast
  obtain s2 where sub: "SubExist a s = (delegates s a \<noteq> None, s2)" "delegates s2 = delegates s" "ddb_inv s2"
    using reads_refine(2)[OF inv] by blast
  obtain s3 where vote: "GetVote a s2 = ((case delegates s a of None \<Rightarrow> 0 | Some d \<Rightarrow> votes d), s3)"
      "delegates s3 = delegates s" "ddb_inv s3"
    using reads_refine(3)[OF sub(3), of a] sub(2) by auto
  note ops1 = delegates_ops[OF ex(3) ok, of a "vc_Nickname v" bt] and ops3 = delegates_ops[OF vote(3) ok, of a]
  have triv: "(delegates s)(a := delegates s a) = delegates s" by simp
  show ?thesis
    using ex(2,3) sub(2,3) vote(2,3) ops1 ops3 inv
    by (cases "delegates s a")
      (auto simp: voteCount_def a addr effect_def ex(1) sub(1) vote(1) Let_def register_action_def addVote_action_def
        subVote_action_def cancel_action_def register_def add_votes_def sub_votes_def cancel_def triv)
qed

lemma voteCounts_effects:
  assumes "ddb_inv s" "\<And>v. v \<in> set vs \<Longrightarrow> 0 \<le> sint (vc_Vote v)"
  shows "\<exists>e s1. voteCounts bt vs s = Some (e, s1) \<and> ddb_inv s1 \<and>
    effects bt (map (\<lambda>v. (vc_addr v, v)) vs) (delegates s) = (e, delegates s1)"
  using assms
proof (induction vs arbitrary: s)
  case (Cons v vs)
  obtain e s1 where v: "voteCount bt v s = Some (e, s1)" "ddb_inv s1"
      "case effect bt v (delegates s (vc_addr v)) of
       Inl x \<Rightarrow> e = Some x \<and> delegates s1 = delegates s
     | Inr d \<Rightarrow> e = None \<and> delegates s1 = (delegates s)(vc_addr v := d)"
    using voteCount_effect[OF Cons.prems(1), of v bt] Cons.prems(2) by auto
  show ?case
  proof (cases "effect bt v (delegates s (vc_addr v))")
    case (Inl x)
    with v show ?thesis by simp
  next
    case (Inr d)
    with v have e: "e = None" and eq: "(delegates s)(vc_addr v := d) = delegates s1" by simp_all
    obtain e' s2 where "voteCounts bt vs s1 = Some (e', s2)" "ddb_inv s2"
        "effects bt (map (\<lambda>v. (vc_addr v, v)) vs) (delegates s1) = (e', delegates s2)"
      using Cons.IH[OF v(2)] Cons.prems(2) by auto
    with v(1) e Inr show ?thesis by (simp add: eq)
  qed
qed simp

text \<open>Candidates of different addresses do not interfere.\<close>

lemma effects_pointwise:
  assumes "distinct (map fst vs)"
  shows "fst (effects bt vs m) = None \<longleftrightarrow> (\<forall>(a, v) \<in> set vs. \<exists>d. effect bt v (m a) = Inr d)"
    "fst (effects bt vs m) = None \<Longrightarrow>
      snd (effects bt vs m) = (\<lambda>a. case map_of vs a of None \<Rightarrow> m a | Some v \<Rightarrow> projr (effect bt v (m a)))"
proof -
  have "(fst (effects bt vs m) = None \<longleftrightarrow> (\<forall>(a, v) \<in> set vs. \<exists>d. effect bt v (m a) = Inr d)) \<and>
    (fst (effects bt vs m) = None \<longrightarrow>
      snd (effects bt vs m) = (\<lambda>a. case map_of vs a of None \<Rightarrow> m a | Some v \<Rightarrow> projr (effect bt v (m a))))"
    using assms
  proof (induction vs arbitrary: m)
    case (Cons p vs)
    obtain a v where p: "p = (a, v)" by (cases p)
    note prems = Cons.prems[unfolded p]
    show ?case
    proof (cases "effect bt v (m a)")
      case (Inl x)
      then show ?thesis by (auto simp: p)
    next
      case (Inr d)
      have other: "(b, w) \<in> set vs \<Longrightarrow> b \<noteq> a" for b w using prems by force
      have none: "map_of vs a = None" using prems by (simp add: map_of_eq_None_iff)
      define m1 where "m1 = m(a := d)"
      then have m1: "m1 a = d" "(b, w) \<in> set vs \<Longrightarrow> m1 b = m b" "b \<noteq> a \<Longrightarrow> m1 b = m b" for b w
        using other by auto
      have prems': "distinct (map fst vs)" using prems by simp
      have "(\<forall>(b, w) \<in> set vs. \<exists>d. effect bt w (m1 b) = Inr d) \<longleftrightarrow> (\<forall>(b, w) \<in> set vs. \<exists>d. effect bt w (m b) = Inr d)"
        using m1(2) by (intro ball_cong) auto
      moreover have "(case map_of vs b of None \<Rightarrow> m1 b | Some w \<Rightarrow> projr (effect bt w (m1 b))) =
          (case map_of ((a, v) # vs) b of None \<Rightarrow> m b | Some w \<Rightarrow> projr (effect bt w (m b)))" for b
        using none Inr m1(1) m1(3)[of b] by (cases "b = a") (simp_all split: option.split)
      moreover have "effects bt ((a, v) # vs) m = effects bt vs m1" using Inr by (simp add: m1_def)
      ultimately show ?thesis using Cons.IH[OF prems', of m1] Inr by (simp add: p)
    qed
  qed simp
  then show "fst (effects bt vs m) = None \<longleftrightarrow> (\<forall>(a, v) \<in> set vs. \<exists>d. effect bt v (m a) = Inr d)"
    "fst (effects bt vs m) = None \<Longrightarrow>
      snd (effects bt vs m) = (\<lambda>a. case map_of vs a of None \<Rightarrow> m a | Some v \<Rightarrow> projr (effect bt v (m a)))"
    by blast+
qed

lemma effects_perm:
  assumes "distinct (map fst vs)" "distinct (map fst ws)" "set vs = set ws" "fst (effects bt vs m) = None"
  shows "effects bt ws m = effects bt vs m"
proof -
  have "map_of vs = map_of ws" using assms(1-3) by (simp add: map_of_inject_set)
  moreover have "fst (effects bt ws m) = None"
    using effects_pointwise(1)[OF assms(1), of bt m] effects_pointwise(1)[OF assms(2), of bt m] assms(3,4) by simp
  ultimately show ?thesis
    using effects_pointwise(2)[OF assms(1,4)] effects_pointwise(2)[OF assms(2), of bt m] assms(4)
    by (simp add: prod_eq_iff)
qed

lemma effects_append:
  "effects bt (vs @ ws) m =
     (case effects bt vs m of (Some e, m1) \<Rightarrow> (Some e, m1) | (None, m1) \<Rightarrow> effects bt ws m1)"
  by (induction vs arbitrary: m) (auto split: sum.split)

text \<open>Counting a list of votes: the count of a text is the number of votes less the number of
  withdrawn votes, and the texts are those of addresses.\<close>

lemma lower_Hex: "map lower (Hex sha3 a) = ''aoa'' @ EncodeToString (address_Bytes a)"
proof -
  have "map lower (EncodeToString bs) = EncodeToString bs" for bs
    using EncodeToString_digits hexdigit_facts(3) by (intro map_idI) blast
  moreover have "map lower ''AOA'' = ''aoa''" by code_simp
  ultimately show ?thesis by (simp add: Hex_eq)
qed

lemma HexToAddress_lower: "HexToAddress (map lower (Hex sha3 a)) = Some a"
proof -
  have "map lower ''aoa'' = ''aoa''" by code_simp
  then show ?thesis
    by (simp add: lower_Hex HexToAddress_def hasAOAPrefix_def FromAoAHex_def Hex2Bytes_def DecodeString_Encode address_roundtrip)
qed

lemma count_votes_range:
  assumes "count_votes sha3 vs m = Some m'" "\<And>a n. m a = Some n \<Longrightarrow> \<exists>c k. a = map lower (Hex sha3 c) \<and> n = of_int k \<and> \<bar>k\<bar> \<le> int j"
    "m' a = Some n"
  shows "\<exists>c k. a = map lower (Hex sha3 c) \<and> n = of_int k \<and> \<bar>k\<bar> \<le> int (j + length vs)"
  using assms
proof (induction sha3 vs m arbitrary: j rule: count_votes.induct)
  case (1 sha3 m)
  then show ?case by auto
next
  case (2 sha3 vote vs m)
  then obtain c where c: "vt_Candidate vote = Some c" by (auto split: option.splits)
  define b m1 where "b = map lower (Hex sha3 c)"
    and "m1 = (if vt_Operation vote = 0 then m(b \<mapsto> (case m b of Some n \<Rightarrow> n + 1 | None \<Rightarrow> 1))
              else if vt_Operation vote = 1 then m(b \<mapsto> (case m b of Some n \<Rightarrow> n - 1 | None \<Rightarrow> - 1))
              else m)"
  have step: "\<exists>c k. x = map lower (Hex sha3 c) \<and> n = of_int k \<and> \<bar>k\<bar> \<le> int (Suc j)" if n: "m1 x = Some n" for x n
  proof (cases "x = b \<and> (vt_Operation vote = 0 \<or> vt_Operation vote = 1)")
    case False
    with n have "m x = Some n" by (auto simp: m1_def split: if_splits)
    from "2.prems"(2)[OF this] show ?thesis by fastforce
  next
    case True
    obtain d where d: "m1 x = Some (case m b of Some n \<Rightarrow> n + of_int d | None \<Rightarrow> of_int d)" "\<bar>d\<bar> = (1 :: int)"
      using True by (cases "m b") (auto simp: m1_def intro: that[of 1] that[of "- 1"])
    show ?thesis
    proof (cases "m b")
      case None
      with d n True show ?thesis by (auto simp: b_def)
    next
      case (Some k)
      from "2.prems"(2)[OF Some] obtain i where "k = of_int i" "\<bar>i\<bar> \<le> int j" by blast
      with d n Some have "n = of_int (i + d)" "\<bar>i + d\<bar> \<le> int (Suc j)" by auto
      with True show ?thesis by (intro exI[of _ c] exI[of _ "i + d"]) (simp add: b_def)
    qed
  qed
  have "count_votes sha3 vs m1 = Some m'" using "2.prems"(1) c by (simp only: count_votes.simps option.case Let_def m1_def b_def)
  from "2.IH"[OF c b_def, folded m1_def, OF this step] "2.prems"(3) show ?case by fastforce
qed

lemma vc_addr_lower: "vc_addr (vote_candidate (map lower (Hex sha3 c)) n) = c"
  by (simp add: vc_addr_def vote_candidate_def HexToAddress_lower)

lemma sint_of_small: "\<bar>k\<bar> < 2 ^ 63 \<Longrightarrow> sint (of_int k :: uint64) = k"
  by (simp add: sint_sbintrunc' signed_take_bit_int_eq_self_iff abs_less_iff)

lemma vote_candidate_nonneg:
  assumes "\<bar>k\<bar> < 2 ^ 63"
  shows "sint (vc_Vote (vote_candidate a (of_int k))) = \<bar>k\<bar>"
  using assms sint_of_small[of k] sint_of_small[of "- k"] by (simp add: vote_candidate_def)

lemma lower_Hex_inject: "map lower (Hex sha3 a) = map lower (Hex sha3 b) \<longleftrightarrow> a = b"
  by (metis HexToAddress_lower option.inject)

text \<open>A delegate before and after \<open>k\<close> votes are counted for it.\<close>

definition voted_for :: "int \<Rightarrow> delegate \<Rightarrow> delegate option \<Rightarrow> bool" where
  "voted_for k x d \<longleftrightarrow>
     d = Some (x\<lparr>votes := if 0 \<le> k then votes x + k else max 0 (votes x + k)\<rparr>) \<and>
     (0 \<le> k \<longrightarrow> \<not> cancelled x) \<and> (0 \<le> votes x \<and> votes x < 2 ^ 63 \<longrightarrow> 0 \<le> votes x + k)"

lemma effect_vote:
  assumes "\<bar>k\<bar> < 2 ^ 63" "effect bt (vote_candidate a (of_int k)) d = Inr d1"
  shows "\<exists>x. d = Some x \<and> voted_for k x d1"
proof (cases "0 \<le> k")
  case True
  then have v: "vote_candidate a (of_int k) = \<lparr>vc_Address = a, vc_Vote = of_int k, vc_Nickname = [], vc_Action = addVote_action\<rparr>"
    using sint_of_small[OF assms(1)] by (simp add: vote_candidate_def)
  from assms(2) True show ?thesis
    by (simp add: v effect_def voted_for_def register_action_def addVote_action_def sint_of_small[OF assms(1)] split: option.splits if_splits)
next
  case False
  then have v: "vote_candidate a (of_int k) = \<lparr>vc_Address = a, vc_Vote = of_int (- k), vc_Nickname = [], vc_Action = subVote_action\<rparr>"
    using sint_of_small[OF assms(1)] by (simp add: vote_candidate_def)
  have k: "sint (of_int (- k) :: uint64) = - k" using assms(1) by (intro sint_of_small) simp
  from assms(2) False obtain x where x: "d = Some x" "\<not> sint (of_int (votes x) :: uint64) < - k"
      "d1 = Some (x\<lparr>votes := max 0 (votes x + k)\<rparr>)"
    unfolding v effect_def by (simp add: register_action_def addVote_action_def subVote_action_def k del: of_int_minus split: option.splits if_splits)
  have "sint (of_int (votes x) :: uint64) = votes x" if "0 \<le> votes x \<and> votes x < 2 ^ 63" using that by (intro sint_of_small) simp
  then have "0 \<le> votes x \<and> votes x < 2 ^ 63 \<longrightarrow> 0 \<le> votes x + k" using x(2) by auto
  with x False show ?thesis by (simp add: voted_for_def)
qed

text \<open>The candidates a voting transaction produces: one per counted text, then possibly the
  cancellation of the sender. Only the first part depends on the order of the range.\<close>

definition cancel_candidate :: "string \<Rightarrow> VoteCandidate" where
  "cancel_candidate from = \<lparr>vc_Address = from, vc_Vote = 0, vc_Nickname = [], vc_Action = cancel_action\<rparr>"

definition counted :: "(string \<rightharpoonup> uint64) \<Rightarrow> string list \<Rightarrow> VoteCandidate list" where
  "counted counts ord = map (\<lambda>a. vote_candidate a (the (counts a))) ord"

lemma counted_concat:
  "set ord \<subseteq> dom counts \<Longrightarrow>
    concat (map (\<lambda>a. case counts a of None \<Rightarrow> [] | Some n \<Rightarrow> [vote_candidate a n]) ord) = counted counts ord"
  by (induction ord) (auto simp: counted_def)

lemma CountTrxVote_voting:
  assumes "tx_Action tx = ActionAddVote \<or> tx_Action tx = ActionSubVote" "unmarshal (tx_Vote tx) = Some vs"
    "count_votes sha3 vs Map.empty = Some counts" "ddb_inv db"
  shows "\<exists>tail st1 db1. delegates db1 = delegates db \<and> ddb_inv db1 \<and>
    (tail = [] \<or> delegates db from \<noteq> None \<and> tail = [cancel_candidate (map lower (Hex sha3 from))]) \<and>
    (\<forall>ord. set ord = dom counts \<longrightarrow>
      CountTrxVote sha3 unmarshal ord (map lower (Hex sha3 from)) tx statedb db =
        Some (Inr (counted counts ord @ tail), st1, db1))"
proof -
  have no: "tx_Action tx \<noteq> ActionRegister" using assms(1) by (auto simp: ActionAddVote_def ActionSubVote_def ActionRegister_def)
  obtain ex db1 where ex: "d_Exist from db = (ex, db1)" "delegates db1 = delegates db" "ddb_inv db1"
      "ex \<Longrightarrow> delegates db from \<noteq> None"
    using reads_refine(1)[OF assms(4), of "from"] by (auto split: option.splits)
  obtain bal st1 where bal: "GetBalance from statedb = (bal, st1)" by (cases "GetBalance from statedb")
  have voted: "set ord = dom counts \<Longrightarrow>
      concat (map (\<lambda>a. case counts a of None \<Rightarrow> [] | Some n \<Rightarrow> [vote_candidate a n]) ord) = counted counts ord" for ord
    using counted_concat by blast
  define tail where "tail = (if ex \<and> bal < TxGasAgentCreation then [cancel_candidate (map lower (Hex sha3 from))] else [])"
  have "CountTrxVote sha3 unmarshal ord (map lower (Hex sha3 from)) tx statedb db =
      Some (Inr (counted counts ord @ tail), if ex then st1 else statedb, db1)" if "set ord = dom counts" for ord
    using assms(1-3) no
    by (simp add: CountTrxVote_def HexToAddress_lower voted[OF that] ex(1) bal tail_def cancel_candidate_def Let_def)
  with ex(2-4) show ?thesis by (intro exI[of _ tail] exI[of _ "if ex then st1 else statedb"] exI[of _ db1]) (simp add: tail_def)
qed

definition keyed :: "VoteCandidate list \<Rightarrow> (address \<times> VoteCandidate) list" where
  "keyed vs = map (\<lambda>v. (vc_addr v, v)) vs"

lemma count_small:
  assumes "count_votes sha3 vs Map.empty = Some counts" "length vs < 2 ^ 63" "counts a = Some n"
  shows "\<exists>c k. a = map lower (Hex sha3 c) \<and> n = of_int k \<and> \<bar>k\<bar> < 2 ^ 63"
proof -
  obtain c k where "a = map lower (Hex sha3 c)" "n = of_int k" "\<bar>k\<bar> \<le> int (0 + length vs)"
    using count_votes_range[OF assms(1) _ assms(3), of 0] by auto
  moreover have "int (length vs) < 2 ^ 63" using assms(2) by (metis of_nat_less_iff of_nat_numeral of_nat_power)
  ultimately show ?thesis by (intro exI[of _ c] exI[of _ k]) simp
qed

lemma keyed_counted:
  assumes "count_votes sha3 vs Map.empty = Some counts" "length vs < 2 ^ 63" "distinct ord" "set ord = dom counts"
  shows "distinct (map fst (keyed (counted counts ord)))"
    "set (keyed (counted counts ord)) =
       {(c, vote_candidate (map lower (Hex sha3 c)) n) |c n. counts (map lower (Hex sha3 c)) = Some n}"
    "v \<in> set (counted counts ord) \<Longrightarrow> 0 \<le> sint (vc_Vote v)"
proof -
  have addr: "\<exists>c. a = map lower (Hex sha3 c) \<and> vc_addr (vote_candidate a (the (counts a))) = c" if "a \<in> set ord" for a
    using that count_small[OF assms(1,2), of a] assms(4) vc_addr_lower by fastforce
  have "inj_on (\<lambda>a. vc_addr (vote_candidate a (the (counts a)))) (set ord)"
    using addr by (intro inj_onI) metis
  with assms(3) show "distinct (map fst (keyed (counted counts ord)))"
    by (simp add: keyed_def counted_def comp_def distinct_map)
  show "set (keyed (counted counts ord)) =
       {(c, vote_candidate (map lower (Hex sha3 c)) n) |c n. counts (map lower (Hex sha3 c)) = Some n}" (is "?l = ?r")
  proof
    show "?l \<subseteq> ?r" using addr assms(4) by (fastforce simp: keyed_def counted_def)
    show "?r \<subseteq> ?l"
    proof clarify
      fix c n assume "counts (map lower (Hex sha3 c)) = Some n"
      then show "(c, vote_candidate (map lower (Hex sha3 c)) n) \<in> ?l"
        using assms(4) vc_addr_lower[of sha3 c n]
        by (auto simp: keyed_def counted_def image_iff intro!: bexI[of _ "map lower (Hex sha3 c)"])
    qed
  qed
  show "0 \<le> sint (vc_Vote v)" if v: "v \<in> set (counted counts ord)"
  proof -
    from v assms(4) obtain a n where "v = vote_candidate a n" "counts a = Some n" by (auto simp: counted_def)
    with count_small[OF assms(1,2)] vote_candidate_nonneg show ?thesis by fastforce
  qed
qed

lemma voteChange_voting:
  assumes "tx_Action tx = ActionAddVote \<or> tx_Action tx = ActionSubVote" "unmarshal (tx_Vote tx) = Some vs"
    "count_votes sha3 vs Map.empty = Some counts" "length vs < 2 ^ 63" "ddb_inv db"
  shows "\<exists>tail st1. (tail = [] \<or> delegates db from \<noteq> None \<and> tail = [cancel_candidate (map lower (Hex sha3 from))]) \<and>
    (\<forall>ord. distinct ord \<longrightarrow> set ord = dom counts \<longrightarrow>
      (\<exists>e db1. voteChangeToDelegateState sha3 unmarshal ord from tx statedb db bt = Some (e, st1, db1) \<and> ddb_inv db1 \<and>
        effects bt (keyed (counted counts ord @ tail)) (delegates db) = (e, delegates db1)))"
proof -
  obtain tail st1 db1 where t: "delegates db1 = delegates db" "ddb_inv db1"
      "tail = [] \<or> delegates db from \<noteq> None \<and> tail = [cancel_candidate (map lower (Hex sha3 from))]"
    and c: "\<And>ord. set ord = dom counts \<Longrightarrow> CountTrxVote sha3 unmarshal ord (map lower (Hex sha3 from)) tx statedb db =
        Some (Inr (counted counts ord @ tail), st1, db1)"
    using CountTrxVote_voting[of tx unmarshal vs sha3 counts db "from" statedb, OF assms(1-3,5)] by metis
  have "\<exists>e db2. voteChangeToDelegateState sha3 unmarshal ord from tx statedb db bt = Some (e, st1, db2) \<and> ddb_inv db2 \<and>
        effects bt (keyed (counted counts ord @ tail)) (delegates db) = (e, delegates db2)"
    if ord: "distinct ord" "set ord = dom counts" for ord
  proof -
    have nn: "0 \<le> sint (vc_Vote v)" if "v \<in> set (counted counts ord @ tail)" for v
      using that keyed_counted(3)[OF assms(3,4) ord] t(3) by (auto simp: cancel_candidate_def)
    from voteCounts_effects[OF t(2), of "counted counts ord @ tail" bt, OF nn] show ?thesis
      using t(1,2) by (auto simp: voteChangeToDelegateState_def c[OF ord(2)] keyed_def)
  qed
  with t(3) show ?thesis by blast
qed

lemma counted_effects:
  assumes "count_votes sha3 vs Map.empty = Some counts" "length vs < 2 ^ 63" "distinct ord" "set ord = dom counts"
    and E: "effects bt (keyed (counted counts ord)) M = (None, m)"
  shows "case counts (map lower (Hex sha3 c)) of
      None \<Rightarrow> m c = M c
    | Some n \<Rightarrow> (\<exists>x. M c = Some x \<and> voted_for (sint n) x (m c))"
proof -
  note kc = keyed_counted(1,2)[OF assms(1-4)]
  have pt: "m c = (case map_of (keyed (counted counts ord)) c of None \<Rightarrow> M c | Some v \<Rightarrow> projr (effect bt v (M c)))"
    using effects_pointwise(2)[OF kc(1), of bt M] E by simp
  show ?thesis
  proof (cases "counts (map lower (Hex sha3 c))")
    case None
    then have "map_of (keyed (counted counts ord)) c = None" using kc(2) by (auto simp: map_of_eq_None_iff)
    with None pt show ?thesis by simp
  next
    case (Some n)
    then have mem: "(c, vote_candidate (map lower (Hex sha3 c)) n) \<in> set (keyed (counted counts ord))" using kc(2) by auto
    with kc(1) have mo: "map_of (keyed (counted counts ord)) c = Some (vote_candidate (map lower (Hex sha3 c)) n)" by simp
    from mem E obtain d where d: "effect bt (vote_candidate (map lower (Hex sha3 c)) n) (M c) = Inr d"
      using effects_pointwise(1)[OF kc(1), of bt M] by fastforce
    obtain k where k: "n = of_int k" "\<bar>k\<bar> < 2 ^ 63" using count_small[OF assms(1,2) Some] by auto
    show ?thesis using effect_vote[OF k(2) d[unfolded k(1)]] pt mo d Some k sint_of_small[OF k(2)] by auto
  qed
qed

text \<open>C23: the order in which Go ranges over the counted votes does not matter when the transaction is
  accepted: any other order is accepted too and leaves the same delegates. Take a candidate other than the sender. If the
  transaction does not name it, it is unchanged. If it does, it is a known delegate, and one that has not been
  cancelled unless votes are withdrawn from it on balance: votes are withdrawn from cancelled delegates too. Its votes
  change by exactly the number counted, and they are not fewer than the transaction withdraws, as long as
  they are below \<open>2 ^ 63\<close>; above that only their low bits are compared, and what would be negative is zero.\<close>

theorem votes_any_order:
  assumes "tx_Action tx = ActionAddVote \<or> tx_Action tx = ActionSubVote" "unmarshal (tx_Vote tx) = Some vs"
    "count_votes sha3 vs Map.empty = Some counts" "length vs < 2 ^ 63" "ddb_inv db"
    and ord: "distinct ord" "set ord = dom counts" and ord': "distinct ord'" "set ord' = dom counts"
    and ok: "voteChangeToDelegateState sha3 unmarshal ord sender tx statedb db bt = Some (None, st1, db1)"
  shows "(\<exists>db2. voteChangeToDelegateState sha3 unmarshal ord' sender tx statedb db bt = Some (None, st1, db2) \<and>
            delegates db2 = delegates db1) \<and>
    (\<forall>c. c \<noteq> sender \<longrightarrow>
       (case counts (map lower (Hex sha3 c)) of
          None \<Rightarrow> delegates db1 c = delegates db c
        | Some n \<Rightarrow> (\<exists>x. delegates db c = Some x \<and> (0 \<le> sint n \<longrightarrow> \<not> cancelled x) \<and>
            (votes x < 2 ^ 63 \<longrightarrow> 0 \<le> votes x + sint n \<and> delegates db1 c = Some (x\<lparr>votes := votes x + sint n\<rparr>)) \<and>
            delegates db1 c = Some (x\<lparr>votes := if 0 \<le> sint n then votes x + sint n else max 0 (votes x + sint n)\<rparr>))))"
    (is "_ \<and> (\<forall>c. _ \<longrightarrow> ?P c)")
proof -
  obtain tail st where tail: "tail = [] \<or> tail = [cancel_candidate (map lower (Hex sha3 sender))]"
    and run: "\<And>ord. distinct ord \<Longrightarrow> set ord = dom counts \<Longrightarrow>
      \<exists>e db1. voteChangeToDelegateState sha3 unmarshal ord sender tx statedb db bt = Some (e, st, db1) \<and> ddb_inv db1 \<and>
        effects bt (keyed (counted counts ord @ tail)) (delegates db) = (e, delegates db1)"
    using voteChange_voting[of tx unmarshal vs sha3 counts db sender statedb bt, OF assms(1-5)] by metis
  note kc = keyed_counted[OF assms(3,4) ord] keyed_counted(1,2)[OF assms(3,4) ord']
  define m where "m = snd (effects bt (keyed (counted counts ord)) (delegates db))"
  have st: "st = st1" and E: "effects bt (keyed (counted counts ord @ tail)) (delegates db) = (None, delegates db1)"
    using run[OF ord] ok by auto
  then have E1: "effects bt (keyed (counted counts ord)) (delegates db) = (None, m)"
    and E2: "effects bt (keyed tail) m = (None, delegates db1)"
    by (auto simp: m_def keyed_def effects_append split: prod.splits option.splits)
  have "effects bt (keyed (counted counts ord')) (delegates db) = (None, m)"
    using effects_perm[OF kc(1,4), of bt "delegates db"] kc(2,5) E1 by simp
  with E2 have "effects bt (keyed (counted counts ord' @ tail)) (delegates db) = (None, delegates db1)"
    by (simp add: keyed_def effects_append)
  then have other: "\<exists>db2. voteChangeToDelegateState sha3 unmarshal ord' sender tx statedb db bt = Some (None, st1, db2) \<and>
      delegates db2 = delegates db1" using run[OF ord'] st by auto
  have same: "delegates db1 c = m c" if "c \<noteq> sender" for c
    using E2 tail that
    by (auto simp: keyed_def cancel_candidate_def vc_addr_def HexToAddress_lower split: sum.splits) (metis fun_upd_other)
  have "?P c" if "c \<noteq> sender" for c
  proof -
    have "0 \<le> votes x" if "delegates db c = Some x" for x
      using that ddb_invD(5)[OF assms(5), of c] by (auto simp: delegates_def)
    with counted_effects[OF assms(3,4) ord E1, of c] show ?thesis
      unfolding same[OF that, symmetric] by (auto simp: voted_for_def split: option.splits)
  qed
  with other show ?thesis by blast
qed

definition two_votes :: "Vote list" where
  "two_votes = [\<lparr>vt_Candidate = Some 1, vt_Operation = 0\<rparr>, \<lparr>vt_Candidate = Some 2, vt_Operation = 1\<rparr>]"

definition vote_tx0 :: vote_tx where
  "vote_tx0 = \<lparr>tx_Action = ActionAddVote, tx_Vote = [], tx_Nickname = []\<rparr>"

definition text0 :: "address \<Rightarrow> string" where
  "text0 c = map lower (Hex (\<lambda>_. replicate 32 0) c)"

lemma text0_eq: "map lower (Hex (\<lambda>_. replicate 32 0) c) = text0 c" by (simp add: text0_def)

lemma text0_inject: "text0 a = text0 b \<longleftrightarrow> a = b" by (simp add: text0_def lower_Hex_inject)

lemma two_votes_counts:
  "count_votes (\<lambda>_. replicate 32 0) two_votes Map.empty = Some [text0 1 \<mapsto> 1, text0 2 \<mapsto> - 1]"
  by (simp add: two_votes_def Let_def text0_eq text0_inject)

theorem votes_any_order_witness:
  "\<exists>st1 db2. voteChangeToDelegateState (\<lambda>_. replicate 32 0) (\<lambda>_. Some two_votes) [text0 2, text0 1] 7 vote_tx0 empty_db two_delegates 0 =
       Some (None, st1, db2) \<and>
     map_option votes (delegates db2 1) = Some 10 \<and> map_option votes (delegates db2 2) = Some 3"
proof -
  let ?sha = "\<lambda>_. replicate 32 (0 :: byte)" and ?um = "\<lambda>_. Some two_votes" and ?c = "[text0 1 \<mapsto> 1, text0 2 \<mapsto> - 1]"
  have hyps: "tx_Action vote_tx0 = ActionAddVote \<or> tx_Action vote_tx0 = ActionSubVote" "?um (tx_Vote vote_tx0) = Some two_votes"
    "length two_votes < 2 ^ 63" by (simp_all add: vote_tx0_def two_votes_def)
  have ord: "distinct [text0 1, text0 2]" "set [text0 1, text0 2] = dom ?c" "distinct [text0 2, text0 1]" "set [text0 2, text0 1] = dom ?c"
    by (auto simp: text0_inject)
  have addr: "vc_addr (vote_candidate (text0 a) n) = a" for a n by (simp add: text0_def vc_addr_lower)
  have one: "vote_candidate (text0 1) 1 = \<lparr>vc_Address = text0 1, vc_Vote = 1, vc_Nickname = [], vc_Action = addVote_action\<rparr>"
    and two: "vote_candidate (text0 2) (- 1) = \<lparr>vc_Address = text0 2, vc_Vote = 1, vc_Nickname = [], vc_Action = subVote_action\<rparr>"
    by (simp_all add: vote_candidate_def)
  have "fst (effects 0 (keyed (counted ?c [text0 1, text0 2])) (delegates two_delegates)) = None"
    by (simp add: keyed_def counted_def text0_inject addr) (simp add: one two two_delegates_objects effect_def register_action_def
      addVote_action_def subVote_action_def)
  moreover have "\<exists>st1 e db1. voteChangeToDelegateState ?sha ?um [text0 1, text0 2] 7 vote_tx0 empty_db two_delegates 0 = Some (e, st1, db1) \<and>
      e = fst (effects 0 (keyed (counted ?c [text0 1, text0 2])) (delegates two_delegates))"
  proof -
    obtain tail st1 where t: "tail = []" and "\<forall>ord. distinct ord \<longrightarrow> set ord = dom ?c \<longrightarrow>
      (\<exists>e db1. voteChangeToDelegateState ?sha ?um ord 7 vote_tx0 empty_db two_delegates 0 = Some (e, st1, db1) \<and> ddb_inv db1 \<and>
        effects 0 (keyed (counted ?c ord @ tail)) (delegates two_delegates) = (e, delegates db1))"
      using voteChange_voting[of vote_tx0 ?um two_votes ?sha ?c two_delegates 7 empty_db 0, OF hyps(1,2) two_votes_counts hyps(3) two_delegates_inv]
      unfolding two_delegates_objects(1) by (elim exE conjE disjE) simp_all
    then show ?thesis using ord(1,2) by (metis append_Nil2 fst_conv)
  qed
  ultimately obtain st1 db1 where ok: "voteChangeToDelegateState ?sha ?um [text0 1, text0 2] 7 vote_tx0 empty_db two_delegates 0 = Some (None, st1, db1)"
    by auto
  note any = votes_any_order[of vote_tx0 ?um two_votes ?sha ?c two_delegates, OF hyps(1,2) two_votes_counts hyps(3) two_delegates_inv ord ok]
  obtain db2 where db2: "voteChangeToDelegateState ?sha ?um [text0 2, text0 1] 7 vote_tx0 empty_db two_delegates 0 = Some (None, st1, db2)"
      "delegates db2 = delegates db1" using any by blast
  have "map_option votes (delegates db1 1) = Some 10"
    using conjunct2[OF any, rule_format, of 1] by (auto simp: text0_eq text0_inject two_delegates_objects)
  moreover have "map_option votes (delegates db1 2) = Some 3"
    using conjunct2[OF any, rule_format, of 2] by (auto simp: text0_eq text0_inject two_delegates_objects)
  ultimately show ?thesis using db2 by simp
qed

text \<open>C24: when a candidate is refused the order does matter, and nothing is taken back. A transaction
  that votes for a registered delegate and for an unknown one is refused in either order with the
  same error, but in one order the registered delegate keeps the vote and in the other it does not.\<close>

theorem refused_votes_depend_on_order:
  assumes "tx_Action tx = ActionAddVote" "ddb_inv db" "delegates db a = Some x" "\<not> cancelled x" "delegates db b = None"
    and vs: "unmarshal (tx_Vote tx) = Some [\<lparr>vt_Candidate = Some a, vt_Operation = 0\<rparr>, \<lparr>vt_Candidate = Some b, vt_Operation = 0\<rparr>]"
  shows "(\<exists>st1 db1. voteChangeToDelegateState sha3 unmarshal [map lower (Hex sha3 a), map lower (Hex sha3 b)] sender tx statedb db bt =
        Some (Some count_error.ErrAddVote, st1, db1) \<and> delegates db1 = (delegates db)(a \<mapsto> x\<lparr>votes := votes x + 1\<rparr>)) \<and>
    (\<exists>st1 db1. voteChangeToDelegateState sha3 unmarshal [map lower (Hex sha3 b), map lower (Hex sha3 a)] sender tx statedb db bt =
        Some (Some count_error.ErrAddVote, st1, db1) \<and> delegates db1 = delegates db)"
proof -
  let ?A = "map lower (Hex sha3 a)" and ?B = "map lower (Hex sha3 b)"
  have ab: "a \<noteq> b" using assms(3,5) by auto
  have counts: "count_votes sha3 [\<lparr>vt_Candidate = Some a, vt_Operation = 0\<rparr>, \<lparr>vt_Candidate = Some b, vt_Operation = 0\<rparr>] Map.empty =
      Some [?A \<mapsto> 1, ?B \<mapsto> 1]"
    using ab by (simp add: Let_def lower_Hex_inject)
  have one: "vote_candidate s 1 = \<lparr>vc_Address = s, vc_Vote = 1, vc_Nickname = [], vc_Action = addVote_action\<rparr>" for s
    by (simp add: vote_candidate_def)
  have eff: "effect bt (vote_candidate s 1) (Some x) = Inr (Some (x\<lparr>votes := votes x + 1\<rparr>))"
    "effect bt (vote_candidate s 1) None = Inl count_error.ErrAddVote" for s
    using assms(4) by (simp_all add: effect_def one register_action_def addVote_action_def)
  obtain tail st where run: "\<And>ord. distinct ord \<Longrightarrow> set ord = dom [?A \<mapsto> 1, ?B \<mapsto> 1] \<Longrightarrow>
      \<exists>e db1. voteChangeToDelegateState sha3 unmarshal ord sender tx statedb db bt = Some (e, st, db1) \<and> ddb_inv db1 \<and>
        effects bt (keyed (counted [?A \<mapsto> 1, ?B \<mapsto> 1] ord @ tail)) (delegates db) = (e, delegates db1)"
    using voteChange_voting[of tx unmarshal _ sha3 _ db sender statedb bt, OF _ vs counts _ assms(2)] assms(1) by auto
  have 1: "effects bt (keyed (counted [?A \<mapsto> 1, ?B \<mapsto> 1] [?A, ?B] @ tail)) (delegates db) =
      (Some count_error.ErrAddVote, (delegates db)(a \<mapsto> x\<lparr>votes := votes x + 1\<rparr>))"
    using ab assms(3,5) by (simp add: keyed_def counted_def lower_Hex_inject vc_addr_lower eff)
  have 2: "effects bt (keyed (counted [?A \<mapsto> 1, ?B \<mapsto> 1] [?B, ?A] @ tail)) (delegates db) =
      (Some count_error.ErrAddVote, delegates db)"
    using ab assms(3,5) by (simp add: keyed_def counted_def lower_Hex_inject vc_addr_lower eff)
  show ?thesis using run[of "[?A, ?B]"] run[of "[?B, ?A]"] 1 2 ab by (force simp: lower_Hex_inject)
qed

theorem refused_votes_depend_on_order_witness:
  "\<exists>st1 db1. voteChangeToDelegateState (\<lambda>_. replicate 32 0)
       (\<lambda>_. Some [\<lparr>vt_Candidate = Some 1, vt_Operation = 0\<rparr>, \<lparr>vt_Candidate = Some 3, vt_Operation = 0\<rparr>])
       [text0 1, text0 3] 7 vote_tx0 empty_db two_delegates 0 = Some (Some count_error.ErrAddVote, st1, db1) \<and>
     map_option votes (delegates db1 1) = Some 10"
  using conjunct1[OF refused_votes_depend_on_order[where tx = vote_tx0 and db = two_delegates and a = 1 and b = 3 and sender = 7
        and x = "\<lparr>votes = 9, nick = ''a'', since = 10, cancelled = False\<rparr>" and statedb = empty_db and bt = 0
        and unmarshal = "\<lambda>_. Some [\<lparr>vt_Candidate = Some 1, vt_Operation = 0\<rparr>, \<lparr>vt_Candidate = Some 3, vt_Operation = 0\<rparr>]"
        and ?sha3.0 = "\<lambda>_. replicate 32 0"]]
    two_delegates_inv
  by (auto simp: vote_tx0_def two_delegates_objects text0_eq)

end
