(* ===== verification/State_Views.thy ===== *)
theory State_Views
  imports Snapshots
begin

text \<open>
  What each operation of the account state does to the view of the state, as one equation per
  operation: the clients (calls of the virtual machine, the state transition) compute with these
  instead of with objects, caches and journals.
\<close>

section \<open>The view of an account\<close>

definition zero_view :: "backend \<Rightarrow> account_view" where
  "zero_view D = obj_view D (newObject 0 (zeroAccount D))"

definition view_of :: "backend \<Rightarrow> StateDB \<Rightarrow> address \<Rightarrow> account_view" where
  "view_of D s a = (case sv_acc (obs D s) a of None \<Rightarrow> zero_view D | Some w \<Rightarrow> w)"

lemma zero_view_simps [simp]:
  "v_nonce (zero_view D) = 0" "v_balance (zero_view D) = 0" "v_code (zero_view D) = None"
  "v_assets (zero_view D) aid = 0" "v_votes (zero_view D) = []" "\<not> v_suicided (zero_view D)"
  "v_lock (zero_view D) = None" "v_codehash (zero_view D) = emptyCodeHash D"
  by (simp_all add: zero_view_def obj_view_simps newObject_def zeroAccount_def code_value_def BalanceOf_def
      indexOf_def NewAssets_def sort_Search_def)

lemma zero_view_balance: "(zero_view D)\<lparr>v_balance := 0\<rparr> = zero_view D"
  by (rule account_view.equality) simp_all

lemma obj_view_zero: "so_data o1 = zeroAccount D \<Longrightarrow> so_code o1 = None \<Longrightarrow> so_cachedStorage o1 = Map.empty \<Longrightarrow>
    so_trie o1 = None \<Longrightarrow> \<not> so_suicided o1 \<Longrightarrow> obj_view D o1 = zero_view D"
  by (simp add: zero_view_def obj_view_simps newObject_def)

lemma view_of_obs: "obs D s = obs D t \<Longrightarrow> view_of D s = view_of D t"
  by (simp add: view_of_def fun_eq_iff)

lemma view_of_put [simp]:
  "obs D t = put_view a w (obs D s) \<Longrightarrow> view_of D t = (view_of D s)(a := w)"
  by (simp add: view_of_def fun_eq_iff)

text \<open>Reads.\<close>

lemma view_reads:
  "fst (GetBalance a s) = v_balance (view_of D s a)" "fst (GetNonce a s) = v_nonce (view_of D s a)"
  "fst (GetCode D a s) = v_code (view_of D s a)" "fst (GetAssetBalance a aid s) = v_assets (view_of D s a) aid"
  "fst (GetVoteList a s) = v_votes (view_of D s a)" "fst (Exist a s) = (sv_acc (obs D s) a \<noteq> None)"
  "fst (GetCodeHash a s) = (case sv_acc (obs D s) a of None \<Rightarrow> 0 | Some w \<Rightarrow> v_codehash w)"
  by (auto simp: db_read_defs view_of_def obs_def peek_def obj_view_def GetCodeHash_def zero_view_simps
      split: prod.split option.split)

lemma obs_reads_state:
  "obs D (snd (GetBalance a s)) = obs D s" "obs D (snd (GetNonce a s)) = obs D s"
  "obs D (snd (GetAssetBalance a aid s)) = obs D s" "obs D (snd (Exist a s)) = obs D s"
  "obs D (snd (GetCodeHash a s)) = obs D s" "obs D (snd (GetVoteList a s)) = obs D s"
  "obs D (snd (GetLockBalance a s)) = obs D s"
  by (auto simp: db_read_defs GetCodeHash_def getStateObject_obs split: prod.split option.split)

section \<open>Writes\<close>

lemma createObject_view:
  assumes "sdb_inv s" "createObject D a s = (o1, p, s1)"
  shows "obj_view D o1 = zero_view D" "obs D s1 = put_view a (zero_view D) (obs D s)"
    "map_option (obj_view D) p = sv_acc (obs D s) a"
proof -
  obtain r s0 where g: "getStateObject a s = (r, s0)" by fastforce
  have data: "(zeroAccount D)\<lparr>acc_Nonce := 0\<rparr> = zeroAccount D" by (simp add: zeroAccount_def)
  have o1: "o1 = (newObject a (zeroAccount D))\<lparr>so_onDirty := False\<rparr>" and p: "p = r"
    using assms(2) g by (auto simp: createObject_def Let_def)
  show zero: "obj_view D o1 = zero_view D"
    unfolding o1 by (rule obj_view_zero) (simp_all add: newObject_def)
  have s1: "s1 = append_journal (case r of None \<Rightarrow> createObjectChange a | Some p \<Rightarrow> resetObjectChange p)
      (setNonce (newObject a (zeroAccount D)) 0 s0)"
    using assms(2) g by (auto simp: createObject_def Let_def)
  have "obj_view D ((newObject a (zeroAccount D))\<lparr>so_data := zeroAccount D\<rparr>) = zero_view D"
    by (rule obj_view_zero) (simp_all add: newObject_def)
  then show "obs D s1 = put_view a (zero_view D) (obs D s)"
    unfolding s1 using getStateObject_obs[OF g, of D] by (simp add: setNonce_def view_simps data)
  show "map_option (obj_view D) p = sv_acc (obs D s) a"
    using getStateObject_peek(2)[OF g] by (simp add: p obs_def)
qed

lemma GetOrNew_view:
  assumes "sdb_inv s" "GetOrNewStateObject D a s = (o1, s1)"
  shows "obj_view D o1 = view_of D s a" "obs D s1 = put_view a (view_of D s a) (obs D s)"
proof -
  obtain r s0 where g: "getStateObject a s = (r, s0)" by fastforce
  note g' = getStateObject_inv[OF g assms(1)] getStateObject_obs[OF g, of D] getStateObject_peek(2)[OF g]
  have "obj_view D o1 = view_of D s a \<and> obs D s1 = put_view a (view_of D s a) (obs D s)"
  proof (cases r)
    case None
    with assms(2) g obtain p where c: "createObject D a s0 = (o1, p, s1)"
      by (auto simp: GetOrNewStateObject_def split: prod.splits)
    have "sv_acc (obs D s) a = None" using g'(3) None by (simp add: obs_def)
    then show ?thesis using createObject_view[OF g'(1) c] g'(2) by (simp add: view_of_def)
  next
    case (Some o2)
    with assms(2) g have "o1 = o2" "s1 = s0" by (auto simp: GetOrNewStateObject_def)
    moreover have "sv_acc (obs D s) a = Some (obj_view D o2)" using g'(3)[symmetric] Some by (simp add: obs_def)
    ultimately show ?thesis using g'(2) by (simp add: view_of_def put_view_same)
  qed
  then show "obj_view D o1 = view_of D s a" "obs D s1 = put_view a (view_of D s a) (obs D s)" by blast+
qed

lemma view_write:
  assumes "sdb_inv s" and f: "\<And>o1 s1. live o1 s1 \<Longrightarrow> sdb_inv s1 \<Longrightarrow> so_address o1 = a \<Longrightarrow>
      obs D (f o1 s1) = put_view a (g (obj_view D o1)) (obs D s1)"
  shows "obs D (case GetOrNewStateObject D a s of (o1, s1) \<Rightarrow> f o1 s1) = put_view a (g (view_of D s a)) (obs D s)"
proof (cases "GetOrNewStateObject D a s")
  case (Pair o1 s1)
  from reverts_GetOrNew[OF assms(1) Pair] GetOrNew_view[OF assms(1) Pair] f[of o1 s1] Pair
  show ?thesis by simp
qed

lemma obs_live: "live o1 s \<Longrightarrow> so_address o1 = a \<Longrightarrow> put_view a (obj_view D o1) (obs D s) = obs D s"
  using put_view_same[OF live_obs] by blast

lemma obs_AddBalance:
  "sdb_inv s \<Longrightarrow> obs D (AddBalance D a v s) =
     put_view a ((view_of D s a)\<lparr>v_balance := v_balance (view_of D s a) + v\<rparr>) (obs D s)"
  unfolding AddBalance_def
  by (rule view_write[where g = "\<lambda>w. w\<lparr>v_balance := v_balance w + v\<rparr>"])
    (auto simp: obj_AddBalance_def obj_SetBalance_def setBalance_def touch_def live_def view_simps obj_view_simps
      obs_live[unfolded live_def obj_view_simps])

lemma obs_SubBalance:
  "sdb_inv s \<Longrightarrow> obs D (SubBalance D a v s) =
     put_view a ((view_of D s a)\<lparr>v_balance := v_balance (view_of D s a) - v\<rparr>) (obs D s)"
  unfolding SubBalance_def
  by (rule view_write[where g = "\<lambda>w. w\<lparr>v_balance := v_balance w - v\<rparr>"])
    (auto simp: obj_SubBalance_def obj_SetBalance_def setBalance_def live_def view_simps obj_view_simps
      obs_live[unfolded live_def obj_view_simps])

lemma obs_SetNonce:
  "sdb_inv s \<Longrightarrow> obs D (SetNonce D a n s) = put_view a ((view_of D s a)\<lparr>v_nonce := n\<rparr>) (obs D s)"
  unfolding SetNonce_def
  by (rule view_write[where g = "\<lambda>w. w\<lparr>v_nonce := n\<rparr>"])
    (auto simp: obj_SetNonce_def setNonce_def live_def view_simps obj_view_simps)

lemma obs_CreateAccount:
  assumes "sdb_inv s"
  shows "obs D (CreateAccount D a s) = put_view a ((zero_view D)\<lparr>v_balance := v_balance (view_of D s a)\<rparr>) (obs D s)"
proof (cases "createObject D a s")
  case (fields o1 p s1)
  note v = createObject_view[OF assms fields] and f = createObject_facts[OF assms fields]
  show ?thesis
  proof (cases p)
    case None
    with v(3) have "view_of D s a = zero_view D" by (auto simp: view_of_def)
    then show ?thesis using v(2) None by (simp add: CreateAccount_def fields zero_view_balance)
  next
    case (Some q)
    with v(3)[symmetric] have "v_balance (view_of D s a) = acc_Balance (so_data q)" by (simp add: view_of_def obj_view_def split: option.splits)
    moreover have "obj_view D (o1\<lparr>so_data := (so_data o1)\<lparr>acc_Balance := b\<rparr>\<rparr>) = (obj_view D o1)\<lparr>v_balance := b\<rparr>" for b
      by (simp add: obj_view_simps)
    ultimately show ?thesis using v f Some by (simp add: CreateAccount_def fields setBalance_def view_simps live_def)
  qed
qed

text \<open>Transfers of an asset: amounts are not negative.\<close>

lemma obs_AddAssetBalance:
  assumes "sdb_inv s" "0 \<le> v"
  shows "obs D (AddAssetBalance D a aid v s) =
     put_view a ((view_of D s a)\<lparr>v_assets := (v_assets (view_of D s a))(aid := v_assets (view_of D s a) aid + v)\<rparr>) (obs D s)"
  unfolding AddAssetBalance_def
  by (rule view_write[OF assms(1), where g = "\<lambda>w. w\<lparr>v_assets := (v_assets w)(aid := v_assets w aid + v)\<rparr>"])
    (use assms(2) live_ok in \<open>auto simp: obj_AddAssetBalance_def Let_def live_def view_simps obj_view_simps obj_view_asset\<close>)

lemma obj_SubAssetBalance_view:
  assumes "live o1 s" "sdb_inv s" "0 \<le> v"
  shows "0 < v \<Longrightarrow> fst (obj_SubAssetBalance o1 aid v s) \<longleftrightarrow> v \<le> v_assets (obj_view D o1) aid"
    "obs D (snd (obj_SubAssetBalance o1 aid v s)) =
       put_view (so_address o1) ((obj_view D o1)\<lparr>v_assets := (v_assets (obj_view D o1))(aid := v_assets (obj_view D o1) aid -
         (if v \<le> v_assets (obj_view D o1) aid then v else 0))\<rparr>) (obs D s)"
proof -
  let ?as = "acc_AssetList (so_data o1)" and ?x = "\<lparr>ID = aid, Balance = v\<rparr>"
  have ok: "assets_ok ?as" "obj_ok o1" using live_ok[OF assms(1,2)] by (simp_all add: obj_ok_def)
  obtain b as' where sub: "SubAsset ?as ?x = (b, as')" by fastforce
  note asset = obj_view_asset(1)[OF ok(2), of ?x]
  have fst: "0 < v \<Longrightarrow> b \<longleftrightarrow> v \<le> BalanceOf ?as aid" using al.sub_ok[OF ok(1), of ?x] sub by simp
  then show "0 < v \<Longrightarrow> fst (obj_SubAssetBalance o1 aid v s) \<longleftrightarrow> v \<le> v_assets (obj_view D o1) aid"
    by (simp add: obj_SubAssetBalance_def Let_def sub obj_view_def)
  show "obs D (snd (obj_SubAssetBalance o1 aid v s)) =
       put_view (so_address o1) ((obj_view D o1)\<lparr>v_assets := (v_assets (obj_view D o1))(aid := v_assets (obj_view D o1) aid -
         (if v \<le> v_assets (obj_view D o1) aid then v else 0))\<rparr>) (obs D s)"
  proof (cases b)
    case True
    then show ?thesis using asset assms(1,3) sub
      by (simp add: obj_SubAssetBalance_def Let_def live_def view_simps obj_view_simps)
  next
    case False
    with fst assms(3) have "(if v \<le> v_assets (obj_view D o1) aid then v else 0) = 0"
      by (cases "0 < v") (auto simp: obj_view_def)
    then show ?thesis using False sub obs_live[OF assms(1) refl]
      by (simp add: obj_SubAssetBalance_def Let_def)
  qed
qed

lemma SubAssetBalance_view:
  assumes "sdb_inv s" "0 \<le> v"
  shows "0 < v \<Longrightarrow> fst (SubAssetBalance D a aid v s) \<longleftrightarrow> v \<le> v_assets (view_of D s a) aid"
    "obs D (snd (SubAssetBalance D a aid v s)) =
       put_view a ((view_of D s a)\<lparr>v_assets := (v_assets (view_of D s a))(aid := v_assets (view_of D s a) aid -
         (if v \<le> v_assets (view_of D s a) aid then v else 0))\<rparr>) (obs D s)"
proof -
  obtain o1 s1 where g: "GetOrNewStateObject D a s = (o1, s1)" by fastforce
  note f = reverts_GetOrNew[OF assms(1) g] GetOrNew_view[OF assms(1) g]
  note sub = obj_SubAssetBalance_view[OF f(2,4) assms(2), where aid = aid and D = D]
  show "0 < v \<Longrightarrow> fst (SubAssetBalance D a aid v s) \<longleftrightarrow> v \<le> v_assets (view_of D s a) aid"
    using sub(1) f by (simp add: SubAssetBalance_def g)
  show "obs D (snd (SubAssetBalance D a aid v s)) =
       put_view a ((view_of D s a)\<lparr>v_assets := (v_assets (view_of D s a))(aid := v_assets (view_of D s a) aid -
         (if v \<le> v_assets (view_of D s a) aid then v else 0))\<rparr>) (obs D s)"
    using sub(2) f by (simp add: SubAssetBalance_def g)
qed

text \<open>Each operation only extends the journal.\<close>

lemma extends_ops:
  assumes inv: "sdb_inv s"
  shows "extends D s (snd (GetBalance a s))" "extends D s (snd (GetNonce a s))"
    "extends D s (snd (GetAssetBalance a aid s))" "extends D s (snd (Exist a s))" "extends D s (snd (GetCodeHash a s))"
    "extends D s (snd (GetCode D a s))" "extends D s (AddBalance D a v s)" "extends D s (SubBalance D a v s)"
    "extends D s (SetNonce D a n s)" "extends D s (CreateAccount D a s)" "extends D s (SetCode D a c s)"
    "extends D s (SetAbi D a abi s)" "extends D s (snd (Snapshot s))" "extends D s s"
    "0 \<le> v \<Longrightarrow> extends D s (AddAssetBalance D a aid v s)" "0 \<le> v \<Longrightarrow> extends D s (snd (SubAssetBalance D a aid v s))"
proof -
  note ops = extends_run_op[OF _ inv, of D]
  show "extends D s (snd (GetBalance a s))" using ops[of "OpGetBalance a"] by simp
  show "extends D s (snd (GetNonce a s))" using ops[of "OpGetNonce a"] by simp
  show "extends D s (snd (GetAssetBalance a aid s))" using ops[of "OpGetAssetBalance a aid"] by simp
  show "extends D s (snd (Exist a s))" using ops[of "OpExist a"] by simp
  show "extends D s (snd (GetCodeHash a s))" using ops[of "OpGetCodeHash a"] by simp
  show "extends D s (snd (GetCode D a s))" using ops[of "OpGetCode a"] by simp
  show "extends D s (AddBalance D a v s)" using ops[of "OpAddBalance a v"] by simp
  show "extends D s (SubBalance D a v s)" using ops[of "OpSubBalance a v"] by simp
  show "extends D s (SetNonce D a n s)" using ops[of "OpSetNonce a n"] by simp
  show "extends D s (CreateAccount D a s)" using ops[of "OpCreateAccount a"] by simp
  show "extends D s (SetCode D a c s)" using ops[of "OpSetCode a c"] by simp
  show "extends D s (SetAbi D a abi s)" using ops[of "OpSetAbi a abi"] by simp
  show "extends D s (snd (Snapshot s))" using extends_Snapshot[of s _ _ D] inv by (cases "Snapshot s") auto
  show "extends D s s" using extends_same_revs sj.reversible_refl[OF inv] by blast
  show "0 \<le> v \<Longrightarrow> extends D s (AddAssetBalance D a aid v s)" using ops[of "OpAddAssetBalance a aid v"] by simp
  show "0 \<le> v \<Longrightarrow> extends D s (snd (SubAssetBalance D a aid v s))" using ops[of "OpSubAssetBalance a aid v"] by simp
qed

lemma obs_Snapshot: "obs D (snd (Snapshot s)) = obs D s"
  using Snapshot_facts(5)[of s "fst (Snapshot s)" "snd (Snapshot s)"] by simp

lemma obs_GetCode:
  assumes "sdb_inv s"
  shows "obs D (snd (GetCode D a s)) = obs D s"
proof (cases "getStateObject a s")
  case (Pair r s1)
  note g = getStateObject_obs[OF Pair, of D] getStateObject_live[of a s _ s1] assms Pair
  show ?thesis
  proof (cases r)
    case (Some o1)
    obtain c o2 where c: "obj_Code D o1 = (c, o2)" by fastforce
    have "live o1 s1" "so_address o1 = a" using g Some by auto
    then show ?thesis using c obj_Code_frame[OF c] Some Pair g(1) obs_live[of o1 s1 a D]
      by (simp add: GetCode_def view_simps live_def)
  qed (use g in \<open>simp add: GetCode_def\<close>)
qed

lemma obs_SetCode:
  assumes "sdb_inv s"
  shows "obs D (SetCode D a c s) =
    put_view a ((view_of D s a)\<lparr>v_codehash := keccak256 D c, v_code := Some c\<rparr>) (obs D s)"
  unfolding SetCode_def
proof (rule view_write[OF assms, where g = "\<lambda>w. w\<lparr>v_codehash := keccak256 D c, v_code := Some c\<rparr>"])
  fix o1 s1 assume o1: "live o1 s1" "sdb_inv s1" "so_address o1 = a"
  obtain p o2 where p: "obj_Code D o1 = (p, o2)" by fastforce
  note fr = obj_Code_frame[OF p]
  have "obj_view D (o2\<lparr>so_code := Some c, so_data := (so_data o2)\<lparr>acc_CodeHash := h\<rparr>, so_dirtyCode := True\<rparr>) =
      (obj_view D o2)\<lparr>v_codehash := h, v_code := Some c\<rparr>" for h
    by (simp add: obj_view_simps code_value_def)
  then show "obs D (obj_SetCode D o1 (keccak256 D c) c s1) =
      put_view a ((obj_view D o1)\<lparr>v_codehash := keccak256 D c, v_code := Some c\<rparr>) (obs D s1)"
    using fr o1 by (simp add: obj_SetCode_def p setCode_def live_def view_simps)
qed

lemma obs_SetAbi:
  assumes "sdb_inv s" "abi \<noteq> [] \<Longrightarrow> sv_acc (obs D s) a \<noteq> None"
  shows "obs D (SetAbi D a abi s) = obs D s"
proof (cases "abi = []")
  case False
  obtain o1 s1 where g: "GetOrNewStateObject D a s = (o1, s1)" by fastforce
  note f = GetOrNew_view[OF assms(1) g] and r = reverts_GetOrNew[OF assms(1) g]
  have s1: "obs D s1 = obs D s" using f(2) assms(2)[OF False] by (auto simp: view_of_def put_view_same)
  have "obj_view D (o1\<lparr>so_abi := abi\<rparr>) = obj_view D o1" by (simp add: obj_view_simps)
  then show ?thesis
    using False g s1 r obs_live[OF r(2,3), of D] by (simp add: SetAbi_def view_simps live_def)
qed (simp add: SetAbi_def)

end
