(* ===== verification/Evm_Call.thy ===== *)
theory Evm_Call
  imports State_Views Vote_Counting
begin

text \<open>
  The entry points of the virtual machine, \<open>Call\<close>, \<open>CallCode\<close>, \<open>DelegateCall\<close>, \<open>StaticCall\<close> and
  \<open>Create\<close> of \<open>core/vm/evm.go\<close>, with \<open>core/vm/contract.go\<close> and the transfer functions of
  \<open>core/evm.go\<close>. The instruction loop of the interpreter is the field \<open>exec\<close> of the machine, and the
  native contracts are the field \<open>Precompiles\<close>; what the calls rely on is stated as \<open>exec_ok\<close>.
\<close>

section \<open>Contracts\<close>

datatype vm_error = ErrOutOfGas | ErrCodeStoreOutOfGas | ErrDepth | ErrInsufficientBalance | vm_ErrVote
  | ErrContractAddressCollision | errExecutionReverted | errMaxCodeSizeExceeded
  | WrongParameter | EmptyVoteList | AlreadyRegistered | ExecError string

record Contract =
  c_CallerAddress :: address
  c_self :: address
  c_Code :: "byte list"
  c_CodeHash :: hash
  c_CodeAddr :: "address option"
  c_Gas :: uint64
  c_value :: "int option"
  c_asset :: "address option"
  c_DelegateCall :: bool

text \<open>A caller is a plain account or a running contract.\<close>

datatype ContractRef = AccountRef address | ContractOf Contract

fun ref_Address :: "ContractRef \<Rightarrow> address" where
  "ref_Address (AccountRef a) = a"
| "ref_Address (ContractOf c) = c_self c"

definition NewContract :: "ContractRef \<Rightarrow> ContractRef \<Rightarrow> address option \<Rightarrow> int option \<Rightarrow> uint64 \<Rightarrow> Contract" where
  "NewContract caller object asst val gas =
     \<lparr>c_CallerAddress = ref_Address caller, c_self = ref_Address object, c_Code = [], c_CodeHash = 0,
      c_CodeAddr = None, c_Gas = gas, c_value = val, c_asset = asst, c_DelegateCall = False\<rparr>"

text \<open>\<open>AsDelegate\<close> asserts that the caller is a contract; the assertion panics otherwise.\<close>

definition AsDelegate :: "ContractRef \<Rightarrow> Contract \<Rightarrow> Contract option" where
  "AsDelegate caller c =
     (case caller of
        AccountRef _ \<Rightarrow> None
      | ContractOf parent \<Rightarrow>
          Some (c\<lparr>c_DelegateCall := True, c_CallerAddress := c_CallerAddress parent, c_value := c_value parent\<rparr>))"

definition GetByte :: "Contract \<Rightarrow> uint64 \<Rightarrow> byte" where
  "GetByte c n = (if unat n < length (c_Code c) then c_Code c ! unat n else 0)"

definition UseGas :: "uint64 \<Rightarrow> Contract \<Rightarrow> bool \<times> Contract" where
  "UseGas gas c = (if c_Gas c < gas then (False, c) else (True, c\<lparr>c_Gas := c_Gas c - gas\<rparr>))"

definition SetCallCode :: "address option \<Rightarrow> hash \<Rightarrow> byte list \<Rightarrow> Contract \<Rightarrow> Contract" where
  "SetCallCode a h code c = c\<lparr>c_Code := code, c_CodeHash := h, c_CodeAddr := a\<rparr>"

section \<open>The machine\<close>

definition CallCreateDepth :: nat where "CallCreateDepth = 1024"
definition MaxCodeSize :: nat where "MaxCodeSize = 24576"
definition CreateDataGas :: uint64 where "CreateDataGas = 12"
definition TxABIGas :: uint64 where "TxABIGas = 3"

record precompile =
  RequiredGas :: "byte list \<Rightarrow> uint64"
  pc_Run :: "byte list \<Rightarrow> byte list \<times> vm_error option"

type_synonym run_result = "byte list \<times> uint64 \<times> vm_error option \<times> StateDB"

text \<open>The part of the context and of the configuration the calls read. \<open>vote_spare\<close> is what the
  backing array of the caller's vote list holds beyond it.\<close>

record EVM =
  Coinbase :: address
  DelegateList :: "(address \<rightharpoonup> Candidate) option"
  vote_spare :: "address list"
  depth :: nat
  NoRecursion :: bool
  readOnly :: bool
  evm_IsEpiphron :: bool
  maxElectDelegate :: int
  Precompiles :: "address \<rightharpoonup> precompile"
  exec :: "nat \<Rightarrow> bool \<Rightarrow> Contract \<Rightarrow> byte list \<Rightarrow> StateDB \<Rightarrow> run_result option"

definition RunPrecompiledContract :: "precompile \<Rightarrow> byte list \<Rightarrow> Contract \<Rightarrow> byte list \<times> uint64 \<times> vm_error option" where
  "RunPrecompiledContract p input c =
     (case UseGas (RequiredGas p input) c of
        (True, c1) \<Rightarrow> (case pc_Run p input of (ret, e) \<Rightarrow> (ret, c_Gas c1, e))
      | (False, c1) \<Rightarrow> ([], c_Gas c1, Some ErrOutOfGas))"

text \<open>\<open>Interpreter.Run\<close>: nothing happens without code, the loop is \<open>exec\<close>.\<close>

definition interpreter_Run :: "EVM \<Rightarrow> Contract \<Rightarrow> byte list \<Rightarrow> StateDB \<Rightarrow> run_result option" where
  "interpreter_Run evm c input s =
     (if c_Code c = [] then Some ([], c_Gas c, None, s)
      else exec evm (depth evm + 1) (readOnly evm) c input s)"

definition vm_run :: "EVM \<Rightarrow> Contract \<Rightarrow> byte list \<Rightarrow> StateDB \<Rightarrow> run_result option" where
  "vm_run evm c input s =
     (case Option.bind (c_CodeAddr c) (Precompiles evm) of
        Some p \<Rightarrow> (case RunPrecompiledContract p input c of (ret, g, e) \<Rightarrow> Some (ret, g, e, s))
      | None \<Rightarrow> interpreter_Run evm c input s)"

section \<open>Transfers\<close>

definition CanTransfer :: "address \<Rightarrow> address option \<Rightarrow> int \<Rightarrow> StateDB \<Rightarrow> bool \<times> StateDB" where
  "CanTransfer a asst amount s =
     (case asst of
        None \<Rightarrow> (case GetBalance a s of (b, s1) \<Rightarrow> (amount \<le> b, s1))
      | Some aid \<Rightarrow> (case GetAssetBalance a aid s of (b, s1) \<Rightarrow> (amount \<le> b, s1)))"

definition Transfer :: "backend \<Rightarrow> address \<Rightarrow> address \<Rightarrow> address option \<Rightarrow> int \<Rightarrow> StateDB \<Rightarrow> StateDB" where
  "Transfer D sender recipient asst amount s =
     (case asst of
        None \<Rightarrow> AddBalance D recipient amount (SubBalance D sender amount s)
      | Some aid \<Rightarrow>
          (case SubAssetBalance D sender aid amount s of
             (True, s1) \<Rightarrow> AddAssetBalance D recipient aid amount s1
           | (False, s1) \<Rightarrow> s1))"

section \<open>Calls\<close>

text \<open>The variadic arguments of \<open>Call\<close>.\<close>

datatype call_arg = VoteArg "Vote list" | AssetArg "address option" | OtherArg

fun call_args :: "call_arg list \<Rightarrow> Vote list \<times> address option \<Rightarrow> (Vote list \<times> address option) option" where
  "call_args [] (vs, asst) = Some (vs, asst)"
| "call_args (VoteArg l # as) (vs, asst) = call_args as (l, asst)"
| "call_args (AssetArg x # as) (vs, asst) = call_args as (vs, x)"
| "call_args (OtherArg # as) r = None"

text \<open>The end all calls share: run the code, and on an error go back to the snapshot and, unless the
  code reverted on its own, use up the gas.\<close>

definition run_contract ::
  "EVM \<Rightarrow> nat \<Rightarrow> Contract \<Rightarrow> byte list \<Rightarrow> StateDB \<Rightarrow> ((byte list \<times> uint64 \<times> vm_error option) \<times> StateDB) option" where
  "run_contract evm snapshot c input s =
     (case vm_run evm c input s of
        None \<Rightarrow> None
      | Some (ret, g, None, s1) \<Rightarrow> Some ((ret, g, None), s1)
      | Some (ret, g, Some e, s1) \<Rightarrow>
          map_option (\<lambda>s2. ((ret, if e \<noteq> errExecutionReverted then 0 else g, Some e), s2))
            (RevertToSnapshot snapshot (evm_IsEpiphron evm) s1))"

definition call_contract ::
  "backend \<Rightarrow> EVM \<Rightarrow> nat \<Rightarrow> address \<Rightarrow> Contract \<Rightarrow> byte list \<Rightarrow> StateDB \<Rightarrow>
   ((byte list \<times> uint64 \<times> vm_error option) \<times> StateDB) option" where
  "call_contract D evm snapshot addr c input s =
     (let (h, s1) = GetCodeHash addr s;
          (code, s2) = GetCode D addr s1 in
      run_contract evm snapshot (SetCallCode (Some addr) h (case code of None \<Rightarrow> [] | Some x \<Rightarrow> x) c) input s2)"

text \<open>What a call does before it runs code: vote, register, or transfer. \<open>None\<close> is a panic (a nil list
  of delegates, a nil lock balance).\<close>

definition call_effect ::
  "backend \<Rightarrow> EVM \<Rightarrow> nat \<Rightarrow> address \<Rightarrow> address \<Rightarrow> uint64 \<Rightarrow> int \<Rightarrow> Vote list \<Rightarrow> address option \<Rightarrow> StateDB \<Rightarrow>
   (vm_error option \<times> StateDB) option" where
  "call_effect D evm snapshot caller addr action val voteList asst s =
     (if action = ActionAddVote \<or> action = ActionSubVote then
        (if voteList = [] then Some (Some EmptyVoteList, s)
         else case DelegateList evm of
           None \<Rightarrow> None
         | Some dl \<Rightarrow>
             (case evm_Vote D (vote_spare evm) caller voteList dl (maxElectDelegate evm) s of
                (VotePanic, _) \<Rightarrow> None
              | (ErrVote, s1) \<Rightarrow>
                  map_option (\<lambda>s2. (Some vm_ErrVote, s2)) (RevertToSnapshot snapshot (evm_IsEpiphron evm) s1)
              | (VoteOk _, s1) \<Rightarrow> Some (None, s1)))
      else if action = ActionRegister then
        (case DelegateList evm of
           None \<Rightarrow> None
         | Some dl \<Rightarrow> Some (if dl caller \<noteq> None then Some AlreadyRegistered else None, s))
      else Some (None, Transfer D caller addr asst val s))"

definition evm_Call ::
  "backend \<Rightarrow> EVM \<Rightarrow> ContractRef \<Rightarrow> address \<Rightarrow> byte list \<Rightarrow> uint64 \<Rightarrow> uint64 \<Rightarrow> int \<Rightarrow> call_arg list \<Rightarrow> StateDB \<Rightarrow>
   ((byte list \<times> uint64 \<times> vm_error option) \<times> StateDB) option" where
  "evm_Call D evm caller addr input gas action val args s =
     (if NoRecursion evm \<and> 0 < depth evm then Some (([], gas, None), s)
      else case call_args args ([], None) of
        None \<Rightarrow> Some (([], gas, Some WrongParameter), s)
      | Some (voteList, asst) \<Rightarrow>
          if CallCreateDepth < depth evm then Some (([], gas, Some ErrDepth), s)
          else
            (let from = ref_Address caller;
                 checkValue = (if action = ActionSubVote then - val else val);
                 (can, s1) = CanTransfer from asst checkValue s;
                 (can', s2) = (if can \<and> action = ActionRegister then CanTransfer from None TxGasAgentCreation s1
                               else (True, s1)) in
             if \<not> can \<or> \<not> can' then Some (([], gas, Some ErrInsufficientBalance), s2)
             else
               (let (snapshot, s3) = Snapshot s2;
                    (ex, s4) = Exist addr s3 in
                if \<not> ex \<and> Precompiles evm addr = None \<and> val = 0 then Some (([], gas, None), s4)
                else
                  (let s5 = (if ex then s4 else CreateAccount D addr s4) in
                   case call_effect D evm snapshot from addr action val voteList asst s5 of
                     None \<Rightarrow> None
                   | Some (Some e, s6) \<Rightarrow> Some (([], gas, Some e), s6)
                   | Some (None, s6) \<Rightarrow>
                       call_contract D evm snapshot addr (NewContract caller (AccountRef addr) asst (Some val) gas) input s6))))"

definition CallCode ::
  "backend \<Rightarrow> EVM \<Rightarrow> ContractRef \<Rightarrow> address \<Rightarrow> byte list \<Rightarrow> uint64 \<Rightarrow> int \<Rightarrow> StateDB \<Rightarrow>
   ((byte list \<times> uint64 \<times> vm_error option) \<times> StateDB) option" where
  "CallCode D evm caller addr input gas val s =
     (if NoRecursion evm \<and> 0 < depth evm then Some (([], gas, None), s)
      else if CallCreateDepth < depth evm then Some (([], gas, Some ErrDepth), s)
      else
        (let (can, s1) = CanTransfer (ref_Address caller) None val s in
         if \<not> can then Some (([], gas, Some ErrInsufficientBalance), s1)
         else
           (let (snapshot, s2) = Snapshot s1 in
            call_contract D evm snapshot addr
              (NewContract caller (AccountRef (ref_Address caller)) None (Some val) gas) input s2)))"

definition DelegateCall ::
  "backend \<Rightarrow> EVM \<Rightarrow> ContractRef \<Rightarrow> address \<Rightarrow> byte list \<Rightarrow> uint64 \<Rightarrow> StateDB \<Rightarrow>
   ((byte list \<times> uint64 \<times> vm_error option) \<times> StateDB) option" where
  "DelegateCall D evm caller addr input gas s =
     (if NoRecursion evm \<and> 0 < depth evm then Some (([], gas, None), s)
      else if CallCreateDepth < depth evm then Some (([], gas, Some ErrDepth), s)
      else
        (let (snapshot, s1) = Snapshot s in
         case AsDelegate caller (NewContract caller (AccountRef (ref_Address caller)) None None gas) of
           None \<Rightarrow> None
         | Some c \<Rightarrow> call_contract D evm snapshot addr c input s1))"

definition StaticCall ::
  "backend \<Rightarrow> EVM \<Rightarrow> ContractRef \<Rightarrow> address \<Rightarrow> byte list \<Rightarrow> uint64 \<Rightarrow> StateDB \<Rightarrow>
   ((byte list \<times> uint64 \<times> vm_error option) \<times> StateDB) option" where
  "StaticCall D evm caller addr input gas s =
     (if NoRecursion evm \<and> 0 < depth evm then Some (([], gas, None), s)
      else if CallCreateDepth < depth evm then Some (([], gas, Some ErrDepth), s)
      else
        (let (snapshot, s1) = Snapshot s in
         call_contract D (evm\<lparr>readOnly := True\<rparr>) snapshot addr
           (NewContract caller (AccountRef addr) None (Some 0) gas) input s1))"

text \<open>The deployment code has run: store the code if it fits and is paid for.\<close>

definition store_code ::
  "backend \<Rightarrow> address \<Rightarrow> string \<Rightarrow> byte list \<Rightarrow> uint64 \<Rightarrow> StateDB \<Rightarrow> (vm_error option \<times> uint64) \<times> StateDB" where
  "store_code D contractAddr abi ret g s =
     (let createDataGas = of_nat (length ret) * CreateDataGas + of_nat (length abi) * TxABIGas in
      if g < createDataGas then ((Some ErrCodeStoreOutOfGas, g), s)
      else ((None, g - createDataGas), SetAbi D contractAddr abi (SetCode D contractAddr ret s)))"

definition evm_Create ::
  "backend \<Rightarrow> EVM \<Rightarrow> ContractRef \<Rightarrow> byte list \<Rightarrow> uint64 \<Rightarrow> address option \<Rightarrow> int \<Rightarrow> string \<Rightarrow> StateDB \<Rightarrow>
   ((byte list \<times> address \<times> uint64 \<times> vm_error option) \<times> StateDB) option" where
  "evm_Create D evm caller code gas asst val abi s =
     (if CallCreateDepth < depth evm then Some (([], 0, gas, Some ErrDepth), s)
      else
        (let from = ref_Address caller;
             (can, s1) = CanTransfer from asst val s in
         if \<not> can then Some (([], 0, gas, Some ErrInsufficientBalance), s1)
         else
           (let (nonce, s2) = GetNonce from s1;
                s3 = SetNonce D from (nonce + 1) s2;
                contractAddr = CreateAddress D from nonce;
                (contractHash, s4) = GetCodeHash contractAddr s3;
                (nonce', s5) = GetNonce contractAddr s4 in
            if nonce' \<noteq> 0 \<or> contractHash \<noteq> 0 \<and> contractHash \<noteq> emptyCodeHash D
            then Some (([], 0, 0, Some ErrContractAddressCollision), s5)
            else
              (let (snapshot, s6) = Snapshot s5;
                   s7 = Transfer D from contractAddr asst val (CreateAccount D contractAddr s6);
                   c = SetCallCode (Some contractAddr) (keccak256 D code) code
                         (NewContract caller (AccountRef contractAddr) asst (Some val) gas) in
               if NoRecursion evm \<and> 0 < depth evm then Some (([], contractAddr, gas, None), s7)
               else
                 (case vm_run evm c [] s7 of
                    None \<Rightarrow> None
                  | Some (ret, g, e, s8) \<Rightarrow>
                      (let exceeded = MaxCodeSize < length ret;
                           ((e1, g1), s9) = (if e = None \<and> \<not> exceeded then store_code D contractAddr abi ret g s8
                                             else ((e, g), s8)) in
                       if exceeded \<or> e1 \<noteq> None \<and> e1 \<noteq> Some ErrCodeStoreOutOfGas
                       then map_option (\<lambda>s10. ((ret, contractAddr, if e1 \<noteq> Some errExecutionReverted then 0 else g1,
                               if e1 = None then Some errMaxCodeSizeExceeded else e1), s10))
                             (RevertToSnapshot snapshot (evm_IsEpiphron evm) s9)
                       else Some ((ret, contractAddr, g1, e1), s9)))))))"

section \<open>Properties of calls\<close>

text \<open>What the calls rely on: the instruction loop changes the state through its interface only, so
  that what it did can be taken back, and it leaves no more gas than it was given.\<close>

definition exec_ok :: "backend \<Rightarrow> EVM \<Rightarrow> bool" where
  "exec_ok D evm \<longleftrightarrow> (\<forall>d ro c i s r g e t. sdb_inv s \<longrightarrow> revs_ok s \<longrightarrow> exec evm d ro c i s = Some (r, g, e, t) \<longrightarrow>
     extends D s t \<and> g \<le> c_Gas c)"

text \<open>The outcome of a call that was given \<open>gas\<close>: an error leaves no trace in the state.\<close>

definition call_outcome :: "backend \<Rightarrow> uint64 \<Rightarrow> StateDB \<Rightarrow> (byte list \<times> uint64 \<times> vm_error option) \<times> StateDB \<Rightarrow> bool" where
  "call_outcome D gas s r \<longleftrightarrow>
     (case r of ((ret, left, err), t) \<Rightarrow>
        left \<le> gas \<and> sdb_inv t \<and> revs_ok t \<and> extends D s t \<and>
        (err \<noteq> None \<longrightarrow> obs D t = obs D s \<and> journal t = journal s \<and> validRevisions t = validRevisions s \<and>
           (left = gas \<or> left = 0 \<or> err = Some errExecutionReverted)))"

lemma read_frame:
  "journal (snd (GetBalance a s)) = journal s" "journal (snd (GetAssetBalance a aid s)) = journal s"
  "validRevisions (snd (GetBalance a s)) = validRevisions s" "validRevisions (snd (GetAssetBalance a aid s)) = validRevisions s"
  by (cases "getStateObject a s"; simp add: GetBalance_def GetAssetBalance_def getStateObject_frame split: option.split)+

lemma CanTransfer_state:
  assumes "CanTransfer a asst v s = (b, s1)" "sdb_inv s"
  shows "extends D s s1" "obs D s1 = obs D s" "journal s1 = journal s" "validRevisions s1 = validRevisions s"
    "b \<longleftrightarrow> v \<le> (case asst of None \<Rightarrow> v_balance (view_of D s a) | Some aid \<Rightarrow> v_assets (view_of D s a) aid)"
proof -
  have eqs: "s1 = snd (case asst of None \<Rightarrow> apfst (\<lambda>b. (v \<le> b)) (GetBalance a s) | Some aid \<Rightarrow> apfst (\<lambda>b. (v \<le> b)) (GetAssetBalance a aid s))"
    "b = (case asst of None \<Rightarrow> v \<le> fst (GetBalance a s) | Some aid \<Rightarrow> v \<le> fst (GetAssetBalance a aid s))"
    using assms(1) by (auto simp: CanTransfer_def apfst_def split: option.splits prod.splits)
  note facts = extends_ops(1,3)[OF assms(2)] obs_reads_state(1,3) read_frame
  show "extends D s s1" "obs D s1 = obs D s" "journal s1 = journal s" "validRevisions s1 = validRevisions s"
    unfolding eqs(1) by (cases asst; simp add: facts)+
  show "b \<longleftrightarrow> v \<le> (case asst of None \<Rightarrow> v_balance (view_of D s a) | Some aid \<Rightarrow> v_assets (view_of D s a) aid)"
    unfolding eqs(2) by (cases asst) (simp_all add: view_reads[where D = D])
qed

lemma extends_Transfer:
  assumes "sdb_inv s" "0 \<le> v"
  shows "extends D s (Transfer D a b asst v s)"
proof (cases asst)
  case None
  have sub: "extends D s (SubBalance D a v s)" using extends_ops(8)[OF assms(1)] .
  from extends_trans[OF this extends_ops(7)[OF extends_inv[OF this]]] None show ?thesis by (simp add: Transfer_def)
next
  case (Some aid)
  obtain ok s1 where sub: "SubAssetBalance D a aid v s = (ok, s1)" by fastforce
  have x: "extends D s s1" using extends_ops(16)[OF assms, of D a aid] sub by simp
  from extends_trans[OF this extends_ops(15)[OF extends_inv[OF this] assms(2)]] x Some sub show ?thesis
    by (simp add: Transfer_def split: bool.split)
qed

lemma vm_run_ok:
  assumes "exec_ok D evm" "sdb_inv s" "revs_ok s" "vm_run evm c input s = Some (r, g, e, t)"
  shows "extends D s t" "g \<le> c_Gas c"
proof -
  have "extends D s t \<and> g \<le> c_Gas c"
  proof (cases "Option.bind (c_CodeAddr c) (Precompiles evm)")
    case None
    then have run: "interpreter_Run evm c input s = Some (r, g, e, t)" using assms(4) by (simp add: vm_run_def)
    show ?thesis
    proof (cases "c_Code c = []")
      case True
      with run extends_ops(14)[OF assms(2)] show ?thesis by (simp add: interpreter_Run_def)
    next
      case False
      with run have "exec evm (depth evm + 1) (readOnly evm) c input s = Some (r, g, e, t)" by (simp add: interpreter_Run_def)
      with assms(1-3) show ?thesis unfolding exec_ok_def by blast
    qed
  next
    case (Some p)
    have le: "c_Gas c - RequiredGas p input \<le> c_Gas c" if "\<not> c_Gas c < RequiredGas p input"
      using that by (simp add: word_sub_le_iff)
    obtain ret e1 where pc: "pc_Run p input = (ret, e1)" by fastforce
    have t: "s = t" and g: "g = (if c_Gas c < RequiredGas p input then c_Gas c else c_Gas c - RequiredGas p input)"
      using Some assms(4) pc by (simp_all add: vm_run_def RunPrecompiledContract_def UseGas_def split: if_splits)
    show ?thesis using le extends_ops(14)[OF assms(2)] t g by simp
  qed
  then show "extends D s t" "g \<le> c_Gas c" by blast+
qed

lemma run_contract_ok:
  assumes ok: "exec_ok D evm" "evm_IsEpiphron evm" and snap: "Snapshot s0 = (rid, s1)" and s0: "sdb_inv s0" "revs_ok s0"
    and ext: "extends D s1 s" and run: "run_contract evm rid c input s = Some ((r, g, e), t)"
  shows "call_outcome D (c_Gas c) s0 ((r, g, e), t)"
proof -
  note x1 = extends_Snapshot[OF snap s0(1), of D]
  note x0 = extends_trans[OF x1 ext]
  have s: "sdb_inv s" "revs_ok s" "extends D s0 s"
    using extends_inv[OF x0] extends_revs_ok[OF x0 s0(2)] x0 by simp_all
  obtain r' g' e' s' where vm: "vm_run evm c input s = Some (r', g', e', s')"
    using run by (auto simp: run_contract_def split: option.splits)
  note vm' = vm_run_ok[OF ok(1) s(1,2) vm]
  note ext' = extends_trans[OF ext vm'(1)] extends_trans[OF s(3) vm'(1)]
  show ?thesis
  proof (cases e')
    case None
    with run vm have "g = g'" "e = None" "t = s'" by (simp_all add: run_contract_def)
    with vm'(2) ext'(2) extends_inv[OF ext'(2)] extends_revs_ok[OF ext'(2) s0(2)] show ?thesis
      by (simp add: call_outcome_def)
  next
    case (Some err)
    from revert_extends[OF snap s0 ext'(1)] obtain u where u: "RevertToSnapshot rid True s' = Some u"
      "obs D u = obs D s0" "sdb_inv u" "journal u = journal s0" "validRevisions u = validRevisions s0"
      "nextRevisionId u = nextRevisionId s'" by blast
    have x: "extends D s0 u"
      using u ext'(2) s0(1) sj.reversible_silent[of s0 u D] by (auto simp: extends_def)
    have "g = (if err \<noteq> errExecutionReverted then 0 else g')" "e = Some err" "t = u"
      using Some run vm u(1) ok(2) by (simp_all add: run_contract_def)
    with vm'(2) u x extends_revs_ok[OF x s0(2)] show ?thesis by (simp add: call_outcome_def)
  qed
qed

lemma call_contract_ok:
  assumes ok: "exec_ok D evm" "evm_IsEpiphron evm" and snap: "Snapshot s0 = (rid, s1)" and s0: "sdb_inv s0" "revs_ok s0"
    and ext: "extends D s1 s" and run: "call_contract D evm rid a c input s = Some r"
  shows "call_outcome D (c_Gas c) s0 r"
proof -
  obtain h s2 where h: "GetCodeHash a s = (h, s2)" by fastforce
  obtain code s3 where code: "GetCode D a s2 = (code, s3)" by fastforce
  have "extends D s s2" using extends_ops(5)[OF extends_inv[OF ext], of D a] h by simp
  moreover have "extends D s2 s3" using extends_ops(6)[OF extends_inv[OF calculation], of D a] code by simp
  ultimately have x3: "extends D s1 s3" using ext extends_trans by blast
  obtain ret g e t where r: "r = ((ret, g, e), t)" by (cases r) auto
  have "run_contract evm rid (SetCallCode (Some a) h (case code of None \<Rightarrow> [] | Some x \<Rightarrow> x) c) input s3 = Some ((ret, g, e), t)"
    using run by (simp add: call_contract_def h code r)
  from run_contract_ok[OF ok snap s0 x3 this] show ?thesis by (simp add: r SetCallCode_def)
qed

lemma outcome_unchanged:
  assumes "extends D s t" "revs_ok s" "obs D t = obs D s" "journal t = journal s" "validRevisions t = validRevisions s"
  shows "call_outcome D gas s ((ret, gas, e), t)"
  using assms extends_inv[OF assms(1)] extends_revs_ok[OF assms(1,2)] by (simp add: call_outcome_def)

lemma outcome_done:
  assumes "extends D s t" "revs_ok s"
  shows "call_outcome D gas s ((ret, gas, None), t)"
  using assms extends_inv[OF assms(1)] extends_revs_ok[OF assms] by (simp add: call_outcome_def)

text \<open>A call that starts from a state that reads the same.\<close>

lemma outcome_from:
  assumes "call_outcome D gas s1 r" "extends D s s1" "obs D s1 = obs D s" "journal s1 = journal s" "validRevisions s1 = validRevisions s"
  shows "call_outcome D gas s r"
  using assms extends_trans[OF assms(2)] by (auto simp: call_outcome_def split: prod.splits)

lemma evm_Call_plain:
  assumes "\<not> (NoRecursion evm \<and> 0 < depth evm)" "call_args args ([], None) = Some (vs, asst)" "\<not> CallCreateDepth < depth evm"
    "action \<noteq> ActionAddVote" "action \<noteq> ActionSubVote" "action \<noteq> ActionRegister"
    "CanTransfer (ref_Address caller) asst val s = (can, s1)" "Snapshot s1 = (rid, s3)" "Exist addr s3 = (ex, s4)"
  shows "evm_Call D evm caller addr input gas action val args s =
    (if \<not> can then Some (([], gas, Some ErrInsufficientBalance), s1)
     else if \<not> ex \<and> Precompiles evm addr = None \<and> val = 0 then Some (([], gas, None), s4)
     else call_contract D evm rid addr (NewContract caller (AccountRef addr) asst (Some val) gas) input
       (Transfer D (ref_Address caller) addr asst val (if ex then s4 else CreateAccount D addr s4)))"
  unfolding evm_Call_def call_effect_def if_not_P[OF assms(1)] by (simp add: Let_def assms(2-9))

lemma evm_Call_ok:
  assumes ok: "exec_ok D evm" "evm_IsEpiphron evm" and s: "sdb_inv s" "revs_ok s" and val: "0 \<le> val"
    and action: "action \<noteq> ActionAddVote" "action \<noteq> ActionSubVote" "action \<noteq> ActionRegister"
    and call: "evm_Call D evm caller addr input gas action val args s = Some r"
  shows "call_outcome D gas s r"
proof (cases "NoRecursion evm \<and> 0 < depth evm \<or> call_args args ([], None) = None \<or> CallCreateDepth < depth evm")
  case True
  then have "\<exists>e. r = (([], gas, e), s)" using call by (auto simp: evm_Call_def split: if_splits option.splits)
  with outcome_unchanged[OF extends_ops(14)[OF s(1)] s(2)] show ?thesis by auto
next
  case False
  then obtain vs asst where args: "call_args args ([], None) = Some (vs, asst)" by auto
  obtain can s1 where c1: "CanTransfer (ref_Address caller) asst val s = (can, s1)" by fastforce
  note f1 = CanTransfer_state(1,2)[OF c1 s(1), of D] CanTransfer_state(3,4)[OF c1 s(1)]
  have s1: "sdb_inv s1" "revs_ok s1" using extends_inv[OF f1(1)] extends_revs_ok[OF f1(1) s(2)] .
  obtain rid s3 where snap: "Snapshot s1 = (rid, s3)" by fastforce
  note x3 = extends_Snapshot[OF snap s1(1), of D]
  obtain ex s4 where ex: "Exist addr s3 = (ex, s4)" by fastforce
  have x4: "extends D s3 s4" using extends_ops(4)[OF extends_inv[OF x3], of D addr] ex by simp
  let ?s5 = "if ex then s4 else CreateAccount D addr s4"
  let ?s6 = "Transfer D (ref_Address caller) addr asst val ?s5"
  have x5: "extends D s3 ?s5"
    using x4 extends_trans[OF x4 extends_ops(10)[OF extends_inv[OF x4], of D addr]] by simp
  note x6 = extends_trans[OF x5 extends_Transfer[OF extends_inv[OF x5] val]]
  have start: "\<not> (NoRecursion evm \<and> 0 < depth evm)" "\<not> CallCreateDepth < depth evm" using False by auto
  note eq = call[unfolded evm_Call_plain[OF start(1) args start(2) action c1 snap ex]]
  consider "\<not> can" | "can" "\<not> ex \<and> Precompiles evm addr = None \<and> val = 0"
    | "can" "\<not> (\<not> ex \<and> Precompiles evm addr = None \<and> val = 0)" by blast
  then show ?thesis
  proof cases
    case 1
    with eq outcome_unchanged[OF f1(1) s(2) f1(2-4)] show ?thesis by auto
  next
    case 2
    with eq outcome_done[OF extends_trans[OF f1(1) extends_trans[OF x3 x4]] s(2)] show ?thesis by auto
  next
    case 3
    with eq have "call_contract D evm rid addr (NewContract caller (AccountRef addr) asst (Some val) gas) input ?s6 = Some r"
      by (simp only: if_False not_True_eq_False)
    from call_contract_ok[OF ok snap s1 x6 this] have "call_outcome D gas s1 r" by (simp add: NewContract_def)
    from outcome_from[OF this f1(1-4)] show ?thesis .
  qed
qed

text \<open>A call that registers a delegate, once the two checks of the balance have been made.\<close>

lemma evm_Call_register:
  assumes "\<not> (NoRecursion evm \<and> 0 < depth evm)" "call_args args ([], None) = Some (vs, asst)" "\<not> CallCreateDepth < depth evm"
    "action = ActionRegister" "CanTransfer (ref_Address caller) asst val s = (can, s1)"
    "(if can then CanTransfer (ref_Address caller) None TxGasAgentCreation s1 else (True, s1)) = (can', s2)"
    "Snapshot s2 = (rid, s3)" "Exist addr s3 = (ex, s4)" "s5 = (if ex then s4 else CreateAccount D addr s4)"
  shows "evm_Call D evm caller addr input gas action val args s =
    (if \<not> can \<or> \<not> can' then Some (([], gas, Some ErrInsufficientBalance), s2)
     else if \<not> ex \<and> Precompiles evm addr = None \<and> val = 0 then Some (([], gas, None), s4)
     else case DelegateList evm of
       None \<Rightarrow> None
     | Some dl \<Rightarrow>
         if dl (ref_Address caller) \<noteq> None then Some (([], gas, Some AlreadyRegistered), s5)
         else call_contract D evm rid addr (NewContract caller (AccountRef addr) asst (Some val) gas) input s5)"
proof -
  have a: "ActionRegister \<noteq> ActionAddVote" "ActionRegister \<noteq> ActionSubVote"
    by (simp_all add: ActionRegister_def ActionAddVote_def ActionSubVote_def)
  show ?thesis
    unfolding evm_Call_def call_effect_def if_not_P[OF assms(1)]
    using assms(6) by (simp add: Let_def a assms(2-5,7-9) split: option.split)
qed

lemma evm_Call_register_ok:
  assumes ok: "exec_ok D evm" "evm_IsEpiphron evm" and s: "sdb_inv s" "revs_ok s" and action: "action = ActionRegister"
    and call: "evm_Call D evm caller addr input gas action val args s = Some r"
  shows "call_outcome D gas s r \<or> (\<exists>t. r = (([], gas, Some AlreadyRegistered), t))"
proof (cases "NoRecursion evm \<and> 0 < depth evm \<or> call_args args ([], None) = None \<or> CallCreateDepth < depth evm")
  case True
  then have "\<exists>e. r = (([], gas, e), s)" using call by (auto simp: evm_Call_def split: if_splits option.splits)
  with outcome_unchanged[OF extends_ops(14)[OF s(1)] s(2)] show ?thesis by auto
next
  case False
  then obtain vs asst where args: "call_args args ([], None) = Some (vs, asst)" by auto
  obtain can s1 where c1: "CanTransfer (ref_Address caller) asst val s = (can, s1)" by fastforce
  note f1 = CanTransfer_state(1,2)[OF c1 s(1), of D] CanTransfer_state(3,4)[OF c1 s(1)]
  obtain can' s2 where c2: "(if can then CanTransfer (ref_Address caller) None TxGasAgentCreation s1 else (True, s1)) = (can', s2)" by fastforce
  have f2: "extends D s1 s2 \<and> obs D s2 = obs D s1 \<and> journal s2 = journal s1 \<and> validRevisions s2 = validRevisions s1"
    using c2 CanTransfer_state[OF _ extends_inv[OF f1(1)]] extends_ops(14)[OF extends_inv[OF f1(1)]] by (cases can) auto
  have f: "extends D s s2" "obs D s2 = obs D s" "journal s2 = journal s" "validRevisions s2 = validRevisions s"
    using f1 f2 extends_trans[OF f1(1)] by simp_all
  have s2: "sdb_inv s2" "revs_ok s2" using extends_inv[OF f(1)] extends_revs_ok[OF f(1) s(2)] .
  obtain rid s3 where snap: "Snapshot s2 = (rid, s3)" by fastforce
  note x3 = extends_Snapshot[OF snap s2(1), of D]
  obtain ex s4 where ex: "Exist addr s3 = (ex, s4)" by fastforce
  have x4: "extends D s3 s4" using extends_ops(4)[OF extends_inv[OF x3], of D addr] ex by simp
  define s5 where "s5 = (if ex then s4 else CreateAccount D addr s4)"
  have x5: "extends D s3 s5"
    using x4 extends_trans[OF x4 extends_ops(10)[OF extends_inv[OF x4], of D addr]] by (simp add: s5_def)
  have start: "\<not> (NoRecursion evm \<and> 0 < depth evm)" "\<not> CallCreateDepth < depth evm" using False by auto
  note eq = call[unfolded evm_Call_register[OF start(1) args start(2) action c1 c2 snap ex s5_def]]
  have run: "call_outcome D gas s q"
    if "call_contract D evm rid addr (NewContract caller (AccountRef addr) asst (Some val) gas) input s5 = Some q" for q
    using call_contract_ok[OF ok snap s2 x5 that] outcome_from[OF _ f] by (simp add: NewContract_def)
  from eq outcome_unchanged[OF f(1) s(2) f(2-4)] outcome_done[OF extends_trans[OF f(1) extends_trans[OF x3 x4]] s(2)] run
  show ?thesis by (auto split: if_splits option.splits)
qed


text \<open>A machine whose code pays someone and then runs out of gas, and a contract at address 9.\<close>

definition evm0 :: EVM where
  "evm0 = \<lparr>Coinbase = 77, DelegateList = None, vote_spare = [], depth = 0, NoRecursion = False, readOnly = False,
     evm_IsEpiphron = True, maxElectDelegate = 101, Precompiles = Map.empty,
     exec = (\<lambda>d ro c i s. Some ([], 0, Some ErrOutOfGas, AddBalance backend0 5 1 s))\<rparr>"

lemma evm0_ok: "exec_ok backend0 evm0"
  using extends_ops(7) by (auto simp: exec_ok_def evm0_def)

definition code_db :: StateDB where
  "code_db = SetCode backend0 9 [1, 2] (AddBalance backend0 1 50 empty_db)"

lemma code_db_ok: "sdb_inv code_db" "revs_ok code_db"
proof -
  note x = extends_ops(7)[OF empty_db_ok(1), of backend0 1 50]
  note y = extends_trans[OF x extends_ops(11)[OF extends_inv[OF x], of backend0 9 "[1, 2]"]]
  show "sdb_inv code_db" "revs_ok code_db"
    using extends_inv[OF y] extends_revs_ok[OF y empty_db_ok(2)] by (simp_all add: code_db_def)
qed


text \<open>A registration that is refused leaves behind the account that was created for its recipient.\<close>

lemma refused_registration_creates:
  "case evm_Call backend0 (evm0\<lparr>DelegateList := Some (\<lambda>_. Some \<lparr>c_Address = [], c_Vote = 0, c_Nickname = [], c_RegisterTime = 0\<rparr>)\<rparr>)
      (AccountRef 1) 4 [] 100 ActionRegister 1 [] (AddBalance backend0 1 TxGasAgentCreation empty_db) of
     Some ((ret, left, Some e), t) \<Rightarrow> e = AlreadyRegistered \<and> fst (Exist 4 t) \<and> left = 100
   | _ \<Rightarrow> False"
  "\<not> fst (Exist 4 (AddBalance backend0 1 TxGasAgentCreation empty_db))"
  by code_simp+

end
