(* ===== verification/Evm_Create.thy ===== *)
theory Evm_Create
  imports Evm_Call
begin

text \<open>
  What \<open>Create\<close> of \<open>core/vm/evm.go\<close> does with a deployment code, whatever the code does to the state: the ways it can end,
  told apart by the error of the code, the size of what it returns and the gas that is left to pay for it.
\<close>

section \<open>Views after a transfer\<close>

lemma view_of_writes:
  assumes "sdb_inv s"
  shows "view_of D (AddBalance D a v s) = (view_of D s)(a := (view_of D s a)\<lparr>v_balance := v_balance (view_of D s a) + v\<rparr>)"
    "view_of D (SubBalance D a v s) = (view_of D s)(a := (view_of D s a)\<lparr>v_balance := v_balance (view_of D s a) - v\<rparr>)"
    "view_of D (SetNonce D a n s) = (view_of D s)(a := (view_of D s a)\<lparr>v_nonce := n\<rparr>)"
    "view_of D (CreateAccount D a s) = (view_of D s)(a := (zero_view D)\<lparr>v_balance := v_balance (view_of D s a)\<rparr>)"
    "view_of D (SetCode D a c s) = (view_of D s)(a := (view_of D s a)\<lparr>v_codehash := keccak256 D c, v_code := Some c\<rparr>)"
  using view_of_put[OF obs_AddBalance[OF assms]] view_of_put[OF obs_SubBalance[OF assms]]
    view_of_put[OF obs_SetNonce[OF assms]] view_of_put[OF obs_CreateAccount[OF assms]] view_of_put[OF obs_SetCode[OF assms]]
  by blast+

lemma view_of_reads:
  "view_of D (snd (GetBalance a s)) = view_of D s" "view_of D (snd (GetNonce a s)) = view_of D s"
  "view_of D (snd (Exist a s)) = view_of D s" "view_of D (snd (GetCodeHash a s)) = view_of D s"
  "view_of D (snd (Snapshot s)) = view_of D s" "sdb_inv s \<Longrightarrow> view_of D (snd (GetCode D a s)) = view_of D s"
  by (rule view_of_obs, simp add: obs_reads_state obs_Snapshot obs_GetCode)+

lemma view_of_Transfer:
  assumes "sdb_inv s"
  shows "view_of D (Transfer D a b None v s) =
    (let V = (view_of D s)(a := (view_of D s a)\<lparr>v_balance := v_balance (view_of D s a) - v\<rparr>) in
     V(b := (V b)\<lparr>v_balance := v_balance (V b) + v\<rparr>))"
  using view_of_writes(1)[OF extends_inv[OF extends_ops(8)[OF assms, of D a v]], of D b v] view_of_writes(2)[OF assms]
  by (simp add: Transfer_def Let_def)

text \<open>Whether an account exists.\<close>

lemma exists_writes:
  assumes "sdb_inv s"
  shows "sv_acc (obs D (CreateAccount D a s)) a \<noteq> None"
    "sv_acc (obs D s) a \<noteq> None \<Longrightarrow> sv_acc (obs D (AddBalance D b v s)) a \<noteq> None"
    "sv_acc (obs D s) a \<noteq> None \<Longrightarrow> sv_acc (obs D (SubBalance D b v s)) a \<noteq> None"
    "sv_acc (obs D s) a \<noteq> None \<Longrightarrow> sv_acc (obs D (SetCode D b c s)) a \<noteq> None"
  using assms by (auto simp: obs_CreateAccount obs_AddBalance obs_SubBalance obs_SetCode)

section \<open>The state the deployment code runs in\<close>

lemma CanTransfer_view:
  assumes "sdb_inv s"
  shows "fst (CanTransfer a None v s) \<longleftrightarrow> v \<le> v_balance (view_of D s a)"
    "view_of D (snd (CanTransfer a None v s)) = view_of D s" "extends D s (snd (CanTransfer a None v s))"
    "obs D (snd (CanTransfer a None v s)) = obs D s"
proof -
  obtain b s1 where c: "CanTransfer a None v s = (b, s1)" by fastforce
  note f = CanTransfer_state(1,2)[OF c assms, of D] CanTransfer_state(5)[OF c assms, of D]
  show "fst (CanTransfer a None v s) \<longleftrightarrow> v \<le> v_balance (view_of D s a)"
    "view_of D (snd (CanTransfer a None v s)) = view_of D s" "extends D s (snd (CanTransfer a None v s))"
    "obs D (snd (CanTransfer a None v s)) = obs D s"
    using f view_of_obs[OF f(2)] c by simp_all
qed

text \<open>The state in which the address of the contract is checked, \<open>s5\<close>, and the one the code runs in, \<open>s7\<close>.\<close>

lemma deploy_parts:
  assumes inv: "sdb_inv s" and n: "n = fst (GetNonce from s)" and a: "a = CreateAddress D from n" "a \<noteq> from"
    and s1: "s1 = snd (CanTransfer from None val s)" and s3: "s3 = SetNonce D from (n + 1) (snd (GetNonce from s1))"
    and s5: "s5 = snd (GetNonce a (snd (GetCodeHash a s3)))"
  shows "fst (GetNonce from s1) = n" "extends D s s5" "extends D s3 s5" "obs D s5 = obs D s3"
    "view_of D s3 = (view_of D s)(from := (view_of D s from)\<lparr>v_nonce := n + 1\<rparr>)"
    "sv_acc (obs D s3) a = sv_acc (obs D s) a" "extends D s s3"
proof -
  note c = CanTransfer_view[OF inv, where a = "from" and v = val and D = D, folded s1]
  have inv1: "sdb_inv s1" using extends_inv[OF c(3)] .
  show "fst (GetNonce from s1) = n" unfolding n view_reads(2)[of "from" _ D] c(2) ..
  note x2 = extends_ops(2)[OF inv1, of D "from"]
  have inv2: "sdb_inv (snd (GetNonce from s1))" using extends_inv[OF x2] .
  have x3: "extends D s1 s3" unfolding s3 by (rule extends_trans[OF x2 extends_ops(9)[OF inv2]])
  have inv3: "sdb_inv s3" using extends_inv[OF x3] .
  note x4 = extends_ops(5)[OF inv3, of D a]
  show x5: "extends D s3 s5" unfolding s5 by (rule extends_trans[OF x4 extends_ops(2)[OF extends_inv[OF x4]]])
  show "extends D s s3" by (rule extends_trans[OF c(3) x3])
  then show "extends D s s5" using x5 by (rule extends_trans)
  show "obs D s5 = obs D s3" by (simp add: s5 obs_reads_state)
  show "view_of D s3 = (view_of D s)(from := (view_of D s from)\<lparr>v_nonce := n + 1\<rparr>)"
    unfolding s3 view_of_writes(3)[OF inv2] by (simp add: view_of_reads c(2))
  show "sv_acc (obs D s3) a = sv_acc (obs D s) a"
    unfolding s3 obs_SetNonce[OF inv2] using a(2) by (simp add: obs_reads_state c(4))
qed

lemma deploy_run:
  assumes inv: "sdb_inv s5" and snap: "Snapshot s5 = (rid, s6)"
    and s7: "s7 = Transfer D from a None val (CreateAccount D a s6)" and val: "0 \<le> val" and a: "a \<noteq> from"
  shows "extends D s6 s7" "sv_acc (obs D s7) a \<noteq> None"
    "view_of D s7 = (view_of D s5)(from := (view_of D s5 from)\<lparr>v_balance := v_balance (view_of D s5 from) - val\<rparr>,
       a := (zero_view D)\<lparr>v_balance := v_balance (view_of D s5 a) + val\<rparr>)"
proof -
  note x6 = extends_Snapshot[OF snap inv, of D]
  have inv6: "sdb_inv s6" using extends_inv[OF x6] .
  have v6: "view_of D s6 = view_of D s5" using view_of_reads(5)[of D s5] snap by simp
  note xc = extends_ops(10)[OF inv6, of D a]
  show "extends D s6 s7" unfolding s7 by (rule extends_trans[OF xc extends_Transfer[OF extends_inv[OF xc] val]])
  show "view_of D s7 = (view_of D s5)(from := (view_of D s5 from)\<lparr>v_balance := v_balance (view_of D s5 from) - val\<rparr>,
       a := (zero_view D)\<lparr>v_balance := v_balance (view_of D s5 a) + val\<rparr>)"
    unfolding s7 view_of_Transfer[OF extends_inv[OF xc]] view_of_writes(4)[OF inv6] v6
    using a by (simp add: Let_def fun_upd_twist)
  note xs = extends_ops(8)[OF extends_inv[OF xc], of D "from" val]
  show "sv_acc (obs D s7) a \<noteq> None"
    unfolding s7 Transfer_def option.case
    by (intro exists_writes(2)[OF extends_inv[OF xs]] exists_writes(3)[OF extends_inv[OF xc]] exists_writes(1)[OF inv6])
qed

lemma deploy_nonce:
  assumes inv: "sdb_inv s" and n: "n = fst (GetNonce from s)"
    and s1: "s1 = snd (CanTransfer from None val s)" and s3: "s3 = SetNonce D from (n + 1) (snd (GetNonce from s1))"
  shows "obs D s3 = put_view from ((view_of D s from)\<lparr>v_nonce := n + 1\<rparr>) (obs D s)"
proof -
  note c = CanTransfer_view[OF inv, where a = "from" and v = val and D = D, folded s1]
  have inv1: "sdb_inv s1" using extends_inv[OF c(3)] .
  have inv2: "sdb_inv (snd (GetNonce from s1))" using extends_inv[OF extends_ops(2)[OF inv1, of D "from"]] .
  show ?thesis unfolding s3 obs_SetNonce[OF inv2] by (simp add: view_of_reads c(2,4) obs_reads_state)
qed

text \<open>\<open>Create\<close> once the checks have passed.\<close>

lemma evm_Create_eq:
  assumes "\<not> CallCreateDepth < depth evm" "\<not> (NoRecursion evm \<and> 0 < depth evm)"
    and "CanTransfer from None val s = (True, s1)" "fst (GetNonce from s1) = n" "a = CreateAddress D from n"
    and "s3 = SetNonce D from (n + 1) (snd (GetNonce from s1))" and "s5 = snd (GetNonce a (snd (GetCodeHash a s3)))"
    and "fst (GetNonce a (snd (GetCodeHash a s3))) = 0" "fst (GetCodeHash a s3) = 0 \<or> fst (GetCodeHash a s3) = emptyCodeHash D"
    and "Snapshot s5 = (rid, s6)" "s7 = Transfer D from a None val (CreateAccount D a s6)" "from = ref_Address caller"
    and "vm_run evm (SetCallCode (Some a) (keccak256 D code) code (NewContract caller (AccountRef a) None (Some val) gas)) [] s7 =
      Some (ret, g, err, s8)" "err \<noteq> Some ErrCodeStoreOutOfGas"
  shows "evm_Create D evm caller code gas None val abi s =
    (if err \<noteq> None \<or> MaxCodeSize < length ret
     then map_option (\<lambda>t. ((ret, a, if err = Some errExecutionReverted then g else 0,
         if err = None then Some errMaxCodeSizeExceeded else err), t)) (RevertToSnapshot rid (evm_IsEpiphron evm) s8)
     else case store_code D a abi ret g s8 of ((e, g1), t) \<Rightarrow> Some ((ret, a, g1, e), t))"
proof -
  obtain n1 t1 where g1: "GetNonce from s1 = (n1, t1)" by fastforce
  obtain h t2 where g2: "GetCodeHash a s3 = (h, t2)" by fastforce
  obtain n2 t3 where g3: "GetNonce a t2 = (n2, t3)" by fastforce
  have eqs: "n1 = n" "s3 = SetNonce D from (n + 1) t1" "s5 = t3" "n2 = 0" "h = 0 \<or> h = emptyCodeHash D"
    using assms g1 g2 g3 by auto
  have e: "fst (fst (store_code D a abi ret g s8)) = None \<or> fst (fst (store_code D a abi ret g s8)) = Some ErrCodeStoreOutOfGas"
    by (simp add: store_code_def Let_def)
  show ?thesis
    unfolding evm_Create_def if_not_P[OF assms(1)] Let_def assms(12)[symmetric] assms(3) prod.case g1 eqs(1)
      assms(5)[symmetric] eqs(2)[symmetric] g2 g3
    using eqs(4,5) assms(2,10,13,14) e
    by (auto simp: eqs(3)[symmetric] assms(11)[symmetric] split: prod.split)
qed

text \<open>The state the deployment code runs in, and the contract it runs as.\<close>

definition deploy_state :: "backend \<Rightarrow> address \<Rightarrow> address \<Rightarrow> int \<Rightarrow> StateDB \<Rightarrow> StateDB" where
  "deploy_state D from a val s =
     (let s1 = snd (CanTransfer from None val s);
          (nonce, s2) = GetNonce from s1;
          s3 = SetNonce D from (nonce + 1) s2;
          s5 = snd (GetNonce a (snd (GetCodeHash a s3))) in
      Transfer D from a None val (CreateAccount D a (snd (Snapshot s5))))"

definition deploy_contract :: "backend \<Rightarrow> ContractRef \<Rightarrow> byte list \<Rightarrow> address \<Rightarrow> int \<Rightarrow> uint64 \<Rightarrow> Contract" where
  "deploy_contract D caller code a val gas =
     SetCallCode (Some a) (keccak256 D code) code (NewContract caller (AccountRef a) None (Some val) gas)"

lemma deploy_state_inv:
  assumes inv: "sdb_inv s" and val: "0 \<le> val" and a: "a = CreateAddress D from (fst (GetNonce from s))" "a \<noteq> from"
  shows "sdb_inv (deploy_state D from a val s)"
proof -
  define n where "n = fst (GetNonce from s)"
  define s1 where "s1 = snd (CanTransfer from None val s)"
  define s3 where "s3 = SetNonce D from (n + 1) (snd (GetNonce from s1))"
  define s5 where "s5 = snd (GetNonce a (snd (GetCodeHash a s3)))"
  note parts = deploy_parts[OF inv n_def a(1)[folded n_def] a(2) s1_def s3_def s5_def]
  obtain rid s6 where snap: "Snapshot s5 = (rid, s6)" by fastforce
  have "deploy_state D from a val s = Transfer D from a None val (CreateAccount D a s6)"
    using snap parts(1) unfolding deploy_state_def s1_def[symmetric] s5_def s3_def Let_def by (cases "GetNonce from s1") simp
  from extends_inv[OF deploy_run(1)[OF extends_inv[OF parts(2)] snap this val a(2)]] show ?thesis .
qed

text \<open>The code is stored, and the ABI with it.\<close>

lemma stored_code:
  assumes "sdb_inv s" "t = SetAbi D a abi (SetCode D a ret s)"
  shows "obs D t = put_view a ((view_of D s a)\<lparr>v_codehash := keccak256 D ret, v_code := Some ret\<rparr>) (obs D s)"
    "abi \<noteq> [] \<Longrightarrow> keccak256 D ret \<noteq> emptyCodeHash D \<Longrightarrow> fst (GetAbi D a t) = abi"
proof -
  let ?u = "SetCode D a ret s"
  have inv: "sdb_inv ?u" using extends_inv[OF extends_ops(11)[OF assms(1)]] .
  have "sv_acc (obs D ?u) a \<noteq> None" unfolding obs_SetCode[OF assms(1)] by (simp add: put_view_def)
  then have "obs D t = obs D ?u" unfolding assms(2) by (intro obs_SetAbi[OF inv])
  then show "obs D t = put_view a ((view_of D s a)\<lparr>v_codehash := keccak256 D ret, v_code := Some ret\<rparr>) (obs D s)"
    unfolding obs_SetCode[OF assms(1)] .
  assume abi: "abi \<noteq> []" and h: "keccak256 D ret \<noteq> emptyCodeHash D"
  obtain o1 s1 where g: "GetOrNewStateObject D a ?u = (o1, s1)" by fastforce
  have "acc_CodeHash (so_data o1) = keccak256 D ret"
    using arg_cong[OF GetOrNew_view(1)[OF inv g], of v_codehash] view_of_writes(5)[OF assms(1), of D a ret] by (simp add: obj_view_def)
  then have t: "t = setStateObject (o1\<lparr>so_abi := abi\<rparr>) s1" using abi h g by (simp add: assms(2) SetAbi_def)
  show "fst (GetAbi D a t) = abi"
    using reverts_GetOrNew(2,3)[OF inv g] abi by (simp add: t GetAbi_def getStateObject_def obj_Abi_def live_def)
qed

section \<open>The outcomes\<close>


text \<open>Deployment code that pays an account and returns a code of two bytes, with too little gas left for it or with enough.\<close>

definition evm1 :: "uint64 \<Rightarrow> EVM" where
  "evm1 g = evm0\<lparr>exec := (\<lambda>d ro c i s. Some ([7, 7], if g \<le> c_Gas c then g else c_Gas c, None, AddBalance backend0 5 1 s))\<rparr>"

lemma evm1_ok: "exec_ok backend0 (evm1 g)"
  using extends_ops(7) by (auto simp: exec_ok_def evm1_def)


end
