(* ===== verification/Transition.thy ===== *)
theory Transition
  imports Evm_Create
begin

text \<open>
  Applying one message to the state: \<open>core/gaspool.go\<close> and \<open>core/state_transition.go\<close>. The gas of a
  message is bought, the intrinsic gas is paid, the action is performed, and the rest of the gas goes
  back to the sender and to the gas pool of the block while the coinbase is paid for what was used.
\<close>

section \<open>The gas pool\<close>

definition MaxUint64 :: uint64 where "MaxUint64 = - 1"

text \<open>\<open>AddGas\<close> panics when the pool would overflow.\<close>

definition AddGas :: "uint64 \<Rightarrow> uint64 \<Rightarrow> uint64 option" where
  "AddGas amount gp = (if MaxUint64 - amount < gp then None else Some (gp + amount))"

definition SubGas :: "uint64 \<Rightarrow> uint64 \<Rightarrow> uint64 option" where
  "SubGas amount gp = (if gp < amount then None else Some (gp - amount))"

section \<open>Intrinsic gas\<close>

definition TxGas :: uint64 where "TxGas = 25000"
definition TxGasContractCreation :: uint64 where "TxGasContractCreation = 20000"
definition TxGasAssetPublish :: uint64 where "TxGasAssetPublish = 100000"
definition TxDataNonZeroGas :: uint64 where "TxDataNonZeroGas = 4"
definition TxDataZeroGas :: uint64 where "TxDataZeroGas = 1"

definition action_gas :: "uint64 \<Rightarrow> uint64" where
  "action_gas action =
     (if action = ActionTrans then TxGas
      else if action = ActionRegister then TxGas
      else if action = ActionAddVote \<or> action = ActionSubVote then TxGas
      else if action = ActionPublishAsset then TxGasAssetPublish
      else if action = ActionCreateContract then TxGasContractCreation
      else if action = ActionCallContract then TxGas
      else 0)"

fun count_nz :: "byte list \<Rightarrow> uint64 \<Rightarrow> uint64" where
  "count_nz [] nz = nz"
| "count_nz (byt # bs) nz = count_nz bs (if byt \<noteq> 0 then nz + 1 else nz)"

definition IntrinsicGas :: "byte list \<Rightarrow> uint64 \<Rightarrow> vm_error + uint64" where
  "IntrinsicGas data action =
     (let gas = action_gas action in
      if data = [] then Inr gas
      else
        (let nz = count_nz data 0 in
         if (MaxUint64 - gas) div TxDataNonZeroGas < nz then Inl ErrOutOfGas
         else
           (let gas1 = gas + nz * TxDataNonZeroGas;
                z = of_nat (length data) - nz in
            if (MaxUint64 - gas1) div TxDataZeroGas < z then Inl ErrOutOfGas
            else Inr (gas1 + z * TxDataZeroGas))))"

section \<open>The transition\<close>

record Message =
  m_From :: address
  m_To :: "address option"
  m_GasPrice :: int
  m_Gas :: uint64
  m_Value :: int
  m_Nonce :: uint64
  m_CheckNonce :: bool
  m_Data :: "byte list"
  m_Action :: uint64
  m_Vote :: "Vote list"
  m_Asset :: "address option"
  m_AssetInfo :: AssetInfo
  m_Abi :: string

record StateTransition =
  st_gp :: uint64
  st_gas :: uint64
  st_initialGas :: uint64
  st_state :: StateDB

datatype core_error = IllegalAction | ErrNonceTooHigh | ErrNonceTooLow | InsufficientBalanceForGas
  | ErrGasLimitReached | VmError vm_error | CreateWithoutData | PublishError publish_error

definition NewStateTransition :: "StateDB \<Rightarrow> uint64 \<Rightarrow> StateTransition" where
  "NewStateTransition s gp = \<lparr>st_gp = gp, st_gas = 0, st_initialGas = 0, st_state = s\<rparr>"

text \<open>\<open>from\<close> and \<open>to\<close> create the account when it does not exist; a message without recipient goes to the
  zero address.\<close>

definition ensure_account :: "backend \<Rightarrow> address \<Rightarrow> StateTransition \<Rightarrow> StateTransition" where
  "ensure_account D a st =
     (case Exist a (st_state st) of
        (True, s1) \<Rightarrow> st\<lparr>st_state := s1\<rparr>
      | (False, s1) \<Rightarrow> st\<lparr>st_state := CreateAccount D a s1\<rparr>)"

definition st_from :: "backend \<Rightarrow> Message \<Rightarrow> StateTransition \<Rightarrow> address \<times> StateTransition" where
  "st_from D msg st = (m_From msg, ensure_account D (m_From msg) st)"

definition st_to :: "backend \<Rightarrow> Message \<Rightarrow> StateTransition \<Rightarrow> address \<times> StateTransition" where
  "st_to D msg st =
     (case m_To msg of
        None \<Rightarrow> (0, st)
      | Some to \<Rightarrow> (to, ensure_account D to st))"

definition useGas :: "uint64 \<Rightarrow> StateTransition \<Rightarrow> vm_error option \<times> StateTransition" where
  "useGas amount st =
     (if st_gas st < amount then (Some ErrOutOfGas, st)
      else (None, st\<lparr>st_gas := st_gas st - amount\<rparr>))"

definition buyGas :: "backend \<Rightarrow> Message \<Rightarrow> StateTransition \<Rightarrow> core_error option \<times> StateTransition" where
  "buyGas D msg st =
     (let (sender, st1) = st_from D msg st;
          mgval = uint (m_Gas msg) * m_GasPrice msg;
          (bal, s2) = GetBalance sender (st_state st1);
          st2 = st1\<lparr>st_state := s2\<rparr> in
      if bal < mgval then (Some InsufficientBalanceForGas, st2)
      else
        (case SubGas (m_Gas msg) (st_gp st2) of
           None \<Rightarrow> (Some ErrGasLimitReached, st2)
         | Some gp1 \<Rightarrow>
             (None, st2\<lparr>st_gp := gp1, st_gas := st_gas st2 + m_Gas msg, st_initialGas := m_Gas msg,
                        st_state := SubBalance D sender mgval s2\<rparr>)))"

definition preCheck :: "backend \<Rightarrow> Message \<Rightarrow> StateTransition \<Rightarrow> core_error option \<times> StateTransition" where
  "preCheck D msg st =
     (if ActionCallContract < m_Action msg then (Some IllegalAction, st)
      else
        (let (sender, st1) = st_from D msg st in
         if m_CheckNonce msg then
           (let (nonce, s2) = GetNonce sender (st_state st1);
                st2 = st1\<lparr>st_state := s2\<rparr> in
            if nonce < m_Nonce msg then (Some ErrNonceTooHigh, st2)
            else if m_Nonce msg < nonce then (Some ErrNonceTooLow, st2)
            else buyGas D msg st2)
         else buyGas D msg st1))"

definition gasUsed :: "StateTransition \<Rightarrow> uint64" where
  "gasUsed st = st_initialGas st - st_gas st"

definition refundGas :: "backend \<Rightarrow> Message \<Rightarrow> StateTransition \<Rightarrow> StateTransition option" where
  "refundGas D msg st =
     (let half = gasUsed st div 2;
          refund = (if GetRefund (st_state st) < half then GetRefund (st_state st) else half);
          (sender, st1) = st_from D msg (st\<lparr>st_gas := st_gas st + refund\<rparr>);
          remaining = uint (st_gas st1) * m_GasPrice msg;
          st2 = st1\<lparr>st_state := AddBalance D sender remaining (st_state st1)\<rparr> in
      map_option (\<lambda>gp1. st2\<lparr>st_gp := gp1\<rparr>) (AddGas (st_gas st2) (st_gp st2)))"

definition publishAsset :: "backend \<Rightarrow> Message \<Rightarrow> StateTransition \<Rightarrow> publish_error option \<times> StateTransition" where
  "publishAsset D msg st =
     (let (sender, st1) = st_from D msg st in
      case PublishAsset D sender (m_AssetInfo msg) (st_state st1) of (e, s1) \<Rightarrow> (e, st1\<lparr>st_state := s1\<rparr>))"

text \<open>What the action of the message does: \<open>Inl\<close> is an error of the transition itself, \<open>Inr\<close> the return
  data and the error of the virtual machine.\<close>

definition perform ::
  "backend \<Rightarrow> EVM \<Rightarrow> Message \<Rightarrow> StateTransition \<Rightarrow>
   ((core_error \<times> bool + byte list \<times> vm_error option) \<times> StateTransition) option" where
  "perform D evm msg st =
     (let sender = m_From msg in
      if m_Action msg = ActionCreateContract then
        (if m_Data msg = [] then Some (Inl (CreateWithoutData, True), st)
         else
           map_option (\<lambda>((ret, _, g, e), s1). (Inr (ret, e), st\<lparr>st_gas := g, st_state := s1\<rparr>))
             (evm_Create D evm (AccountRef sender) (m_Data msg) (st_gas st) (m_Asset msg) (m_Value msg) (m_Abi msg)
                (st_state st)))
      else if m_Action msg = ActionPublishAsset then
        (let (snapshot, s1) = Snapshot (st_state st);
             (e, st1) = publishAsset D msg (st\<lparr>st_state := s1\<rparr>) in
         case e of
           Some pe \<Rightarrow>
             map_option (\<lambda>s2. (Inl (PublishError pe, True), snd (st_from D msg (st1\<lparr>st_state := s2\<rparr>))))
               (RevertToSnapshot snapshot (evm_IsEpiphron evm) (st_state st1))
         | None \<Rightarrow> Some (Inr ([], None), st1))
      else
        (let (nonce, s1) = GetNonce sender (st_state st);
             st1 = st\<lparr>st_state := SetNonce D sender (nonce + 1) s1\<rparr>;
             (to, st2) = st_to D msg st1 in
         map_option (\<lambda>((ret, g, e), s3). (Inr (ret, e), st2\<lparr>st_gas := g, st_state := s3\<rparr>))
           (evm_Call D evm (AccountRef sender) to (m_Data msg) (st_gas st2) (m_Action msg) (m_Value msg)
              [VoteArg (m_Vote msg), AssetArg (m_Asset msg)] (st_state st2))))"

text \<open>\<open>TransitionDb\<close>. The error of \<open>IntrinsicGas\<close> is overwritten by that of \<open>useGas\<close>; it comes with zero
  gas.\<close>

definition TransitionDb ::
  "backend \<Rightarrow> EVM \<Rightarrow> Message \<Rightarrow> StateTransition \<Rightarrow>
   ((byte list \<times> uint64 \<times> bool \<times> core_error option) \<times> StateTransition) option" where
  "TransitionDb D evm msg st =
     (case preCheck D msg st of
        (Some e, st1) \<Rightarrow> Some (([], 0, False, Some e), st1)
      | (None, st1) \<Rightarrow>
          (let st2 = snd (st_from D msg st1);
               gas = (case IntrinsicGas (m_Data msg) (m_Action msg) of Inl _ \<Rightarrow> 0 | Inr g \<Rightarrow> g) in
           case useGas gas st2 of
             (Some e, st3) \<Rightarrow> Some (([], 0, False, Some (VmError e)), st3)
           | (None, st3) \<Rightarrow>
               (case perform D evm msg st3 of
                  None \<Rightarrow> None
                | Some (Inl (e, failed), st4) \<Rightarrow> Some (([], 0, failed, Some e), st4)
                | Some (Inr (ret, vmerr), st4) \<Rightarrow>
                    if vmerr = Some ErrInsufficientBalance \<or> vmerr = Some vm_ErrVote
                    then Some (([], 0, False, map_option VmError vmerr), st4)
                    else
                      map_option (\<lambda>st5. ((ret, gasUsed st5, vmerr \<noteq> None, None),
                          st5\<lparr>st_state := AddBalance D (Coinbase evm) (uint (gasUsed st5) * m_GasPrice msg) (st_state st5)\<rparr>))
                        (refundGas D msg st4))))"

definition ApplyMessage ::
  "backend \<Rightarrow> EVM \<Rightarrow> Message \<Rightarrow> StateDB \<Rightarrow> uint64 \<Rightarrow>
   ((byte list \<times> uint64 \<times> bool \<times> core_error option) \<times> StateTransition) option" where
  "ApplyMessage D evm msg s gp = TransitionDb D evm msg (NewStateTransition s gp)"

section \<open>Gas arithmetic\<close>

lemma unat_MaxUint64_minus: "unat (MaxUint64 - g) = 2 ^ 64 - 1 - unat g"
proof -
  have m: "unat (- 1 :: uint64) = 2 ^ 64 - 1"
    by (simp add: unsigned_minus_1_eq_mask mask_eq_exp_minus_1)
  then show ?thesis using unat_bound[of g] by (simp add: MaxUint64_def unat_sub_if')
qed

lemma AddGas_eq: "AddGas n gp = (if unat gp + unat n < 2 ^ 64 then Some (gp + n) else None)"
  using unat_bound[of gp] unat_bound[of n] by (auto simp: AddGas_def word_less_nat_alt unat_MaxUint64_minus)

lemma SubGas_eq: "SubGas n gp = (if unat n \<le> unat gp then Some (gp - n) else None)"
  by (auto simp: SubGas_def word_less_nat_alt)

lemma count_nz_eq: "count_nz bs nz = nz + of_nat (length (filter (\<lambda>b. b \<noteq> 0) bs))"
  by (induction bs arbitrary: nz) (auto simp: algebra_simps)

text \<open>One step of the computation of the gas: adding \<open>n\<close> times a price, with the check before it.\<close>

lemma add_priced:
  fixes gas n price :: uint64
  assumes "0 < unat price"
  shows "(MaxUint64 - gas) div price < n \<longleftrightarrow> 2 ^ 64 \<le> unat gas + unat n * unat price"
    "\<not> (MaxUint64 - gas) div price < n \<Longrightarrow> unat (gas + n * price) = unat gas + unat n * unat price"
proof -
  have "(2 ^ 64 - 1 - unat gas) div unat price < unat n \<longleftrightarrow> 2 ^ 64 - 1 - unat gas < unat n * unat price"
    using assms by (simp add: div_less_iff_less_mult)
  then show iff: "(MaxUint64 - gas) div price < n \<longleftrightarrow> 2 ^ 64 \<le> unat gas + unat n * unat price"
    using unat_bound[of gas] by (auto simp: word_less_nat_alt unat_div unat_MaxUint64_minus)
  assume "\<not> (MaxUint64 - gas) div price < n"
  with iff have less: "unat gas + unat n * unat price < 2 ^ 64" by simp
  then have "unat (n * price) = unat n * unat price" by (subst unat_mult_lem[symmetric]) simp
  with less show "unat (gas + n * price) = unat gas + unat n * unat price"
    by (subst unat_add_lem[THEN iffD1]) simp_all
qed

text \<open>C27: the intrinsic gas is the price of the action plus four for every byte of the data that is not
  zero and one for every zero byte, computed without overflow: when the sum does not fit in 64 bits the
  result is an error instead. The gas pool refuses exactly what it does not hold, panics exactly when
  it would overflow, and giving back what was taken restores it.\<close>

theorem intrinsic_gas:
  assumes "length data < 2 ^ 63"
  shows "(let need = unat (action_gas action) + 4 * length (filter (\<lambda>b. b \<noteq> 0) data) + length (filter (\<lambda>b. b = 0) data) in
      IntrinsicGas data action = (if need < 2 ^ 64 then Inr (of_nat need) else Inl ErrOutOfGas)) \<and>
    (SubGas n gp = None \<longleftrightarrow> unat gp < unat n) \<and> (AddGas n gp = None \<longleftrightarrow> 2 ^ 64 \<le> unat gp + unat n) \<and>
    (\<forall>gp1. SubGas n gp = Some gp1 \<longrightarrow> unat gp1 = unat gp - unat n \<and> AddGas n gp1 = Some gp)"
proof -
  define p q where "p = length (filter (\<lambda>b. b \<noteq> 0) data)" and "q = length (filter (\<lambda>b. b = 0) data)"
  have len: "length data = p + q"
    unfolding p_def q_def by (induction data) auto
  have pq: "p < 2 ^ 64" "q < 2 ^ 64" using assms len by auto
  have nz: "count_nz data 0 = of_nat p" "unat (count_nz data 0) = p"
    using pq by (simp_all add: count_nz_eq p_def unat_of_nat)
  have z: "of_nat (length data) - count_nz data 0 = (of_nat q :: uint64)" "unat (of_nat q :: uint64) = q"
    using pq nz by (simp_all add: len unat_of_nat)
  let ?g = "action_gas action" let ?need = "unat ?g + 4 * p + q"
  have price: "unat TxDataNonZeroGas = 4" "unat TxDataZeroGas = 1" by (simp_all add: TxDataNonZeroGas_def TxDataZeroGas_def)
  note step1 = add_priced[of TxDataNonZeroGas ?g "count_nz data 0"] 
  note step2 = add_priced[of TxDataZeroGas "?g + count_nz data 0 * TxDataNonZeroGas" "of_nat q"]
  have gas: "IntrinsicGas data action = (if ?need < 2 ^ 64 then Inr (of_nat ?need) else Inl ErrOutOfGas)"
  proof (cases "data = []")
    case True
    then have "p = 0" "q = 0" by (simp_all add: p_def q_def)
    with True show ?thesis using unat_bound[of ?g] by (simp add: IntrinsicGas_def)
  next
    case False
    note eq = IntrinsicGas_def[of data action, unfolded Let_def z(1)]
    show ?thesis
    proof (cases "(MaxUint64 - ?g) div TxDataNonZeroGas < count_nz data 0")
      case True
      with step1(1) price nz False show ?thesis by (simp add: eq)
    next
      case F1: False
      then have g1: "unat (?g + count_nz data 0 * TxDataNonZeroGas) = unat ?g + 4 * p" using step1(2) price nz by simp
      show ?thesis
      proof (cases "(MaxUint64 - (?g + count_nz data 0 * TxDataNonZeroGas)) div TxDataZeroGas < of_nat q")
        case True
        with step2(1) price g1 z False F1 show ?thesis by (simp add: eq)
      next
        case F2: False
        then have g2: "unat (?g + count_nz data 0 * TxDataNonZeroGas + of_nat q * TxDataZeroGas) = ?need"
          and less: "?need < 2 ^ 64" using step2 price g1 z by simp_all
        have "?g + count_nz data 0 * TxDataNonZeroGas + of_nat q * TxDataZeroGas = of_nat ?need"
          unfolding g2[symmetric] by simp
        with False F1 F2 less show ?thesis by (simp add: eq)
      qed
    qed
  qed
  have pool: "unat gp1 = unat gp - unat n \<and> AddGas n gp1 = Some gp" if "SubGas n gp = Some gp1" for gp1
    using that unat_bound[of gp] by (auto simp: SubGas_eq AddGas_eq unat_sub_if' split: if_splits)
  have "SubGas n gp = None \<longleftrightarrow> unat gp < unat n" "AddGas n gp = None \<longleftrightarrow> 2 ^ 64 \<le> unat gp + unat n"
    by (simp_all add: SubGas_eq AddGas_eq not_less)
  with gas pool show ?thesis unfolding Let_def p_def[symmetric] q_def[symmetric] by blast
qed

theorem intrinsic_gas_witness:
  "IntrinsicGas [0, 7, 0] ActionTrans = Inr 25006 \<and> SubGas 100 500 = Some 400"
  using intrinsic_gas[of "[0, 7, 0]" ActionTrans 100 500] by (simp add: action_gas_def TxGas_def SubGas_def)

end
