(* ===== verification/Transfers.thy ===== *)
theory Transfers
  imports Transition
begin

text \<open>
  A complete account of a plain transfer: every balance, the nonce and the gas pool after a message
  that sends AOA to an account without code, through all of \<open>TransitionDb\<close>.
\<close>

section \<open>Composing operations\<close>

text \<open>A step that extends the journal, leads to the view \<open>V\<close> and leaves the refund counter alone.\<close>

definition leads :: "backend \<Rightarrow> StateDB \<Rightarrow> (address \<Rightarrow> account_view) \<Rightarrow> StateDB \<Rightarrow> bool" where
  "leads D s V t \<longleftrightarrow> extends D s t \<and> view_of D t = V \<and> refund t = refund s"

lemma leads_trans: "leads D s V t \<Longrightarrow> leads D t W u \<Longrightarrow> leads D s W u"
  using extends_trans by (auto simp: leads_def)

lemma leads_inv: "leads D s V t \<Longrightarrow> sdb_inv t"
  using extends_inv by (auto simp: leads_def)

lemma refund_obs: "sv_refund (obs D s) = refund s" "sv_refund (put_view a w v) = sv_refund v"
  by (simp_all add: obs_def put_view_def)

lemma leads_same:
  assumes "extends D s t" "obs D t = obs D s"
  shows "leads D s (view_of D s) t"
  using assms view_of_obs[OF assms(2)] refund_obs(1)[of D s] refund_obs(1)[of D t] by (simp add: leads_def)

lemma leads_put:
  assumes "extends D s t" "obs D t = put_view a w (obs D s)"
  shows "leads D s ((view_of D s)(a := w)) t"
  using assms view_of_put[OF assms(2)] refund_obs(1)[of D s] refund_obs(1)[of D t]
  by (simp add: leads_def refund_obs(2))

lemma leads_reads:
  assumes "sdb_inv s"
  shows "leads D s (view_of D s) (snd (GetBalance a s))" "leads D s (view_of D s) (snd (GetNonce a s))"
    "leads D s (view_of D s) (snd (Exist a s))" "leads D s (view_of D s) (snd (GetCodeHash a s))"
    "leads D s (view_of D s) (snd (GetCode D a s))" "leads D s (view_of D s) (snd (Snapshot s))"
    "leads D s (view_of D s) (snd (CanTransfer a None v s))"
  by (rule leads_same; rule extends_ops[OF assms] obs_reads_state obs_GetCode[OF assms] obs_Snapshot
      CanTransfer_view(3,4)[OF assms])+

lemma leads_writes:
  assumes "sdb_inv s"
  shows "leads D s ((view_of D s)(a := (view_of D s a)\<lparr>v_balance := v_balance (view_of D s a) + v\<rparr>)) (AddBalance D a v s)"
    "leads D s ((view_of D s)(a := (view_of D s a)\<lparr>v_balance := v_balance (view_of D s a) - v\<rparr>)) (SubBalance D a v s)"
    "leads D s ((view_of D s)(a := (view_of D s a)\<lparr>v_nonce := n\<rparr>)) (SetNonce D a n s)"
    "leads D s ((view_of D s)(a := (zero_view D)\<lparr>v_balance := v_balance (view_of D s a)\<rparr>)) (CreateAccount D a s)"
  by (rule leads_put; rule extends_ops[OF assms] obs_AddBalance[OF assms] obs_SubBalance[OF assms]
      obs_SetNonce[OF assms] obs_CreateAccount[OF assms])+

lemma leads_Transfer:
  assumes "sdb_inv s"
  shows "leads D s (let V = (view_of D s)(a := (view_of D s a)\<lparr>v_balance := v_balance (view_of D s a) - v\<rparr>) in
     V(b := (V b)\<lparr>v_balance := v_balance (V b) + v\<rparr>)) (Transfer D a b None v s)"
proof -
  note sub = leads_writes(2)[OF assms, of D a v]
  note add = leads_writes(1)[OF leads_inv[OF sub], of D b v]
  have "view_of D (SubBalance D a v s) = (view_of D s)(a := (view_of D s a)\<lparr>v_balance := v_balance (view_of D s a) - v\<rparr>)"
    using sub by (simp add: leads_def)
  with leads_trans[OF sub add] show ?thesis by (simp add: Transfer_def Let_def)
qed

lemma ensure_account_leads:
  assumes "sdb_inv (st_state st)"
  shows "leads D (st_state st) (view_of D (st_state st)) (st_state (ensure_account D a st))"
    "sv_acc (obs D (st_state (ensure_account D a st))) a \<noteq> None"
    "st_gas (ensure_account D a st) = st_gas st" "st_gp (ensure_account D a st) = st_gp st"
    "st_initialGas (ensure_account D a st) = st_initialGas st"
proof -
  obtain ex s1 where ex: "Exist a (st_state st) = (ex, s1)" by fastforce
  note l = leads_reads(3)[OF assms, of D a, unfolded ex snd_conv]
  have ob: "obs D s1 = obs D (st_state st)" using obs_reads_state(4)[of D a "st_state st"] ex by simp
  have b: "ex = (sv_acc (obs D (st_state st)) a \<noteq> None)" using view_reads(6)[of a "st_state st" D] ex by simp
  show "leads D (st_state st) (view_of D (st_state st)) (st_state (ensure_account D a st))"
  proof (cases ex)
    case True
    with l show ?thesis by (simp add: ensure_account_def ex)
  next
    case False
    note c = leads_writes(4)[OF leads_inv[OF l], of D a]
    have "view_of D s1 a = zero_view D" using False b ob by (simp add: view_of_def)
    then have "(view_of D s1)(a := (zero_view D)\<lparr>v_balance := v_balance (view_of D s1 a)\<rparr>) = view_of D (st_state st)"
      using l by (auto simp: leads_def zero_view_balance fun_eq_iff)
    with leads_trans[OF l c] False show ?thesis by (simp add: ensure_account_def ex)
  qed
  show "sv_acc (obs D (st_state (ensure_account D a st))) a \<noteq> None"
    using exists_writes(1)[OF leads_inv[OF l], of D a] b ob by (cases ex) (simp_all add: ensure_account_def ex)
  show "st_gas (ensure_account D a st) = st_gas st" "st_gp (ensure_account D a st) = st_gp st"
    "st_initialGas (ensure_account D a st) = st_initialGas st"
    by (simp_all add: ensure_account_def split: prod.split bool.split)
qed

text \<open>A call that sends AOA to an existing account without code.\<close>

lemma call_without_code:
  assumes inv: "sdb_inv s" and evm: "depth evm = 0" "Precompiles evm b = None" and action: "action = ActionTrans"
    and b: "sv_acc (obs D s) b \<noteq> None" "v_code (view_of D s b) = None \<or> v_code (view_of D s b) = Some []"
    and val: "val \<le> v_balance (view_of D s a)" and args: "call_args args ([], None) = Some (vs, None)"
  shows "\<exists>t. evm_Call D evm (AccountRef a) b input gas action val args s = Some (([], gas, None), t) \<and>
    leads D s (let V = (view_of D s)(a := (view_of D s a)\<lparr>v_balance := v_balance (view_of D s a) - val\<rparr>) in
     V(b := (V b)\<lparr>v_balance := v_balance (V b) + val\<rparr>)) t"
proof -
  obtain s1 where c1: "CanTransfer a None val s = (True, s1)"
    using CanTransfer_view(1)[OF inv, of a val D] val by (metis prod.collapse)
  note l1 = leads_reads(7)[OF inv, of D a val, unfolded c1 snd_conv]
  obtain rid s3 where snap: "Snapshot s1 = (rid, s3)" by fastforce
  note l3 = leads_trans[OF l1 leads_reads(6)[OF leads_inv[OF l1], of D, unfolded snap snd_conv]]
  obtain ex s4 where ex: "Exist b s3 = (ex, s4)" by fastforce
  note l4 = leads_trans[OF l3 leads_reads(3)[OF leads_inv[OF l3], of D b, unfolded ex snd_conv]]
  have "obs D s3 = obs D s"
    using obs_Snapshot[of D s1] CanTransfer_view(4)[OF inv, of D a val] snap c1 by simp
  then have ext: ex using view_reads(6)[of b s3 D] ex b(1) by simp
  define s6 where "s6 = Transfer D a b None val s4"
  have v4: "view_of D s4 = view_of D s" "view_of D s3 = view_of D s" "view_of D s1 = view_of D s"
    using l4 l3 l1 by (simp_all add: leads_def)
  note l6 = leads_trans[OF l4 leads_Transfer[OF leads_inv[OF l4], of D a val b, folded s6_def]]
  obtain h s7 where h: "GetCodeHash b s6 = (h, s7)" by fastforce
  note l7 = leads_trans[OF l6 leads_reads(4)[OF leads_inv[OF l6], of D b, unfolded h snd_conv]]
  obtain code s8 where code: "GetCode D b s7 = (code, s8)" by fastforce
  note l8 = leads_trans[OF l7 leads_reads(5)[OF leads_inv[OF l7], of D b, unfolded code snd_conv]]
  have v7: "view_of D s7 = view_of D s6" "view_of D s8 = view_of D s6"
    using l7 l8 by (simp_all add: leads_def)
  have "code = v_code (view_of D s7 b)" using view_reads(3)[of D b s7] code by simp
  also have "\<dots> = v_code (view_of D s b)" using l6 v4 v7 by (simp add: leads_def Let_def)
  finally have nil: "(case code of None \<Rightarrow> [] | Some x \<Rightarrow> x) = []" using b(2) by auto
  have plain: "\<not> (NoRecursion evm \<and> 0 < depth evm)" "\<not> CallCreateDepth < depth evm" "action \<noteq> ActionAddVote"
    "action \<noteq> ActionSubVote" "action \<noteq> ActionRegister"
    using evm(1) action by (simp_all add: ActionTrans_def ActionAddVote_def ActionSubVote_def ActionRegister_def)
  have "evm_Call D evm (AccountRef a) b input gas action val args s = Some (([], gas, None), s8)"
    unfolding evm_Call_plain[OF plain(1) args plain(2-5), of "AccountRef a", simplified, OF c1 snap ex]
    using ext evm(2) nil
    by (simp add: call_contract_def s6_def[symmetric] h code run_contract_def vm_run_def SetCallCode_def interpreter_Run_def NewContract_def)
  moreover have "leads D s (let V = (view_of D s)(a := (view_of D s a)\<lparr>v_balance := v_balance (view_of D s a) - val\<rparr>) in
     V(b := (V b)\<lparr>v_balance := v_balance (V b) + val\<rparr>)) s8"
    using l8 v7 l6 v4 by (simp add: leads_def)
  ultimately show ?thesis by blast
qed

section \<open>The stages of a transition\<close>

lemma st_fields: "st\<lparr>st_gp := a, st_gas := b, st_initialGas := c, st_state := d\<rparr> =
    \<lparr>st_gp = a, st_gas = b, st_initialGas = c, st_state = d\<rparr>" for st :: StateTransition
  by (cases st) simp

lemma buyGas_ok:
  assumes inv: "sdb_inv (st_state st)" and bal: "uint (m_Gas msg) * m_GasPrice msg \<le> v_balance (view_of D (st_state st) (m_From msg))"
    and gp: "m_Gas msg \<le> st_gp st"
  shows "\<exists>t. buyGas D msg st = (None, \<lparr>st_gp = st_gp st - m_Gas msg, st_gas = st_gas st + m_Gas msg,
      st_initialGas = m_Gas msg, st_state = t\<rparr>) \<and>
    leads D (st_state st) ((view_of D (st_state st))(m_From msg := (view_of D (st_state st) (m_From msg))
      \<lparr>v_balance := v_balance (view_of D (st_state st) (m_From msg)) - uint (m_Gas msg) * m_GasPrice msg\<rparr>)) t"
proof -
  let ?a = "m_From msg" and ?st1 = "ensure_account D (m_From msg) st"
  note e = ensure_account_leads[OF inv, of D ?a]
  obtain v s2 where get: "GetBalance ?a (st_state ?st1) = (v, s2)" by fastforce
  note l2 = leads_trans[OF e(1) leads_reads(1)[OF leads_inv[OF e(1)], of D ?a, unfolded get snd_conv]]
  have views: "view_of D (st_state ?st1) = view_of D (st_state st)" "view_of D s2 = view_of D (st_state st)"
    using e(1) l2 by (simp_all add: leads_def)
  have v: "\<not> v < uint (m_Gas msg) * m_GasPrice msg"
    using view_reads(1)[of ?a "st_state ?st1" D] get bal views by simp
  note l3 = leads_trans[OF l2 leads_writes(2)[OF leads_inv[OF l2], of D ?a "uint (m_Gas msg) * m_GasPrice msg"]]
  have "SubGas (m_Gas msg) (st_gp st) = Some (st_gp st - m_Gas msg)" using gp by (simp add: SubGas_eq word_le_nat_alt)
  then have "buyGas D msg st = (None, \<lparr>st_gp = st_gp st - m_Gas msg, st_gas = st_gas st + m_Gas msg,
      st_initialGas = m_Gas msg, st_state = SubBalance D ?a (uint (m_Gas msg) * m_GasPrice msg) s2\<rparr>)"
    using v e(3-5) get by (simp add: buyGas_def st_from_def st_fields)
  with l3[unfolded views] show ?thesis by blast
qed

lemma preCheck_ok:
  assumes inv: "sdb_inv (st_state st)" and bal: "uint (m_Gas msg) * m_GasPrice msg \<le> v_balance (view_of D (st_state st) (m_From msg))"
    and gp: "m_Gas msg \<le> st_gp st" and action: "m_Action msg \<le> ActionCallContract"
    and nonce: "m_CheckNonce msg \<Longrightarrow> m_Nonce msg = v_nonce (view_of D (st_state st) (m_From msg))"
  shows "\<exists>t. preCheck D msg st = (None, \<lparr>st_gp = st_gp st - m_Gas msg, st_gas = st_gas st + m_Gas msg,
      st_initialGas = m_Gas msg, st_state = t\<rparr>) \<and>
    leads D (st_state st) ((view_of D (st_state st))(m_From msg := (view_of D (st_state st) (m_From msg))
      \<lparr>v_balance := v_balance (view_of D (st_state st) (m_From msg)) - uint (m_Gas msg) * m_GasPrice msg\<rparr>)) t"
proof -
  let ?a = "m_From msg" and ?st1 = "ensure_account D (m_From msg) st"
  note e = ensure_account_leads[OF inv, of D ?a]
  obtain n s2 where get: "GetNonce ?a (st_state ?st1) = (n, s2)" by fastforce
  note l2 = leads_trans[OF e(1) leads_reads(2)[OF leads_inv[OF e(1)], of D ?a, unfolded get snd_conv]]
  define st2 where "st2 = (if m_CheckNonce msg then ?st1\<lparr>st_state := s2\<rparr> else ?st1)"
  have l: "leads D (st_state st) (view_of D (st_state st)) (st_state st2)"
    using l2 e(1) by (simp add: st2_def leads_def)
  then have v: "view_of D (st_state st2) = view_of D (st_state st)" by (simp add: leads_def)
  have fields: "st_gp st2 = st_gp st" "st_gas st2 = st_gas st" using e(3,4) by (simp_all add: st2_def)
  have "n = v_nonce (view_of D (st_state st) ?a)"
    using view_reads(2)[of ?a "st_state ?st1" D] get e(1) by (simp add: leads_def)
  then have "preCheck D msg st = buyGas D msg st2"
    using nonce get leD[OF action] by (cases "m_CheckNonce msg") (simp_all add: preCheck_def st_from_def st2_def)
  moreover obtain t where "buyGas D msg st2 = (None, \<lparr>st_gp = st_gp st - m_Gas msg, st_gas = st_gas st + m_Gas msg,
      st_initialGas = m_Gas msg, st_state = t\<rparr>)"
    "leads D (st_state st2) ((view_of D (st_state st))(m_From msg := (view_of D (st_state st) (m_From msg))
      \<lparr>v_balance := v_balance (view_of D (st_state st) (m_From msg)) - uint (m_Gas msg) * m_GasPrice msg\<rparr>)) t"
    using buyGas_ok[OF leads_inv[OF l], of msg D] bal gp unfolding v fields by blast
  ultimately show ?thesis using leads_trans[OF l] by auto
qed

lemma perform_transfer:
  assumes inv: "sdb_inv (st_state st)" and msg: "m_Action msg = ActionTrans" "m_To msg = Some b" "m_Asset msg = None"
    and evm: "depth evm = 0" "Precompiles evm b = None"
    and code: "v_code (view_of D (st_state st) b) = None \<or> v_code (view_of D (st_state st) b) = Some []"
    and val: "m_Value msg \<le> v_balance (view_of D (st_state st) (m_From msg))"
  shows "\<exists>t. perform D evm msg st = Some (Inr ([], None), st\<lparr>st_state := t\<rparr>) \<and>
    leads D (st_state st)
      (let V0 = view_of D (st_state st);
           V1 = V0(m_From msg := (V0 (m_From msg))\<lparr>v_nonce := v_nonce (V0 (m_From msg)) + 1\<rparr>);
           V2 = V1(m_From msg := (V1 (m_From msg))\<lparr>v_balance := v_balance (V1 (m_From msg)) - m_Value msg\<rparr>) in
       V2(b := (V2 b)\<lparr>v_balance := v_balance (V2 b) + m_Value msg\<rparr>)) t"
proof -
  let ?a = "m_From msg"
  let ?V0 = "view_of D (st_state st)"
  let ?V1 = "?V0(?a := (?V0 ?a)\<lparr>v_nonce := v_nonce (?V0 ?a) + 1\<rparr>)"
  obtain n s1 where get: "GetNonce ?a (st_state st) = (n, s1)" by fastforce
  note l1 = leads_reads(2)[OF inv, of D ?a, unfolded get snd_conv]
  have n: "n = v_nonce (?V0 ?a)" using view_reads(2)[of ?a "st_state st" D] get by simp
  define st1 where "st1 = st\<lparr>st_state := SetNonce D ?a (n + 1) s1\<rparr>"
  have l2: "leads D (st_state st) ?V1 (st_state st1)"
    using leads_trans[OF l1 leads_writes(3)[OF leads_inv[OF l1], of D ?a "n + 1"]] l1 n by (simp add: st1_def leads_def)
  define st2 where "st2 = ensure_account D b st1"
  note e = ensure_account_leads[OF leads_inv[OF l2], of D b, folded st2_def]
  have l3: "leads D (st_state st) ?V1 (st_state st2)" using leads_trans[OF l2 e(1)] l2 by (simp add: leads_def)
  then have v: "view_of D (st_state st2) = ?V1" by (simp add: leads_def)
  have "v_code (?V1 b) = None \<or> v_code (?V1 b) = Some []" "m_Value msg \<le> v_balance (?V1 ?a)" using code val by auto
  note call = call_without_code[OF leads_inv[OF l3] evm refl e(2), unfolded v, OF this,
      of "[VoteArg (m_Vote msg), AssetArg None]" "m_Vote msg" "m_Data msg" "st_gas st2", simplified]
  then obtain t where t: "evm_Call D evm (AccountRef ?a) b (m_Data msg) (st_gas st2) ActionTrans (m_Value msg)
      [VoteArg (m_Vote msg), AssetArg None] (st_state st2) = Some (([], st_gas st2, None), t)"
    "leads D (st_state st2) (let V2 = ?V1(?a := (?V1 ?a)\<lparr>v_balance := v_balance (?V1 ?a) - m_Value msg\<rparr>) in
       V2(b := (V2 b)\<lparr>v_balance := v_balance (V2 b) + m_Value msg\<rparr>)) t" by auto
  have st2: "st2\<lparr>st_gas := st_gas st2, st_state := t\<rparr> = st\<lparr>st_state := t\<rparr>"
    using e(3-5) by (intro StateTransition.equality) (simp_all add: st1_def)
  have "perform D evm msg st = Some (Inr ([], None), st\<lparr>st_state := t\<rparr>)"
    using t(1) st2 msg by (simp add: perform_def get st_to_def st1_def[symmetric] st2_def[symmetric]
        ActionTrans_def ActionCreateContract_def ActionPublishAsset_def)
  with leads_trans[OF l3 t(2)] show ?thesis by (auto simp: Let_def)
qed

lemma refundGas_none:
  assumes inv: "sdb_inv (st_state st)" and refund: "refund (st_state st) = 0" and gas: "unat (st_gp st) + unat (st_gas st) < 2 ^ 64"
  shows "\<exists>t. refundGas D msg st = Some (st\<lparr>st_gp := st_gp st + st_gas st, st_state := t\<rparr>) \<and>
    leads D (st_state st) ((view_of D (st_state st))(m_From msg := (view_of D (st_state st) (m_From msg))
      \<lparr>v_balance := v_balance (view_of D (st_state st) (m_From msg)) + uint (st_gas st) * m_GasPrice msg\<rparr>)) t"
proof -
  let ?a = "m_From msg"
  define st1 where "st1 = ensure_account D ?a st"
  note e = ensure_account_leads[OF inv, of D ?a, folded st1_def]
  have zero: "(if GetRefund (st_state st) < gasUsed st div 2 then GetRefund (st_state st) else gasUsed st div 2) = 0"
    using refund by (simp add: GetRefund_def word_greater_zero_iff)
  have same: "st\<lparr>st_gas := st_gas st + 0\<rparr> = st" by simp
  have v: "view_of D (st_state st1) = view_of D (st_state st)" using e(1) by (simp add: leads_def)
  let ?t = "AddBalance D ?a (uint (st_gas st) * m_GasPrice msg) (st_state st1)"
  note l = leads_trans[OF e(1) leads_writes(1)[OF leads_inv[OF e(1)], of D ?a "uint (st_gas st) * m_GasPrice msg"], unfolded v]
  have "refundGas D msg st = Some (st1\<lparr>st_state := ?t, st_gp := st_gp st + st_gas st\<rparr>)"
    unfolding refundGas_def Let_def zero same st_from_def st1_def[symmetric]
    using gas e(3,4) by (simp add: AddGas_eq)
  moreover have "st1\<lparr>st_state := ?t, st_gp := st_gp st + st_gas st\<rparr> = st\<lparr>st_gp := st_gp st + st_gas st, st_state := ?t\<rparr>"
    using e(3-5) by (intro StateTransition.equality) simp_all
  ultimately show ?thesis using l by auto
qed

section \<open>The whole transition\<close>

text \<open>The views of the stages, put together.\<close>

lemma transfer_ledger:
  fixes V :: "address \<Rightarrow> account_view" and G ig :: uint64
  assumes "ig \<le> G"
  shows "(let V1 = V(a := (V a)\<lparr>v_balance := v_balance (V a) - uint G * p\<rparr>);
      V2 = (let V0 = V1; V1 = V0(a := (V0 a)\<lparr>v_nonce := v_nonce (V0 a) + 1\<rparr>);
                V2 = V1(a := (V1 a)\<lparr>v_balance := v_balance (V1 a) - val\<rparr>) in
            V2(b := (V2 b)\<lparr>v_balance := v_balance (V2 b) + val\<rparr>));
      V3 = V2(a := (V2 a)\<lparr>v_balance := v_balance (V2 a) + uint (G - ig) * p\<rparr>) in
     V3(c := (V3 c)\<lparr>v_balance := v_balance (V3 c) + uint ig * p\<rparr>)) =
    (\<lambda>x. (V x)\<lparr>v_nonce := v_nonce (V x) + (if x = a then 1 else 0),
       v_balance := v_balance (V x) - (if x = a then val + uint ig * p else 0)
         + (if x = b then val else 0) + (if x = c then uint ig * p else 0)\<rparr>)"
proof -
  have "uint (G - ig) * p = uint G * p - uint ig * p"
    using assms by (simp add: uint_minus_simple_alt left_diff_distrib word_le_def uint_sub_lem)
  then show ?thesis by (auto simp: fun_eq_iff Let_def intro!: account_view.equality)
qed

text \<open>C28: what a transfer does. The message is a plain transfer of AOA, of a value that is not negative, to an account
  that has no code and is no native contract; its nonce is the sender's if it is checked, the sender can pay the value and
  all the gas the message offers, and that gas is at least the intrinsic gas and at most what is left in the pool
  of the block; no call is running and the refund counter is zero. Then the message succeeds: it uses exactly the
  intrinsic gas, the rest goes back to the gas pool and to the sender, the nonce of the sender goes up
  by one, the value moves from the sender to the recipient and the price of the gas used from the sender
  to the producer of the block, whoever of the three coincide. The rest of what an account reads as (code, lock
  balance, votes, assets, storage, the suicide mark) is unchanged for every account.\<close>

theorem transfer_transaction:
  assumes "sdb_inv s" "refund s = 0" and msg: "m_Action msg = ActionTrans" "m_To msg = Some b" "m_Asset msg = None" "0 \<le> m_Value msg"
    and "m_CheckNonce msg \<Longrightarrow> m_Nonce msg = v_nonce (view_of D s (m_From msg))"
    and bal: "uint (m_Gas msg) * m_GasPrice msg + m_Value msg \<le> v_balance (view_of D s (m_From msg))"
    and gas: "IntrinsicGas (m_Data msg) ActionTrans = Inr ig" "ig \<le> m_Gas msg" "m_Gas msg \<le> gp"
    and evm: "depth evm = 0" "Precompiles evm b = None" and code: "v_code (view_of D s b) = None \<or> v_code (view_of D s b) = Some []"
  shows "\<exists>st. ApplyMessage D evm msg s gp = Some (([], ig, False, None), st) \<and>
    st_gp st = gp - ig \<and> extends D s (st_state st) \<and>
    view_of D (st_state st) = (\<lambda>a. (view_of D s a)
      \<lparr>v_nonce := v_nonce (view_of D s a) + (if a = m_From msg then 1 else 0),
       v_balance := v_balance (view_of D s a) - (if a = m_From msg then m_Value msg + uint ig * m_GasPrice msg else 0)
         + (if a = b then m_Value msg else 0) + (if a = Coinbase evm then uint ig * m_GasPrice msg else 0)\<rparr>)"
proof -
  let ?a = "m_From msg" and ?st0 = "NewStateTransition s gp" and ?V0 = "view_of D s" and ?p = "m_GasPrice msg"
  let ?V1 = "?V0(?a := (?V0 ?a)\<lparr>v_balance := v_balance (?V0 ?a) - uint (m_Gas msg) * ?p\<rparr>)"
  have st0 [simp]: "st_state ?st0 = s" "st_gp ?st0 = gp" "st_gas ?st0 = 0" by (simp_all add: NewStateTransition_def)
  have act: "m_Action msg \<le> ActionCallContract" by (simp add: msg(1) ActionTrans_def)
  have fee: "uint (m_Gas msg) * ?p \<le> v_balance (?V0 ?a)" using bal msg(4) by simp
  obtain t1 where t1: "preCheck D msg ?st0 = (None, \<lparr>st_gp = gp - m_Gas msg, st_gas = m_Gas msg,
      st_initialGas = m_Gas msg, st_state = t1\<rparr>)" and l1: "leads D s ?V1 t1"
    using preCheck_ok[of ?st0 msg D, unfolded st0, OF assms(1) fee gas(3) act assms(7)] unfolding add_0 by blast
  define st2 where "st2 = ensure_account D ?a \<lparr>st_gp = gp - m_Gas msg, st_gas = m_Gas msg, st_initialGas = m_Gas msg, st_state = t1\<rparr>"
  have e: "leads D t1 (view_of D t1) (st_state st2)" "st_gas st2 = m_Gas msg" "st_gp st2 = gp - m_Gas msg"
    "st_initialGas st2 = m_Gas msg"
    using ensure_account_leads[where st = "\<lparr>st_gp = gp - m_Gas msg, st_gas = m_Gas msg, st_initialGas = m_Gas msg, st_state = t1\<rparr>"]
      leads_inv[OF l1] by (simp_all add: st2_def)
  have l2: "leads D s ?V1 (st_state st2)" using leads_trans[OF l1 e(1)] l1 by (simp add: leads_def)
  define st3 where "st3 = st2\<lparr>st_gas := m_Gas msg - ig\<rparr>"
  have s3: "st_state st3 = st_state st2" by (simp add: st3_def)
  have use: "useGas ig st2 = (None, st3)" using gas(2) by (simp add: useGas_def e st3_def linorder_not_less[symmetric])
  have v3: "view_of D (st_state st3) = ?V1" and inv3: "sdb_inv (st_state st3)"
    using l2 leads_inv[OF l2] by (simp_all add: st3_def leads_def)
  have "v_code (?V1 b) = None \<or> v_code (?V1 b) = Some []" "m_Value msg \<le> v_balance (?V1 ?a)" using code bal by auto
  from perform_transfer[OF inv3 msg(1-3) evm, of D, unfolded v3, OF this] obtain t4 where
    t4: "perform D evm msg st3 = Some (Inr ([], None), st3\<lparr>st_state := t4\<rparr>)" and l4: "leads D (st_state st3)
      (let V0 = ?V1; V1 = V0(?a := (V0 ?a)\<lparr>v_nonce := v_nonce (V0 ?a) + 1\<rparr>);
           V2 = V1(?a := (V1 ?a)\<lparr>v_balance := v_balance (V1 ?a) - m_Value msg\<rparr>) in
       V2(b := (V2 b)\<lparr>v_balance := v_balance (V2 b) + m_Value msg\<rparr>)) t4"
    by (elim exE conjE) (rule that)
  have "refund t4 = 0" using l4 l2 assms(2) by (simp add: leads_def st3_def)
  moreover have "unat (gp - m_Gas msg) + unat (m_Gas msg - ig) = unat (gp - ig)" and sum: "gp - m_Gas msg + (m_Gas msg - ig) = gp - ig"
    using gas(2,3) unat_bound[of gp] by (simp_all add: word_le_nat_alt unat_sub_if')
  then have "unat (gp - m_Gas msg) + unat (m_Gas msg - ig) < 2 ^ 64" using unat_bound[of "gp - ig"] by simp
  ultimately have pre: "sdb_inv t4" "refund t4 = 0" "unat (gp - m_Gas msg) + unat (m_Gas msg - ig) < 2 ^ 64"
    using leads_inv[OF l4] by simp_all
  let ?st4 = "\<lparr>st_gp = gp - m_Gas msg, st_gas = m_Gas msg - ig, st_initialGas = m_Gas msg, st_state = t4\<rparr>"
  have st4: "st3\<lparr>st_state := t4\<rparr> = ?st4" by (intro StateTransition.equality) (simp_all add: st3_def e)
  obtain t5 where t5: "refundGas D msg ?st4 = Some (?st4\<lparr>st_gp := gp - ig, st_state := t5\<rparr>)"
    and l5: "leads D t4 ((view_of D t4)(?a := (view_of D t4 ?a)\<lparr>v_balance := v_balance (view_of D t4 ?a) + uint (m_Gas msg - ig) * ?p\<rparr>)) t5"
    using refundGas_none[of ?st4 D msg, unfolded StateTransition.select_convs sum, OF pre] by (elim exE conjE) (rule that)
  have used: "gasUsed (?st4\<lparr>st_gp := gp - ig, st_state := t5\<rparr>) = ig" by (simp add: gasUsed_def)
  let ?t6 = "AddBalance D (Coinbase evm) (uint ig * ?p) t5"
  note l6 = leads_writes(1)[OF leads_inv[OF l5], of D "Coinbase evm" "uint ig * ?p"]
  have "ApplyMessage D evm msg s gp = Some (([], ig, False, None), ?st4\<lparr>st_gp := gp - ig, st_state := ?t6\<rparr>)"
    using t5 used by (simp add: st4 ApplyMessage_def TransitionDb_def t1 st_from_def st2_def[symmetric] msg(1) gas(1) use t4)
  moreover have "extends D s ?t6"
    using leads_trans[OF l2 leads_trans[OF l4[unfolded s3] leads_trans[OF l5 l6]]]
    by (simp add: leads_def)
  moreover have "view_of D ?t6 = (\<lambda>a. (view_of D s a)
      \<lparr>v_nonce := v_nonce (view_of D s a) + (if a = ?a then 1 else 0),
       v_balance := v_balance (view_of D s a) - (if a = ?a then m_Value msg + uint ig * ?p else 0)
         + (if a = b then m_Value msg else 0) + (if a = Coinbase evm then uint ig * ?p else 0)\<rparr>)"
    using l6 l5 l4 gas(2) by (simp only: leads_def transfer_ledger[OF gas(2), symmetric] Let_def)
  ultimately show ?thesis by (intro exI[of _ "?st4\<lparr>st_gp := gp - ig, st_state := ?t6\<rparr>"]) simp
qed

definition pay_db :: StateDB where "pay_db = AddBalance backend0 1 100000 empty_db"

definition pay_msg :: Message where
  "pay_msg = \<lparr>m_From = 1, m_To = Some 4, m_GasPrice = 2, m_Gas = 30000, m_Value = 500, m_Nonce = 0, m_CheckNonce = True,
     m_Data = [], m_Action = ActionTrans, m_Vote = [], m_Asset = None,
     m_AssetInfo = \<lparr>Issuer = None, Name = [], Symbol = [], Supply = None, Desc = []\<rparr>, m_Abi = []\<rparr>"

lemma pay_db_ok: "sdb_inv pay_db" "refund pay_db = 0" "view_of backend0 pay_db 1 = (zero_view backend0)\<lparr>v_balance := 100000\<rparr>"
  "a \<noteq> 1 \<Longrightarrow> view_of backend0 pay_db a = zero_view backend0"
proof -
  note w = leads_writes(1)[OF empty_db_ok(1), of backend0 1 100000, folded pay_db_def]
  show "sdb_inv pay_db" using leads_inv[OF w] .
  show "refund pay_db = 0" using w by (simp add: leads_def empty_db_def New_def)
  have "view_of backend0 empty_db a = zero_view backend0" for a
    by (simp add: view_of_def obs_def peek_def getStateObject_def empty_db_def New_def setError_def)
  then show "view_of backend0 pay_db 1 = (zero_view backend0)\<lparr>v_balance := 100000\<rparr>"
    "a \<noteq> 1 \<Longrightarrow> view_of backend0 pay_db a = zero_view backend0"
    using w by (simp_all add: leads_def)
qed

theorem transfer_transaction_witness:
  "\<exists>st. ApplyMessage backend0 evm0 pay_msg pay_db 90000 = Some (([], 25000, False, None), st) \<and> st_gp st = 65000 \<and>
     fst (GetBalance 1 (st_state st)) = 49500 \<and> fst (GetBalance 4 (st_state st)) = 500 \<and>
     fst (GetBalance 77 (st_state st)) = 50000 \<and> fst (GetNonce 1 (st_state st)) = 1"
proof -
  have gas: "IntrinsicGas (m_Data pay_msg) ActionTrans = Inr 25000" by code_simp
  have msg: "m_Action pay_msg = ActionTrans" "m_To pay_msg = Some 4" "m_Asset pay_msg = None" "0 \<le> m_Value pay_msg"
    "m_Nonce pay_msg = v_nonce (view_of backend0 pay_db (m_From pay_msg))"
    "uint (m_Gas pay_msg) * m_GasPrice pay_msg + m_Value pay_msg \<le> v_balance (view_of backend0 pay_db (m_From pay_msg))"
    "25000 \<le> m_Gas pay_msg" "m_Gas pay_msg \<le> 90000"
    "v_code (view_of backend0 pay_db 4) = None \<or> v_code (view_of backend0 pay_db 4) = Some []"
    by (simp_all add: pay_msg_def pay_db_ok)
  have evm: "depth evm0 = 0" "Precompiles evm0 4 = None" by (simp_all add: evm0_def)
  show ?thesis
    using transfer_transaction[OF pay_db_ok(1,2) msg(1-6) gas msg(7,8) evm msg(9)]
    by (auto simp: view_reads[where D = backend0] pay_msg_def evm0_def pay_db_ok)
qed

end
