(* ===== verification/Gas_Accounting.thy ===== *)
theory Gas_Accounting
  imports Transfers
begin

text \<open>
  Where the gas of a message goes, for every kind of message and whatever the code it runs does: no
  call returns more gas than it was given, so the arithmetic of the transition never wraps around and
  the gas pool of the block never overflows.
\<close>

section \<open>Calls return no more gas than they are given\<close>

definition exec_gas :: "EVM \<Rightarrow> bool" where
  "exec_gas evm \<longleftrightarrow> (\<forall>d ro c i s r g e t. exec evm d ro c i s = Some (r, g, e, t) \<longrightarrow> g \<le> c_Gas c)"

lemma vm_run_gas:
  assumes "exec_gas evm" "vm_run evm c input s = Some (r, g, e, t)"
  shows "g \<le> c_Gas c"
proof (cases "Option.bind (c_CodeAddr c) (Precompiles evm)")
  case None
  with assms(2) have run: "interpreter_Run evm c input s = Some (r, g, e, t)" by (simp add: vm_run_def)
  show ?thesis
  proof (cases "c_Code c = []")
    case False
    with run have "exec evm (depth evm + 1) (readOnly evm) c input s = Some (r, g, e, t)" by (simp add: interpreter_Run_def)
    with assms(1) show ?thesis unfolding exec_gas_def by blast
  qed (use run in \<open>simp add: interpreter_Run_def\<close>)
next
  case (Some p)
  have le: "c_Gas c - RequiredGas p input \<le> c_Gas c" if "\<not> c_Gas c < RequiredGas p input"
    using that by (simp add: word_sub_le_iff)
  obtain ret e1 where pc: "pc_Run p input = (ret, e1)" by fastforce
  have "g = (if c_Gas c < RequiredGas p input then c_Gas c else c_Gas c - RequiredGas p input)"
    using Some assms(2) pc by (simp add: vm_run_def RunPrecompiledContract_def UseGas_def split: if_splits)
  with le show ?thesis by simp
qed

lemma call_contract_gas:
  assumes "exec_gas evm" "call_contract D evm rid a c input s = Some ((r, g, e), t)"
  shows "g \<le> c_Gas c"
proof -
  obtain h s1 where h: "GetCodeHash a s = (h, s1)" by fastforce
  obtain code s2 where code: "GetCode D a s1 = (code, s2)" by fastforce
  define c1 where "c1 = SetCallCode (Some a) h (case code of None \<Rightarrow> [] | Some x \<Rightarrow> x) c"
  have run: "run_contract evm rid c1 input s2 = Some ((r, g, e), t)"
    using assms(2) by (simp add: call_contract_def h code c1_def)
  then obtain r' g' e' s' where vm: "vm_run evm c1 input s2 = Some (r', g', e', s')"
    by (auto simp: run_contract_def split: option.splits)
  from vm_run_gas[OF assms(1) vm] have "g' \<le> c_Gas c" by (simp add: c1_def SetCallCode_def)
  moreover have "g = g' \<or> g = 0" using run vm by (auto simp: run_contract_def split: option.splits if_splits)
  ultimately show ?thesis by auto
qed

lemma evm_Call_gas:
  assumes "exec_gas evm" "evm_Call D evm caller addr input gas action val args s = Some ((r, g, e), t)"
  shows "g \<le> gas"
proof -
  have "g = gas \<or> (\<exists>rid c s'. c_Gas c = gas \<and> call_contract D evm rid addr c input s' = Some ((r, g, e), t))"
    using assms(2) unfolding evm_Call_def Let_def
    by (auto simp: NewContract_def split: if_splits option.splits prod.splits)
  then show ?thesis using call_contract_gas[OF assms(1)] by auto
qed

lemma store_code_gas: "store_code D a abi ret g s = ((e, g1), t) \<Longrightarrow> g1 \<le> g"
  by (auto simp: store_code_def Let_def word_sub_le_iff not_less split: if_splits)

lemma evm_Create_gas:
  assumes "exec_gas evm" "evm_Create D evm caller code gas asst val abi s = Some ((r, a, g, e), t)"
  shows "g \<le> gas"
  using assms(2) unfolding evm_Create_def Let_def
  by (auto simp: NewContract_def SetCallCode_def split: if_splits option.splits prod.splits
      dest!: vm_run_gas[OF assms(1)] store_code_gas)

section \<open>The transition\<close>

lemma ensure_account_fields:
  "st_gas (ensure_account D a st) = st_gas st" "st_gp (ensure_account D a st) = st_gp st"
  "st_initialGas (ensure_account D a st) = st_initialGas st"
  by (simp_all add: ensure_account_def split: prod.split bool.split)

lemma buyGas_gas:
  assumes "buyGas D msg st = (e, st1)"
  shows "e = None \<Longrightarrow> unat (m_Gas msg) \<le> unat (st_gp st) \<and> st_gp st1 = st_gp st - m_Gas msg \<and>
      st_gas st1 = st_gas st + m_Gas msg \<and> st_initialGas st1 = m_Gas msg"
    "e \<noteq> None \<Longrightarrow> st_gp st1 = st_gp st"
  using assms by (auto simp: buyGas_def st_from_def ensure_account_fields Let_def SubGas_eq split: prod.splits if_splits)

lemma preCheck_gas:
  assumes "preCheck D msg st = (e, st1)"
  shows "e = None \<Longrightarrow> unat (m_Gas msg) \<le> unat (st_gp st) \<and> st_gp st1 = st_gp st - m_Gas msg \<and>
      st_gas st1 = st_gas st + m_Gas msg \<and> st_initialGas st1 = m_Gas msg"
    "e \<noteq> None \<Longrightarrow> st_gp st1 = st_gp st"
proof -
  have "(e \<noteq> None \<and> st_gp st1 = st_gp st) \<or> (\<exists>st2. st_gp st2 = st_gp st \<and> st_gas st2 = st_gas st \<and> buyGas D msg st2 = (e, st1))"
    using assms by (auto simp: preCheck_def st_from_def ensure_account_fields Let_def split: prod.splits if_splits)
  then show "e = None \<Longrightarrow> unat (m_Gas msg) \<le> unat (st_gp st) \<and> st_gp st1 = st_gp st - m_Gas msg \<and>
      st_gas st1 = st_gas st + m_Gas msg \<and> st_initialGas st1 = m_Gas msg" "e \<noteq> None \<Longrightarrow> st_gp st1 = st_gp st"
    using buyGas_gas[of D msg] by metis+
qed

lemma perform_gas:
  assumes "exec_gas evm" "perform D evm msg st = Some (r, st1)"
  shows "st_gas st1 \<le> st_gas st" "st_gp st1 = st_gp st" "st_initialGas st1 = st_initialGas st"
proof -
  have "st_gas st1 \<le> st_gas st \<and> st_gp st1 = st_gp st \<and> st_initialGas st1 = st_initialGas st"
  proof (cases "m_Action msg = ActionCreateContract \<or> m_Action msg = ActionPublishAsset")
    case True
    then show ?thesis using assms evm_Create_gas[OF assms(1)]
      by (auto simp: perform_def publishAsset_def st_from_def ensure_account_fields Let_def split: prod.splits if_splits option.splits)
  next
    case False
    obtain n s1 where get: "GetNonce (m_From msg) (st_state st) = (n, s1)" by fastforce
    obtain to st2 where to: "st_to D msg (st\<lparr>st_state := SetNonce D (m_From msg) (n + 1) s1\<rparr>) = (to, st2)" by fastforce
    then have st2: "st_gas st2 = st_gas st" "st_gp st2 = st_gp st" "st_initialGas st2 = st_initialGas st"
      by (auto simp: st_to_def ensure_account_fields split: option.splits)
    from assms(2) False get to obtain ret g e s3 where
      "evm_Call D evm (AccountRef (m_From msg)) to (m_Data msg) (st_gas st2) (m_Action msg) (m_Value msg)
         [VoteArg (m_Vote msg), AssetArg (m_Asset msg)] (st_state st2) = Some ((ret, g, e), s3)"
      "st1 = st2\<lparr>st_gas := g, st_state := s3\<rparr>" by (auto simp: perform_def)
    with evm_Call_gas[OF assms(1) this(1)] st2 show ?thesis by simp
  qed
  then show "st_gas st1 \<le> st_gas st" "st_gp st1 = st_gp st" "st_initialGas st1 = st_initialGas st" by blast+
qed

text \<open>The refund is at most half of the gas used, and the rest goes back to the pool.\<close>

lemma refundGas_gas:
  assumes "unat (st_gas st) \<le> unat (st_initialGas st)" "unat (st_gp st) + unat (st_initialGas st) < 2 ^ 64"
  shows "\<exists>st1 r. refundGas D msg st = Some st1 \<and> 2 * r \<le> unat (st_initialGas st) - unat (st_gas st) \<and>
    unat (gasUsed st1) = unat (st_initialGas st) - unat (st_gas st) - r \<and>
    unat (st_gp st1) = unat (st_gp st) + unat (st_gas st) + r"
proof -
  define used where "used = unat (st_initialGas st) - unat (st_gas st)"
  have used: "unat (gasUsed st) = used" using assms(1) by (simp add: gasUsed_def used_def unat_sub_if')
  define r where "r = (if GetRefund (st_state st) < gasUsed st div 2 then GetRefund (st_state st) else gasUsed st div 2)"
  have "unat r \<le> unat (gasUsed st div 2)" unfolding r_def by (simp add: word_less_nat_alt)
  then have r: "2 * unat r \<le> used" using used by (simp add: unat_div)
  have g: "unat (st_gas st + r) = unat (st_gas st) + unat r"
    using r assms used_def by (subst unat_add_lem[THEN iffD1]) auto
  have gp: "unat (st_gp st) + unat (st_gas st + r) < 2 ^ 64" using g r assms used_def by linarith
  have "unat (st_gp st + (st_gas st + r)) = unat (st_gp st) + unat (st_gas st) + unat r"
    using gp g by (subst unat_add_lem[THEN iffD1]) auto
  moreover have "unat (st_initialGas st - (st_gas st + r)) = used - unat r"
    using g r assms(1) used_def by (simp add: unat_sub_if')
  ultimately show ?thesis
    unfolding refundGas_def r_def[symmetric] Let_def st_from_def
    using gp r by (simp add: AddGas_eq gasUsed_def ensure_account_fields used_def[symmetric])
qed

text \<open>C29: where the gas goes. Whatever the code that a message runs does, as long as it hands back no
  more gas than it got: a message that is accepted uses at most the gas it offers and at least half of
  its intrinsic gas, and the pool of the block loses exactly what was used; a message that is refused
  reports no gas used and takes from the pool either nothing or all it offered. Returning gas to the
  pool never panics: if anything does, it is the action itself.\<close>

theorem gas_accounting:
  assumes "exec_gas evm"
  shows "case ApplyMessage D evm msg s gp of
      None \<Rightarrow> \<exists>st. perform D evm msg st = None
    | Some ((ret, used, failed, err), st) \<Rightarrow>
        if err = None then
          unat used \<le> unat (m_Gas msg) \<and> unat (m_Gas msg) \<le> unat gp \<and> unat (st_gp st) = unat gp - unat used \<and>
          (\<forall>ig. IntrinsicGas (m_Data msg) (m_Action msg) = Inr ig \<longrightarrow> unat ig \<le> 2 * unat used)
        else used = 0 \<and> (st_gp st = gp \<or> m_Gas msg \<le> gp \<and> st_gp st = gp - m_Gas msg)"
proof -
  define ig where "ig = (case IntrinsicGas (m_Data msg) (m_Action msg) of Inl _ \<Rightarrow> 0 | Inr g \<Rightarrow> g)"
  obtain e st1 where pre: "preCheck D msg (NewStateTransition s gp) = (e, st1)" by fastforce
  note g1 = preCheck_gas[OF pre]
  show ?thesis
  proof (cases e)
    case (Some err)
    with g1(2) pre show ?thesis by (simp add: ApplyMessage_def TransitionDb_def NewStateTransition_def)
  next
    case None
    define st2 where "st2 = ensure_account D (m_From msg) st1"
    have g2: "unat (m_Gas msg) \<le> unat gp" "st_gp st2 = gp - m_Gas msg" "st_gas st2 = m_Gas msg" "st_initialGas st2 = m_Gas msg"
      using g1(1)[OF None] by (simp_all add: st2_def ensure_account_fields NewStateTransition_def)
    note eq = ApplyMessage_def TransitionDb_def pre None st_from_def st2_def[symmetric] ig_def[symmetric] Let_def useGas_def
    show ?thesis
    proof (cases "m_Gas msg < ig")
      case True
      with g2 show ?thesis by (simp add: eq word_le_nat_alt)
    next
      case False
      define st3 where "st3 = st2\<lparr>st_gas := m_Gas msg - ig\<rparr>"
      note eq' = eq g2(3) False st3_def[symmetric]
      show ?thesis
      proof (cases "perform D evm msg st3")
        case None
        then show ?thesis by (auto simp: eq')
      next
        case (Some p)
        obtain r st4 where p: "p = (r, st4)" by fastforce
        note g4 = perform_gas[OF assms Some[unfolded p]]
        have g4': "unat (st_gas st4) \<le> unat (m_Gas msg) - unat ig" "st_gp st4 = gp - m_Gas msg" "st_initialGas st4 = m_Gas msg"
          using g4 g2 False by (simp_all add: st3_def word_le_nat_alt unat_sub_if' word_less_nat_alt)
        then have "unat (st_gas st4) \<le> unat (st_initialGas st4)" "unat (st_gp st4) + unat (st_initialGas st4) < 2 ^ 64"
          using g2(1) unat_bound[of gp] by (simp_all add: unat_sub_if')
        from refundGas_gas[OF this, of D msg] obtain st5 r5 where st5: "refundGas D msg st4 = Some st5"
          "2 * r5 \<le> unat (m_Gas msg) - unat (st_gas st4)" "unat (gasUsed st5) = unat (m_Gas msg) - unat (st_gas st4) - r5"
          "unat (st_gp st5) = unat (st_gp st4) + unat (st_gas st4) + r5"
          unfolding g4'(3) by blast
        have gp5: "unat (st_gp st5) = unat gp - unat (gasUsed st5)" "unat (gasUsed st5) \<le> unat (m_Gas msg)"
          "unat ig \<le> 2 * unat (gasUsed st5)"
          using st5(2-4) g4'(1,2) g2(1) False by (auto simp: unat_sub_if' word_less_nat_alt)
        have ig: "IntrinsicGas (m_Data msg) (m_Action msg) = Inr x \<Longrightarrow> x = ig" for x by (simp add: ig_def)
        show ?thesis
          using gp5 g2(1) g4'(2) ig st5(1) Some p
          by (cases r) (auto simp: eq' word_le_nat_alt split: if_splits)
      qed
    qed
  qed
qed

definition call_msg :: Message where
  "call_msg = pay_msg\<lparr>m_To := Some 9, m_Action := ActionCallContract\<rparr>"

text \<open>A call of a contract that runs out of gas: the message is accepted and pays for all its gas.\<close>

theorem gas_accounting_witness:
  "\<exists>ret st. ApplyMessage backend0 evm0 call_msg (SetCode backend0 9 [1, 2] pay_db) 90000 = Some ((ret, 30000, True, None), st) \<and>
     unat (st_gp st) = 60000"
proof -
  have "exec_gas evm0" by (auto simp: exec_gas_def evm0_def)
  note acc = gas_accounting[OF this, where D = backend0 and msg = call_msg and s = "SetCode backend0 9 [1, 2] pay_db" and gp = 90000]
  have "case ApplyMessage backend0 evm0 call_msg (SetCode backend0 9 [1, 2] pay_db) 90000 of
      None \<Rightarrow> False | Some ((ret, used, failed, err), st) \<Rightarrow> used = 30000 \<and> failed \<and> err = None" by code_simp
  with acc show ?thesis by (auto split: option.splits)
qed

end
