(* ===== verification/Log_Bloom.thy ===== *)
theory Log_Bloom
  imports Addresses Snapshots
begin

text \<open>
  The bloom filter of a block, \<open>core/types/bloom9.go\<close>, and the filters over logs of
  \<open>aoa/filters/filter.go\<close>. A \<open>big.Int\<close> that is never negative is a natural number here. The theory
  shows that the bloom of a block never hides a log that a filter is looking for.
\<close>

unbundle bit_operations_syntax

section \<open>Bloom filters\<close>

type_synonym Bloom = "byte list"

definition BloomByteLength :: nat where "BloomByteLength = 256"
definition BloomBitLength :: nat where "BloomBitLength = 8 * BloomByteLength"

text \<open>\<open>big.Int.Bytes\<close>: the big-endian bytes without leading zeros.\<close>

fun big_Bytes :: "nat \<Rightarrow> byte list" where
  "big_Bytes n = (if n = 0 then [] else big_Bytes (n div 256) @ [of_nat (n mod 256)])"

declare big_Bytes.simps [simp del]

text \<open>\<open>SetBytes\<close> panics on a slice that is too long.\<close>

definition bloom_SetBytes :: "byte list \<Rightarrow> Bloom \<Rightarrow> Bloom option" where
  "bloom_SetBytes d b =
     (if length b < length d then None else Some (take (BloomByteLength - length d) b @ d))"

definition BytesToBloom :: "byte list \<Rightarrow> Bloom option" where
  "BytesToBloom b = bloom_SetBytes b (replicate BloomByteLength 0)"

definition bloom_Big :: "Bloom \<Rightarrow> nat" where
  "bloom_Big b = be_val b"

definition hash_Bytes :: "hash \<Rightarrow> byte list" where
  "hash_Bytes h = be_bytes 32 (unat h)"

text \<open>Three bits, each from two bytes of the digest.\<close>

definition bloom9_bit :: "byte list \<Rightarrow> nat \<Rightarrow> nat" where
  "bloom9_bit b i = (unat (b ! (i + 1)) + push_bit 8 (unat (b ! i))) AND 2047"

definition bloom9 :: "backend \<Rightarrow> byte list \<Rightarrow> nat" where
  "bloom9 D b =
     (let h = hash_Bytes (keccak256 D b) in
      foldl (\<lambda>r i. r OR push_bit (bloom9_bit h i) 1) 0 [0, 2, 4])"

definition LogsBloom :: "backend \<Rightarrow> Log list \<Rightarrow> nat" where
  "LogsBloom D ls =
     foldl (\<lambda>bin l. foldl (\<lambda>bin t. bin OR bloom9 D (hash_Bytes t)) (bin OR bloom9 D (address_Bytes (log_Address l))) (log_Topics l))
       0 ls"

record Receipt =
  PostState :: "byte list"
  Status :: nat
  CumulativeGasUsed :: uint64
  r_Bloom :: Bloom
  Logs :: "Log list"
  r_TxHash :: hash
  ContractAddress :: address
  GasUsed :: uint64
  r_Action :: uint64

definition CreateBloom :: "backend \<Rightarrow> Receipt list \<Rightarrow> Bloom option" where
  "CreateBloom D receipts = BytesToBloom (big_Bytes (foldl (\<lambda>bin r. bin OR LogsBloom D (Logs r)) 0 receipts))"

definition BloomLookup :: "backend \<Rightarrow> Bloom \<Rightarrow> byte list \<Rightarrow> bool" where
  "BloomLookup D bin topic = (let cmp = bloom9 D topic in bloom_Big bin AND cmp = cmp)"

definition bloom_Add :: "backend \<Rightarrow> nat \<Rightarrow> Bloom \<Rightarrow> Bloom option" where
  "bloom_Add D d b = bloom_SetBytes (big_Bytes (bloom_Big b OR bloom9 D (big_Bytes d))) b"

definition bloom_Test :: "backend \<Rightarrow> Bloom \<Rightarrow> nat \<Rightarrow> bool" where
  "bloom_Test D b test = BloomLookup D b (big_Bytes test)"

section \<open>Filters\<close>

fun includes_address :: "address list \<Rightarrow> address \<Rightarrow> bool" where
  "includes_address [] a = False"
| "includes_address (x # xs) a = (if x = a then True else includes_address xs a)"

text \<open>The rules of a filter are positional: rule \<open>i\<close> lists the topics allowed at position \<open>i\<close>.\<close>

fun topics_match :: "hash list list \<Rightarrow> hash list \<Rightarrow> bool" where
  "topics_match [] ts = True"
| "topics_match (rule # rules) (t # ts) = ((rule = [] \<or> t \<in> set rule) \<and> topics_match rules ts)"
| "topics_match (rule # rules) [] = False"

text \<open>One round of the loop of \<open>filterLogs\<close>. The bounds are \<open>big.Int\<close>s, read through \<open>int64\<close> and
  \<open>uint64\<close>.\<close>

definition log_matches :: "int option \<Rightarrow> int option \<Rightarrow> address list \<Rightarrow> hash list list \<Rightarrow> Log \<Rightarrow> bool" where
  "log_matches fromBlock toBlock addresses topics l =
     (if (case fromBlock of None \<Rightarrow> False
          | Some f \<Rightarrow> 0 \<le> sint (of_int f :: uint64) \<and> log_BlockNumber l < of_int f) then False
      else if (case toBlock of None \<Rightarrow> False
          | Some t \<Rightarrow> 0 \<le> sint (of_int t :: uint64) \<and> of_int t < log_BlockNumber l) then False
      else if addresses \<noteq> [] \<and> \<not> includes_address addresses (log_Address l) then False
      else if length (log_Topics l) < length topics then False
      else topics_match topics (log_Topics l))"

definition filterLogs :: "Log list \<Rightarrow> int option \<Rightarrow> int option \<Rightarrow> address list \<Rightarrow> hash list list \<Rightarrow> Log list" where
  "filterLogs ls fromBlock toBlock addresses topics = filter (log_matches fromBlock toBlock addresses topics) ls"

definition bloomFilter :: "backend \<Rightarrow> Bloom \<Rightarrow> address list \<Rightarrow> hash list list \<Rightarrow> bool" where
  "bloomFilter D bloom addresses topics =
     (if addresses \<noteq> [] \<and> \<not> list_ex (\<lambda>a. BloomLookup D bloom (address_Bytes a)) addresses then False
      else list_all (\<lambda>sub. sub = [] \<or> list_ex (\<lambda>t. BloomLookup D bloom (hash_Bytes t)) sub) topics)"

section \<open>Searching without an index\<close>

record fheader =
  fh_Hash :: hash
  fh_Bloom :: Bloom

text \<open>What the node serves to a filter: headers by number, with whether there was an error, and the receipts of a block.\<close>

record filter_backend =
  HeaderByNumber :: "int \<Rightarrow> fheader option \<times> bool"
  LatestNumber :: "nat option"
  GetReceipts :: "hash \<Rightarrow> Receipt list option"
  BloomStatus :: "nat \<times> nat"

definition checkMatches :: "filter_backend \<Rightarrow> address list \<Rightarrow> hash list list \<Rightarrow> fheader \<Rightarrow> Log list option" where
  "checkMatches fb addresses topics header =
     map_option (\<lambda>receipts. filterLogs (concat (map Logs receipts)) None None addresses topics) (GetReceipts fb (fh_Hash header))"

text \<open>The loop of \<open>unindexedLogs\<close>: the logs, whether it ended with an error, and the new beginning. Block numbers are
  below \<open>2 ^ 63 - 1\<close>, so that the counter does not wrap around.\<close>

function unindexedLogs ::
  "backend \<Rightarrow> filter_backend \<Rightarrow> address list \<Rightarrow> hash list list \<Rightarrow> int \<Rightarrow> int \<Rightarrow> Log list \<Rightarrow> Log list \<times> bool \<times> int" where
  "unindexedLogs D fb addresses topics bgn nd acc =
     (if nd < bgn then (acc, False, bgn)
      else case HeaderByNumber fb bgn of
        (None, err) \<Rightarrow> (acc, err, bgn)
      | (Some header, err) \<Rightarrow>
          if err then (acc, err, bgn)
          else if bloomFilter D (fh_Bloom header) addresses topics then
            (case checkMatches fb addresses topics header of
               None \<Rightarrow> (acc, True, bgn)
             | Some found \<Rightarrow> unindexedLogs D fb addresses topics (bgn + 1) nd (acc @ found))
          else unindexedLogs D fb addresses topics (bgn + 1) nd acc)"
  by pat_completeness auto
termination
  by (relation "measure (\<lambda>(D, fb, as, ts, b, e, acc). nat (e + 1 - b))") auto

declare unindexedLogs.simps [simp del]

section \<open>Bits\<close>

lemma bit_foldl_or:
  "bit (foldl (\<lambda>bin x. bin OR f x) (b :: nat) xs) n \<longleftrightarrow> bit b n \<or> (\<exists>x\<in>set xs. bit (f x) n)"
  by (induction xs arbitrary: b) (auto simp: bit_or_iff)

lemma bloom9_bits: "bit (bloom9 D b) n \<longleftrightarrow> (\<exists>i\<in>{0, 2, 4}. n = bloom9_bit (hash_Bytes (keccak256 D b)) i)"
  by (auto simp: bloom9_def Let_def bit_or_iff bit_exp_iff)

lemma bloom9_bit_bound: "bloom9_bit b i < 2048"
proof -
  have "(x :: nat) AND 2047 = take_bit 11 x" for x by (simp add: take_bit_eq_mask mask_eq_exp_minus_1)
  then show ?thesis using take_bit_nat_less_exp[of 11] by (simp add: bloom9_bit_def)
qed

lemma nat_bits_bound: "(\<And>n. bit (x :: nat) n \<Longrightarrow> n < k) \<Longrightarrow> x < 2 ^ k"
proof -
  assume "\<And>n. bit x n \<Longrightarrow> n < k"
  then have "take_bit k x = x" by (auto simp: bit_eq_iff bit_take_bit_iff)
  then show ?thesis using take_bit_nat_less_exp[of k x] by simp
qed

lemma LogsBloom_bits:
  "bit (LogsBloom D ls) n \<longleftrightarrow> (\<exists>l\<in>set ls. bit (bloom9 D (address_Bytes (log_Address l))) n \<or>
     (\<exists>t\<in>set (log_Topics l). bit (bloom9 D (hash_Bytes t)) n))"
proof -
  have "bit (foldl (\<lambda>bin l. foldl (\<lambda>bin t. bin OR bloom9 D (hash_Bytes t)) (bin OR bloom9 D (address_Bytes (log_Address l))) (log_Topics l)) b ls) n
     \<longleftrightarrow> bit b n \<or> (\<exists>l\<in>set ls. bit (bloom9 D (address_Bytes (log_Address l))) n \<or>
     (\<exists>t\<in>set (log_Topics l). bit (bloom9 D (hash_Bytes t)) n))" for b
    by (induction ls arbitrary: b) (auto simp: bit_foldl_or bit_or_iff)
  from this[of 0] show ?thesis by (simp add: LogsBloom_def)
qed

lemma big_Bytes_val: "be_val (big_Bytes n) = n"
proof (induction n rule: big_Bytes.induct)
  case (1 n)
  show ?case
  proof (cases "n = 0")
    case True
    then show ?thesis by (subst big_Bytes.simps) (simp add: be_val_def)
  next
    case False
    have "unat (of_nat (n mod 256) :: byte) = n mod 256" by (simp add: unat_of_nat)
    with False 1 show ?thesis by (subst big_Bytes.simps) (simp add: be_val_append)
  qed
qed

lemma big_Bytes_length: "n < 256 ^ k \<Longrightarrow> length (big_Bytes n) \<le> k"
proof (induction k arbitrary: n)
  case 0
  then show ?case by (subst big_Bytes.simps) simp
next
  case (Suc k)
  then have "n div 256 < 256 ^ k" by (simp add: less_mult_imp_div_less mult.commute)
  from Suc.IH[OF this] show ?case by (subst big_Bytes.simps) simp
qed

lemma be_val_zeros: "be_val (replicate k 0 @ b) = be_val b"
  by (induction k) (simp_all add: be_val_Cons)

text \<open>A bloom that fits is stored as it is.\<close>

lemma BytesToBloom_ok:
  assumes "n < 2 ^ 2048"
  shows "\<exists>b. BytesToBloom (big_Bytes n) = Some b \<and> length b = 256 \<and> bloom_Big b = n"
proof -
  have "n < 256 ^ 256" using assms power_mult[of "2 :: nat" 8 256] by simp
  then have l: "length (big_Bytes n) \<le> 256" by (rule big_Bytes_length)
  have "BytesToBloom (big_Bytes n) = Some (replicate (256 - length (big_Bytes n)) 0 @ big_Bytes n)"
    using l by (simp add: BytesToBloom_def bloom_SetBytes_def BloomByteLength_def take_replicate)
  then show ?thesis using l by (simp add: bloom_Big_def be_val_zeros big_Bytes_val)
qed

lemma CreateBloom_bits:
  "\<exists>b. CreateBloom D rs = Some b \<and> length b = 256 \<and> (\<forall>n. bit (bloom_Big b) n \<longleftrightarrow> (\<exists>r\<in>set rs. bit (LogsBloom D (Logs r)) n))"
proof -
  let ?x = "foldl (\<lambda>bin r. bin OR LogsBloom D (Logs r)) 0 rs"
  have b: "bit ?x n \<longleftrightarrow> (\<exists>r\<in>set rs. bit (LogsBloom D (Logs r)) n)" for n by (simp add: bit_foldl_or)
  have "?x < 2 ^ 2048"
    by (rule nat_bits_bound) (auto simp: b LogsBloom_bits bloom9_bits bloom9_bit_bound)
  from BytesToBloom_ok[OF this] show ?thesis using b by (auto simp: CreateBloom_def)
qed

lemma BloomLookup_bits: "BloomLookup D b t \<longleftrightarrow> (\<forall>n. bit (bloom9 D t) n \<longrightarrow> bit (bloom_Big b) n)"
  by (auto simp: BloomLookup_def Let_def bit_eq_iff bit_and_iff)

section \<open>Properties\<close>

lemma includes_address_set: "includes_address xs a \<longleftrightarrow> a \<in> set xs"
  by (induction xs) auto

lemma topics_match_nth:
  "topics_match rules ts \<Longrightarrow> rule \<in> set rules \<Longrightarrow> rule = [] \<or> (\<exists>t\<in>set rule. t \<in> set ts)"
  by (induction rules ts rule: topics_match.induct) auto

lemma lookup_log:
  assumes "CreateBloom D rs = Some b" "r \<in> set rs" "l \<in> set (Logs r)"
  shows "BloomLookup D b (address_Bytes (log_Address l))" "t \<in> set (log_Topics l) \<Longrightarrow> BloomLookup D b (hash_Bytes t)"
proof -
  have b: "bit (bloom_Big b) n \<longleftrightarrow> (\<exists>r\<in>set rs. bit (LogsBloom D (Logs r)) n)" for n
    using CreateBloom_bits[of D rs] assms(1) by auto
  show "BloomLookup D b (address_Bytes (log_Address l))" "t \<in> set (log_Topics l) \<Longrightarrow> BloomLookup D b (hash_Bytes t)"
    using assms(2,3) by (auto simp: BloomLookup_bits b LogsBloom_bits)
qed

text \<open>A log that a filter selects is seen by the bloom of its block.\<close>

lemma bloom_sees_log:
  assumes "CreateBloom D rs = Some b" "r \<in> set rs" "l \<in> set (Logs r)" "log_matches f t as ts l"
  shows "bloomFilter D b as ts"
proof -
  note look = lookup_log[OF assms(1-3)]
  have "as = [] \<or> log_Address l \<in> set as" "topics_match ts (log_Topics l)"
    using assms(4) by (auto simp: log_matches_def includes_address_set split: if_splits)
  then show ?thesis
    using look topics_match_nth[of ts "log_Topics l"] by (fastforce simp: bloomFilter_def list_ex_iff list_all_iff)
qed

text \<open>C30: a search through the blocks finds every log that matches. If the header of every block from
  \<open>b\<close> to \<open>e\<close> carries the bloom of its receipts, skipping the blocks whose bloom does not match loses
  nothing: the result is that of filtering the logs of all the blocks in order, and the search then
  stands right after the last block.\<close>

theorem log_search_complete:
  assumes "\<forall>k. b \<le> k \<and> k \<le> e \<longrightarrow> HeaderByNumber fb k = (Some (h k), False) \<and> GetReceipts fb (fh_Hash (h k)) = Some (rs k) \<and>
      CreateBloom D (rs k) = Some (fh_Bloom (h k))"
  shows "unindexedLogs D fb as ts b e acc =
    (acc @ concat (map (\<lambda>k. filterLogs (concat (map Logs (rs k))) None None as ts) [b..e]), False, max b (e + 1))"
  using assms
proof (induction "nat (e + 1 - b)" arbitrary: b acc)
  case 0
  then show ?case by (subst unindexedLogs.simps) simp
next
  case (Suc n)
  then have le: "b \<le> e" and hb: "HeaderByNumber fb b = (Some (h b), False)" "GetReceipts fb (fh_Hash (h b)) = Some (rs b)"
    "CreateBloom D (rs b) = Some (fh_Bloom (h b))" by auto
  have "n = nat (e + 1 - (b + 1))" using Suc.hyps(2) by simp
  note IH = Suc.hyps(1)[OF this]
  have rest: "\<forall>k. b + 1 \<le> k \<and> k \<le> e \<longrightarrow> HeaderByNumber fb k = (Some (h k), False) \<and> GetReceipts fb (fh_Hash (h k)) = Some (rs k) \<and>
      CreateBloom D (rs k) = Some (fh_Bloom (h k))" using Suc.prems by auto
  let ?found = "filterLogs (concat (map Logs (rs b))) None None as ts"
  have skip: "\<not> bloomFilter D (fh_Bloom (h b)) as ts \<Longrightarrow> ?found = []"
    using bloom_sees_log[OF hb(3)] by (auto simp: filterLogs_def filter_empty_conv)
  have m: "max (b + 1) (e + 1) = max b (e + 1)" and up: "[b..e] = b # [b + 1..e]" using le by (simp_all add: upto_rec1)
  have "unindexedLogs D fb as ts b e acc = unindexedLogs D fb as ts (b + 1) e (acc @ ?found)"
    using le hb skip by (subst unindexedLogs.simps) (simp add: checkMatches_def)
  then show ?case unfolding IH[OF rest] m up by simp
qed

text \<open>A chain whose only block has one log.\<close>

definition log0 :: Log where
  "log0 = \<lparr>log_Address = 9, log_Topics = [5], log_Data = [], log_BlockNumber = 0, log_TxHash = 0, log_TxIndex = 0,
     log_BlockHash = 0, log_Index = 0\<rparr>"

definition receipt0 :: Receipt where
  "receipt0 = \<lparr>PostState = [], Status = 1, CumulativeGasUsed = 0, r_Bloom = [], Logs = [log0], r_TxHash = 0,
     ContractAddress = 0, GasUsed = 0, r_Action = 0\<rparr>"

definition chain0 :: "Bloom \<Rightarrow> filter_backend" where
  "chain0 b = \<lparr>HeaderByNumber = (\<lambda>k. (if k = 0 then Some \<lparr>fh_Hash = 1, fh_Bloom = b\<rparr> else None, False)), LatestNumber = Some 0,
     GetReceipts = (\<lambda>h. if h = 1 then Some [receipt0] else None), BloomStatus = (4096, 0)\<rparr>"

theorem log_search_complete_witness:
  "\<exists>b. CreateBloom backend0 [receipt0] = Some b \<and>
     unindexedLogs backend0 (chain0 b) [9] [[5]] 0 0 [] = ([log0], False, 1) \<and>
     unindexedLogs backend0 (chain0 b) [8] [] 0 0 [] = ([], False, 1)"
proof -
  obtain b where b: "CreateBloom backend0 [receipt0] = Some b" using CreateBloom_bits by blast
  have "unindexedLogs backend0 (chain0 b) as ts 0 0 [] = ([] @ concat (map (\<lambda>k. filterLogs (concat (map Logs [receipt0])) None None as ts) [0..0]), False, max 0 (0 + 1))" for as ts
    by (rule log_search_complete[where h = "\<lambda>k. \<lparr>fh_Hash = 1, fh_Bloom = b\<rparr>"]) (auto simp: chain0_def b)
  then show ?thesis using b by (auto simp: filterLogs_def log_matches_def receipt0_def log0_def)
qed

end
