(* ===== verification/Bloom_Bits.thy ===== *)
theory Bloom_Bits
  imports Log_Bloom
begin

text \<open>
  The index of blooms of \<open>core/bloombits\<close>: the generator that rotates the blooms of a section of blocks
  into one bit vector per bloom bit, and the matcher that combines the vectors, as the pipeline of
  \<open>Matcher.run\<close> computes them for one section. Schedulers, retrieval and sessions move the vectors
  between goroutines and are represented by the function that delivers the vector of a bit.
  Block numbers are natural numbers: no loop comes near the end of \<open>uint64\<close>.
\<close>

section \<open>The generator\<close>

record Generator =
  gen_blooms :: "byte list list"
  gen_sections :: nat
  gen_nextBit :: nat

datatype gen_error = errSectionOutOfBounds | UnexpectedIndex | NotFullyGenerated | NotMultipleOf8

definition NewGenerator :: "nat \<Rightarrow> gen_error + Generator" where
  "NewGenerator sections =
     (if sections mod 8 \<noteq> 0 then Inl NotMultipleOf8
      else Inr \<lparr>gen_blooms = replicate BloomBitLength (replicate (sections div 8) 0), gen_sections = sections, gen_nextBit = 0\<rparr>)"

text \<open>Bit \<open>i\<close> of the bloom goes to the row \<open>i\<close>.\<close>

definition rotate_bit :: "Bloom \<Rightarrow> nat \<Rightarrow> nat \<Rightarrow> byte list \<Rightarrow> byte list" where
  "rotate_bit bloom nextBit i row =
     (let byteIndex = nextBit div 8;
          bitMask = push_bit (7 - nextBit mod 8) 1 :: byte;
          bloomByteIndex = BloomByteLength - 1 - i div 8;
          bloomBitMask = push_bit (i mod 8) 1 :: byte in
      if (bloom ! bloomByteIndex) AND bloomBitMask \<noteq> 0 then row[byteIndex := (row ! byteIndex) OR bitMask] else row)"

definition AddBloom :: "nat \<Rightarrow> Bloom \<Rightarrow> Generator \<Rightarrow> gen_error + Generator" where
  "AddBloom index bloom g =
     (if gen_sections g \<le> gen_nextBit g then Inl errSectionOutOfBounds
      else if gen_nextBit g \<noteq> index then Inl UnexpectedIndex
      else Inr (g\<lparr>gen_blooms := map (\<lambda>i. rotate_bit bloom (gen_nextBit g) i (gen_blooms g ! i)) [0..<BloomBitLength],
                  gen_nextBit := gen_nextBit g + 1\<rparr>))"

definition Bitset :: "nat \<Rightarrow> Generator \<Rightarrow> gen_error + byte list" where
  "Bitset idx g =
     (if gen_nextBit g \<noteq> gen_sections g then Inl NotFullyGenerated
      else if gen_sections g \<le> idx then Inl errSectionOutOfBounds
      else Inr (gen_blooms g ! idx))"

text \<open>\<open>BloomIndexer.Process\<close> adds the blooms of a section one by one; it does not look at the error.\<close>

fun add_blooms :: "nat \<Rightarrow> Bloom list \<Rightarrow> Generator \<Rightarrow> gen_error + Generator" where
  "add_blooms i [] g = Inr g"
| "add_blooms i (b # bs) g = (case AddBloom i b g of Inl e \<Rightarrow> Inl e | Inr g1 \<Rightarrow> add_blooms (i + 1) bs g1)"

section \<open>The matcher\<close>

definition calcBloomIndexes :: "backend \<Rightarrow> byte list \<Rightarrow> nat list" where
  "calcBloomIndexes D b =
     (let h = hash_Bytes (keccak256 D b) in
      map (\<lambda>i. (push_bit 8 (unat (h ! (2 * i))) AND 2047) + unat (h ! (2 * i + 1))) [0, 1, 2])"

text \<open>\<open>NewMatcher\<close>: a rule without clauses or with a nil clause is dropped.\<close>

definition NewMatcher :: "backend \<Rightarrow> byte list option list list \<Rightarrow> nat list list list" where
  "NewMatcher D filters =
     concat (map (\<lambda>f. if f = [] \<or> None \<in> set f then [] else [map (\<lambda>c. calcBloomIndexes D (the c)) f]) filters)"

text \<open>The filters that \<open>filters.New\<close> makes of addresses and topics.\<close>

definition filter_clauses :: "address list \<Rightarrow> hash list list \<Rightarrow> byte list option list list" where
  "filter_clauses addresses topics =
     (if addresses \<noteq> [] then [map (\<lambda>a. Some (address_Bytes a)) addresses] else []) @
     map (map (\<lambda>t. Some (hash_Bytes t))) topics"

text \<open>The byte-wise operations of \<open>common/bitutil\<close>, with the destination they overwrite.\<close>

definition ANDBytes :: "byte list \<Rightarrow> byte list \<Rightarrow> byte list \<Rightarrow> byte list" where
  "ANDBytes dst a b = map2 (AND) a b @ drop (min (length a) (length b)) dst"

definition ORBytes :: "byte list \<Rightarrow> byte list \<Rightarrow> byte list \<Rightarrow> byte list" where
  "ORBytes dst a b = map2 (OR) a b @ drop (min (length a) (length b)) dst"

definition TestBytes :: "byte list \<Rightarrow> bool" where
  "TestBytes p = list_ex (\<lambda>b. b \<noteq> 0) p"

text \<open>A new vector of the size of a section with the data copied into it.\<close>

definition copy_vector :: "nat \<Rightarrow> byte list \<Rightarrow> byte list" where
  "copy_vector n d = take n d @ replicate (n - length d) 0"

fun and_vectors :: "nat \<Rightarrow> (nat \<Rightarrow> byte list) \<Rightarrow> nat list \<Rightarrow> byte list option \<Rightarrow> byte list option" where
  "and_vectors sz vec [] v = v"
| "and_vectors sz vec (b # bs) v =
     and_vectors sz vec bs
       (case v of None \<Rightarrow> Some (copy_vector (sz div 8) (vec b)) | Some x \<Rightarrow> Some (ANDBytes x x (vec b)))"

fun or_vectors :: "nat \<Rightarrow> (nat \<Rightarrow> byte list) \<Rightarrow> nat list list \<Rightarrow> byte list option \<Rightarrow> byte list option" where
  "or_vectors sz vec [] v = v"
| "or_vectors sz vec (ix # ixs) v =
     (let a = and_vectors sz vec ix None in
      or_vectors sz vec ixs
        (case v of None \<Rightarrow> a | Some x \<Rightarrow> Some (ORBytes x x (case a of None \<Rightarrow> [] | Some y \<Rightarrow> y))))"

text \<open>One round of \<open>subMatch\<close>: \<open>None\<close> when no block of the section is left.\<close>

definition subMatch :: "nat \<Rightarrow> (nat \<Rightarrow> byte list) \<Rightarrow> nat list list \<Rightarrow> byte list \<Rightarrow> byte list option" where
  "subMatch sz vec bloom bitset =
     (let orVector = (case or_vectors sz vec bloom None of None \<Rightarrow> replicate (sz div 8) 0 | Some x \<Rightarrow> x);
          res = ANDBytes orVector orVector bitset in
      if TestBytes res then Some res else None)"

fun run_filters :: "nat \<Rightarrow> (nat \<Rightarrow> byte list) \<Rightarrow> nat list list list \<Rightarrow> byte list \<Rightarrow> byte list option" where
  "run_filters sz vec [] bitset = Some bitset"
| "run_filters sz vec (f # fs) bitset =
     (case subMatch sz vec f bitset of None \<Rightarrow> None | Some b \<Rightarrow> run_filters sz vec fs b)"

text \<open>The loop of \<open>Start\<close> over the blocks of a section; it skips a byte without matches.\<close>

function emit :: "byte list \<Rightarrow> nat \<Rightarrow> nat \<Rightarrow> nat \<Rightarrow> nat list" where
  "emit bitset start i lst =
     (if lst < i then []
      else
        (let nxt = bitset ! ((i - start) div 8) in
         if nxt = 0 then emit bitset start ((if i mod 8 = 0 then i + 7 else i) + 1) lst
         else (if nxt AND push_bit (7 - i mod 8) 1 \<noteq> 0 then [i] else []) @ emit bitset start (i + 1) lst))"
  by pat_completeness auto
termination
  by (relation "measure (\<lambda>(b, s, i, l). Suc l - i)") auto

declare emit.simps [simp del]

definition section_matches :: "nat \<Rightarrow> (nat \<Rightarrow> byte list) \<Rightarrow> nat list list list \<Rightarrow> nat \<Rightarrow> nat \<Rightarrow> nat \<Rightarrow> nat list" where
  "section_matches sz vec filters sec bgn nd =
     (case run_filters sz vec filters (replicate (sz div 8) 255) of
        None \<Rightarrow> []
      | Some bitset \<Rightarrow>
          (let start = sec * sz in
           emit bitset start (if start < bgn then bgn else start) (if nd < start + sz - 1 then nd else start + sz - 1)))"

section \<open>Bit vectors\<close>

text \<open>Bit \<open>j\<close> of a vector, the highest bit of a byte first.\<close>

definition vbit :: "byte list \<Rightarrow> nat \<Rightarrow> bool" where
  "vbit v j \<longleftrightarrow> j < 8 * length v \<and> bit (v ! (j div 8)) (7 - j mod 8)"

lemma div8_less: "j < 8 * n \<longleftrightarrow> j div 8 < (n :: nat)"
  by (simp add: less_mult_imp_div_less mult.commute) linarith

lemma vbit_and: "length a = length b \<Longrightarrow> vbit (ANDBytes x a b) j \<longleftrightarrow> vbit a j \<and> vbit b j" if "length x = length a"
  using that by (auto simp: vbit_def ANDBytes_def div8_less bit_and_iff)

lemma vbit_or: "length a = length b \<Longrightarrow> vbit (ORBytes x a b) j \<longleftrightarrow> vbit a j \<or> vbit b j" if "length x = length a"
  using that by (auto simp: vbit_def ORBytes_def div8_less bit_or_iff)

lemma vbit_zeros: "\<not> vbit (replicate n 0) j"
  by (auto simp: vbit_def div8_less)

lemma bit_255: "k < 8 \<Longrightarrow> bit (255 :: byte) k"
proof -
  have m: "(255 :: byte) = mask 8" by (simp add: mask_eq_exp_minus_1)
  show "k < 8 \<Longrightarrow> bit (255 :: byte) k" unfolding m bit_mask_iff possible_bit_def by simp
qed

lemma vbit_ones: "vbit (replicate n 255) j \<longleftrightarrow> j < 8 * n"
proof -
  have "7 - j mod 8 < 8" by simp
  from bit_255[OF this] show ?thesis by (simp only: vbit_def div8_less length_replicate) (metis nth_replicate)
qed

lemma TestBytes_vbit: "TestBytes v \<longleftrightarrow> (\<exists>j. vbit v j)"
proof
  assume "TestBytes v"
  then obtain k where k: "k < length v" "v ! k \<noteq> 0" by (auto simp: TestBytes_def list_ex_iff in_set_conv_nth)
  then obtain m where m: "bit (v ! k) m" by (metis bit_eqI bit_0_eq bot_apply bot_bool_def)
  define q where "q = 7 - m"
  have "m < 8" using bit_imp_le_length[OF m] by simp
  then have q: "m = 7 - q" "q < 8" by (simp_all add: q_def)
  then have "vbit v (8 * k + q)" using k m by (simp add: vbit_def)
  then show "\<exists>j. vbit v j" ..
next
  assume "\<exists>j. vbit v j"
  then obtain j where "j div 8 < length v" "bit (v ! (j div 8)) (7 - j mod 8)" by (auto simp: vbit_def div8_less)
  then show "TestBytes v" by (auto simp: TestBytes_def list_ex_iff intro!: bexI[of _ "v ! (j div 8)"])
qed

lemma copy_vector_same: "length d = n \<Longrightarrow> copy_vector n d = d"
  by (simp add: copy_vector_def)

lemma length_ops [simp]:
  "length x = length a \<Longrightarrow> length a = length b \<Longrightarrow> length (ANDBytes x a b) = length a"
  "length x = length a \<Longrightarrow> length a = length b \<Longrightarrow> length (ORBytes x a b) = length a"
  by (simp_all add: ANDBytes_def ORBytes_def)

section \<open>What the matcher computes\<close>

lemma and_vectors_bits:
  assumes "\<forall>b\<in>set bs. length (vec b) = sz div 8" "\<forall>x. v = Some x \<longrightarrow> length x = sz div 8" "v \<noteq> None \<or> bs \<noteq> []"
  shows "\<exists>r. and_vectors sz vec bs v = Some r \<and> length r = sz div 8 \<and>
    (\<forall>j. vbit r j \<longleftrightarrow> (\<forall>x. v = Some x \<longrightarrow> vbit x j) \<and> (\<forall>b\<in>set bs. vbit (vec b) j))"
  using assms
proof (induction bs arbitrary: v)
  case (Cons b bs)
  define w where "w = (case v of None \<Rightarrow> copy_vector (sz div 8) (vec b) | Some x \<Rightarrow> ANDBytes x x (vec b))"
  have w: "length w = sz div 8" "vbit w j \<longleftrightarrow> (\<forall>x. v = Some x \<longrightarrow> vbit x j) \<and> vbit (vec b) j" for j
    using Cons.prems(1,2) by (cases v; simp add: w_def copy_vector_same vbit_and)+
  have "and_vectors sz vec (b # bs) v = and_vectors sz vec bs (Some w)" by (simp add: w_def split: option.split)
  moreover obtain r where "and_vectors sz vec bs (Some w) = Some r" "length r = sz div 8"
    "\<And>j. vbit r j \<longleftrightarrow> vbit w j \<and> (\<forall>b\<in>set bs. vbit (vec b) j)"
    using Cons.IH[of "Some w"] Cons.prems(1) w(1) by auto
  ultimately show ?case using w(2) by (intro exI[of _ r]) auto
qed auto

lemma or_vectors_bits:
  assumes "\<forall>ix\<in>set ixs. ix \<noteq> [] \<and> (\<forall>b\<in>set ix. length (vec b) = sz div 8)" "\<forall>x. v = Some x \<longrightarrow> length x = sz div 8" "v \<noteq> None \<or> ixs \<noteq> []"
  shows "\<exists>r. or_vectors sz vec ixs v = Some r \<and> length r = sz div 8 \<and>
    (\<forall>j. vbit r j \<longleftrightarrow> (\<exists>x. v = Some x \<and> vbit x j) \<or> (\<exists>ix\<in>set ixs. \<forall>b\<in>set ix. vbit (vec b) j))"
  using assms
proof (induction ixs arbitrary: v)
  case (Cons ix ixs)
  then obtain a where a: "and_vectors sz vec ix None = Some a" "length a = sz div 8" "\<And>j. vbit a j \<longleftrightarrow> (\<forall>b\<in>set ix. vbit (vec b) j)"
    using and_vectors_bits[of ix vec sz None] by auto
  define w where "w = (case v of None \<Rightarrow> a | Some x \<Rightarrow> ORBytes x x a)"
  have w: "length w = sz div 8" "vbit w j \<longleftrightarrow> (\<exists>x. v = Some x \<and> vbit x j) \<or> vbit a j" for j
    using Cons.prems(2) a(2) by (cases v; simp add: w_def vbit_or)+
  have "or_vectors sz vec (ix # ixs) v = or_vectors sz vec ixs (Some w)" by (simp add: w_def a split: option.split)
  moreover obtain r where "or_vectors sz vec ixs (Some w) = Some r" "length r = sz div 8"
    "\<And>j. vbit r j \<longleftrightarrow> vbit w j \<or> (\<exists>ix\<in>set ixs. \<forall>b\<in>set ix. vbit (vec b) j)"
    using Cons.IH[of "Some w"] Cons.prems(1) w(1) by auto
  ultimately show ?case using w(2) a(3) by (intro exI[of _ r]) auto
qed auto

lemma run_filters_bits:
  assumes "\<forall>f\<in>set fs. f \<noteq> [] \<and> (\<forall>ix\<in>set f. ix \<noteq> [] \<and> (\<forall>b\<in>set ix. length (vec b) = sz div 8))" "length v = sz div 8"
  shows "((\<exists>r. run_filters sz vec fs v = Some r \<and> vbit r j) \<longleftrightarrow> vbit v j \<and> (\<forall>f\<in>set fs. \<exists>ix\<in>set f. \<forall>b\<in>set ix. vbit (vec b) j)) \<and>
    (\<forall>r. run_filters sz vec fs v = Some r \<longrightarrow> length r = sz div 8)"
  using assms
proof (induction fs arbitrary: v)
  case (Cons f fs)
  have f: "\<forall>ix\<in>set f. ix \<noteq> [] \<and> (\<forall>b\<in>set ix. length (vec b) = sz div 8)" "f \<noteq> []" using Cons.prems(1) by simp_all
  from or_vectors_bits[OF f(1), of None] f(2) obtain o1 where o1: "or_vectors sz vec f None = Some o1" "length o1 = sz div 8"
    "\<And>j. vbit o1 j \<longleftrightarrow> (\<exists>ix\<in>set f. \<forall>b\<in>set ix. vbit (vec b) j)"
    by (simp only: option.distinct simp_thms) blast
  define w where "w = ANDBytes o1 o1 v"
  have w: "length w = sz div 8" "vbit w j \<longleftrightarrow> vbit o1 j \<and> vbit v j" for j
    using o1(2) Cons.prems(2) by (simp_all add: w_def vbit_and)
  have "subMatch sz vec f v = (if TestBytes w then Some w else None)" by (simp add: subMatch_def o1(1) w_def Let_def)
  then have run: "run_filters sz vec (f # fs) v = (if TestBytes w then run_filters sz vec fs w else None)" by simp
  have IH: "((\<exists>r. run_filters sz vec fs w = Some r \<and> vbit r j) \<longleftrightarrow> vbit w j \<and> (\<forall>f\<in>set fs. \<exists>ix\<in>set f. \<forall>b\<in>set ix. vbit (vec b) j)) \<and>
    (\<forall>r. run_filters sz vec fs w = Some r \<longrightarrow> length r = sz div 8)"
    using Cons.IH[of w] Cons.prems(1) w(1) by simp
  have Q: "vbit w j \<and> (\<forall>f\<in>set fs. \<exists>ix\<in>set f. \<forall>b\<in>set ix. vbit (vec b) j) \<longleftrightarrow>
      vbit v j \<and> (\<forall>f\<in>set (f # fs). \<exists>ix\<in>set f. \<forall>b\<in>set ix. vbit (vec b) j)"
    unfolding w(2) o1(3) by (simp only: list.simps ball_simps) blast
  show ?case
  proof (cases "TestBytes w")
    case True
    from IH show ?thesis unfolding run if_P[OF True] Q .
  next
    case False
    then have "\<not> vbit w j" by (simp add: TestBytes_vbit)
    with Q have "\<not> (vbit v j \<and> (\<forall>f\<in>set (f # fs). \<exists>ix\<in>set f. \<forall>b\<in>set ix. vbit (vec b) j))" by blast
    then show ?thesis unfolding run if_not_P[OF False] by blast
  qed
qed simp

lemma offset_mod: "(start :: nat) mod 8 = 0 \<Longrightarrow> start \<le> i \<Longrightarrow> (i - start) mod 8 = i mod 8"
  by (auto simp: le_iff_add mod_eq_0_iff_dvd elim!: dvdE)

lemma offset_div:
  assumes "(start :: nat) mod 8 = 0" "start \<le> i" "i mod 8 = 0" "i \<le> k" "k < i + 8"
  shows "(k - start) div 8 = (i - start) div 8"
proof -
  obtain q p where qp: "start = 8 * q" "i = 8 * p" using assms(1,3) by (auto simp: mod_eq_0_iff_dvd elim!: dvdE)
  obtain r where r: "k = 8 * p + r" "r < 8" using assms(4,5) qp by (auto simp: le_iff_add)
  have "k - start = 8 * (p - q) + r" using r qp assms(2) by simp
  with r(2) qp show ?thesis by (simp add: diff_mult_distrib2[symmetric])
qed

lemma emit_filter:
  assumes "start mod 8 = 0" "start \<le> i" "lst < start + 8 * length v"
  shows "emit v start i lst = filter (\<lambda>k. vbit v (k - start)) [i..<lst + 1]"
  using assms
proof (induction "Suc lst - i" arbitrary: i rule: less_induct)
  case less
  show ?case
  proof (cases "lst < i")
    case False
    let ?n = "v ! ((i - start) div 8)" and ?f = "\<lambda>k. vbit v (k - start)"
    have m: "(i - start) mod 8 = i mod 8" using offset_mod less.prems(1,2) .
    have lt: "i - start < 8 * length v" using less.prems False by simp
    have here: "?f i \<longleftrightarrow> bit ?n (7 - i mod 8)" using lt m by (simp add: vbit_def)
    have IH: "k > i \<Longrightarrow> emit v start k lst = filter ?f [k..<lst + 1]" for k
      using less.hyps[of k] less.prems False by simp
    have split: "[i..<lst + 1] = i # [i + 1..<lst + 1]" using False by (simp add: upt_conv_Cons)
    show ?thesis
    proof (cases "?n = 0")
      case True
      show ?thesis
      proof (cases "i mod 8 = 0")
        case aligned: True
        have dead: "\<not> ?f k" if "i \<le> k" "k < i + 8" for k
        proof -
          from offset_div[OF less.prems(1,2) aligned that] show ?thesis using True by (simp add: vbit_def)
        qed
        have "filter ?f [i..<lst + 1] = filter ?f [i + 8..<lst + 1]"
        proof (cases "i + 8 \<le> lst + 1")
          case le: True
          then have "[i..<lst + 1] = [i..<i + 8] @ [i + 8..<lst + 1]" by (metis le_add1 le_add_diff_inverse upt_add_eq_append)
          moreover have "filter ?f [i..<i + 8] = []" using dead by (auto simp: filter_empty_conv)
          ultimately show ?thesis by simp
        qed (use dead in \<open>auto simp: filter_empty_conv\<close>)
        moreover have "emit v start i lst = emit v start (i + 8) lst"
          using True aligned False by (subst emit.simps) (simp add: Let_def add.commute)
        ultimately show ?thesis using IH[of "i + 8"] by simp
      next
        case unaligned: False
        then show ?thesis using IH[of "i + 1"] True False here split by (subst emit.simps) (simp add: Let_def)
      qed
    next
      case nz: False
      then show ?thesis using IH[of "i + 1"] False here split
        by (subst emit.simps) (simp add: Let_def and_exp_eq_0_iff_not_bit)
    qed
  qed (subst emit.simps, simp)
qed

section \<open>What the generator computes\<close>

lemma bit_shift_add: "(y :: nat) < 256 \<Longrightarrow> bit (x * 256 + y) i \<longleftrightarrow> (if i < 8 then bit y i else bit x (i - 8))"
proof -
  assume y: "y < 256"
  have "(x * 256 + y) div 2 ^ i = x div 2 ^ (i - 8)" if "8 \<le> i"
  proof -
    have "(2 :: nat) ^ i = 256 * 2 ^ (i - 8)" using that power_add[of "2 :: nat" 8 "i - 8"] by simp
    with y show ?thesis by (simp add: div_mult2_eq)
  qed
  moreover have "(x * 256 + y) div 2 ^ i = x * 2 ^ (8 - i) + y div 2 ^ i" if "i < 8"
  proof -
    have "(256 :: nat) = 2 ^ (8 - i) * 2 ^ i" using that power_add[of "2 :: nat" "8 - i" i] by simp
    then have eq: "x * 256 + y = y + (x * 2 ^ (8 - i)) * 2 ^ i" by (simp add: algebra_simps)
    show ?thesis unfolding eq by simp
  qed
  ultimately show ?thesis by (auto simp: bit_iff_odd)
qed

lemma bit_be_val:
  "i < 8 * length b \<Longrightarrow> bit (be_val b) i \<longleftrightarrow> bit (b ! (length b - 1 - i div 8)) (i mod 8)"
proof (induction b arbitrary: i rule: rev_induct)
  case (snoc c b)
  have c: "unat c < 256" using unat_bound[of c] by simp
  show ?case
  proof (cases "i < 8")
    case True
    then show ?thesis using c by (simp add: be_val_append bit_shift_add bit_unsigned_iff)
  next
    case False
    then have "i - 8 < 8 * length b" "(i - 8) div 8 = i div 8 - 1" "(i - 8) mod 8 = i mod 8" "1 \<le> i div 8" "i div 8 \<le> length b"
      using snoc.prems by (auto simp: le_mod_geq le_div_geq)
    moreover from this have "length b - i div 8 < length b" by linarith
    ultimately show ?thesis using snoc.IH[of "i - 8"] c False
      by (simp add: be_val_append bit_shift_add nth_append)
  qed
qed simp

lemma rotate_bit_vbit:
  assumes "length bloom = 256" "i < 2048" "nb < 8 * length row"
  shows "vbit (rotate_bit bloom nb i row) j \<longleftrightarrow> vbit row j \<or> (j = nb \<and> bit (bloom_Big bloom) i)"
    "length (rotate_bit bloom nb i row) = length row"
proof -
  have test: "(bloom ! (BloomByteLength - 1 - i div 8)) AND push_bit (i mod 8) 1 \<noteq> 0 \<longleftrightarrow> bit (bloom_Big bloom) i"
    using assms(1,2) by (simp add: and_exp_eq_0_iff_not_bit bloom_Big_def bit_be_val BloomByteLength_def)
  let ?m = "push_bit (7 - nb mod 8) 1 :: byte"
  have m: "bit ?m k \<longleftrightarrow> k = 7 - nb mod 8" if "k < 8" for k using that by (auto simp: bit_exp_iff)
  have eq: "j = nb \<longleftrightarrow> j div 8 = nb div 8 \<and> 7 - j mod 8 = 7 - nb mod 8"
  proof -
    have "j mod 8 < 8" "nb mod 8 < 8" by simp_all
    then have "7 - j mod 8 = 7 - nb mod 8 \<longleftrightarrow> j mod 8 = nb mod 8" by arith
    then show ?thesis by (metis mult_div_mod_eq)
  qed
  have upd: "vbit (row[nb div 8 := (row ! (nb div 8)) OR ?m]) j \<longleftrightarrow> vbit row j \<or> j = nb"
    unfolding eq using assms(3) m[of "7 - j mod 8"]
    by (auto simp: vbit_def div8_less nth_list_update bit_or_iff simp del: push_bit_of_1)
  show "vbit (rotate_bit bloom nb i row) j \<longleftrightarrow> vbit row j \<or> (j = nb \<and> bit (bloom_Big bloom) i)"
    using upd test by (auto simp: rotate_bit_def Let_def)
  show "length (rotate_bit bloom nb i row) = length row" by (simp add: rotate_bit_def Let_def)
qed

lemma BloomBitLength_eq: "BloomBitLength = 2048"
  by (simp add: BloomBitLength_def BloomByteLength_def)

definition gen_ok :: "Generator \<Rightarrow> Bloom list \<Rightarrow> bool" where
  "gen_ok g bs \<longleftrightarrow> gen_nextBit g = length bs \<and> length (gen_blooms g) = BloomBitLength \<and>
     (\<forall>i<BloomBitLength. length (gen_blooms g ! i) = gen_sections g div 8 \<and>
        (\<forall>j. vbit (gen_blooms g ! i) j \<longleftrightarrow> j < length bs \<and> bit (bloom_Big (bs ! j)) i))"

lemma NewGenerator_ok:
  assumes "n mod 8 = 0"
  shows "\<exists>g. NewGenerator n = Inr g \<and> gen_ok g [] \<and> gen_sections g = n"
  using assms by (auto simp: NewGenerator_def gen_ok_def vbit_zeros)

lemma AddBloom_ok:
  assumes "gen_ok g bs" "length bs < gen_sections g" "gen_sections g mod 8 = 0" "length b = 256"
  shows "\<exists>g1. AddBloom (length bs) b g = Inr g1 \<and> gen_ok g1 (bs @ [b]) \<and> gen_sections g1 = gen_sections g"
proof -
  let ?nb = "gen_nextBit g"
  let ?rows = "map (\<lambda>i. rotate_bit b ?nb i (gen_blooms g ! i)) [0..<BloomBitLength]"
  have nb: "?nb = length bs" using assms(1) by (simp add: gen_ok_def)
  have row: "length (gen_blooms g ! i) = gen_sections g div 8"
    "vbit (gen_blooms g ! i) j \<longleftrightarrow> j < length bs \<and> bit (bloom_Big (bs ! j)) i" if "i < BloomBitLength" for i j
    using assms(1) that by (simp_all add: gen_ok_def)
  have lt: "?nb < 8 * length (gen_blooms g ! i)" if "i < BloomBitLength" for i
    using assms(2,3) row(1)[OF that] nb by (auto simp: mod_eq_0_iff_dvd elim!: dvdE)
  have new: "length (rotate_bit b ?nb i (gen_blooms g ! i)) = gen_sections g div 8"
    "vbit (rotate_bit b ?nb i (gen_blooms g ! i)) j \<longleftrightarrow> j < Suc (length bs) \<and> bit (bloom_Big ((bs @ [b]) ! j)) i"
    if i: "i < BloomBitLength" for i j
  proof -
    note rot = rotate_bit_vbit[OF assms(4) i[unfolded BloomBitLength_eq] lt[OF i]]
    show "length (rotate_bit b ?nb i (gen_blooms g ! i)) = gen_sections g div 8" using rot(2) row(1)[OF i] by (rule trans)
    show "vbit (rotate_bit b ?nb i (gen_blooms g ! i)) j \<longleftrightarrow> j < Suc (length bs) \<and> bit (bloom_Big ((bs @ [b]) ! j)) i"
      unfolding rot(1) row(2)[OF i] using nb by (cases "j = length bs") (simp_all add: nth_append less_Suc_eq)
  qed
  have "AddBloom (length bs) b g = Inr (g\<lparr>gen_blooms := ?rows, gen_nextBit := ?nb + 1\<rparr>)"
    using assms(2) nb by (simp add: AddBloom_def)
  moreover have "gen_ok (g\<lparr>gen_blooms := ?rows, gen_nextBit := ?nb + 1\<rparr>) (bs @ [b])"
    using nb new by (simp add: gen_ok_def)
  ultimately show ?thesis by simp
qed

lemma add_blooms_ok:
  assumes "gen_ok g bs" "gen_sections g mod 8 = 0" "length bs + length cs \<le> gen_sections g" "\<forall>b\<in>set cs. length b = 256"
  shows "\<exists>g1. add_blooms (length bs) cs g = Inr g1 \<and> gen_ok g1 (bs @ cs) \<and> gen_sections g1 = gen_sections g"
  using assms
proof (induction cs arbitrary: g bs)
  case (Cons c cs)
  then obtain g1 where g1: "AddBloom (length bs) c g = Inr g1" "gen_ok g1 (bs @ [c])" "gen_sections g1 = gen_sections g"
    using AddBloom_ok[of g bs c] by auto
  with Cons.IH[OF g1(2)] Cons.prems show ?case by simp
qed simp

text \<open>Both ways to compute the bits of a key agree.\<close>

lemma index_eq:
  fixes x y :: nat
  assumes "x < 256" "y < 256"
  shows "(push_bit 8 x AND 2047) + y = (y + push_bit 8 x) AND 2047"
proof -
  have m: "(n :: nat) AND 2047 = n mod 2048" for n
  proof -
    have "(2047 :: nat) = mask 11" by (simp add: mask_eq_exp_minus_1)
    then have "n AND 2047 = take_bit 11 n" by (simp only: take_bit_eq_mask)
    then show ?thesis by (simp add: take_bit_eq_mod)
  qed
  define q r where "q = x div 8" and "r = x mod 8"
  have x: "x = 8 * q + r" and r: "r < 8" by (simp_all add: q_def r_def)
  have small: "(2048 * q + z) mod 2048 = z" if "z < 2048" for z using that by (metis mod_mult_self3 mod_less mult.commute)
  have "push_bit 8 x = 2048 * q + 256 * r" by (simp add: push_bit_eq_mult x algebra_simps)
  moreover have "256 * r < 2048" "256 * r + y < 2048" using r assms(2) by linarith+
  ultimately show ?thesis using small[of "256 * r"] small[of "256 * r + y"] unfolding m by (simp only: ac_simps)
qed

lemma calcBloomIndexes_eq: "set (calcBloomIndexes D t) = {n. bit (bloom9 D t) n}"
proof -
  have b: "unat (x :: byte) < 256" for x using unat_bound[of x] by simp
  have "calcBloomIndexes D t = map (bloom9_bit (hash_Bytes (keccak256 D t))) [0, 2, 4]"
    by (simp add: calcBloomIndexes_def Let_def bloom9_bit_def index_eq[OF b b])
  then show ?thesis by (auto simp: bloom9_bits)
qed

lemma calcBloomIndexes_bound: "k \<in> set (calcBloomIndexes D t) \<Longrightarrow> k < 2048" "calcBloomIndexes D t \<noteq> []"
  using bloom9_bit_bound by (auto simp: calcBloomIndexes_eq bloom9_bits) (simp add: calcBloomIndexes_def Let_def)

lemma BloomLookup_indexes: "BloomLookup D b t \<longleftrightarrow> (\<forall>k\<in>set (calcBloomIndexes D t). bit (bloom_Big b) k)"
  by (auto simp: BloomLookup_bits calcBloomIndexes_eq)

lemma NewMatcher_clauses:
  "set (NewMatcher D (filter_clauses as ts)) =
     (if as = [] then {} else {map (\<lambda>a. calcBloomIndexes D (address_Bytes a)) as}) \<union>
     (\<lambda>sub. map (\<lambda>t. calcBloomIndexes D (hash_Bytes t)) sub) ` {sub \<in> set ts. sub \<noteq> []}"
  by (auto simp: NewMatcher_def filter_clauses_def comp_def image_iff)

lemma bloomFilter_indexes:
  "bloomFilter D b as ts \<longleftrightarrow> (\<forall>f\<in>set (NewMatcher D (filter_clauses as ts)). \<exists>ix\<in>set f. \<forall>k\<in>set ix. bit (bloom_Big b) k)"
  by (auto simp: NewMatcher_clauses bloomFilter_def list_ex_iff list_all_iff BloomLookup_indexes)

lemma NewMatcher_wf:
  assumes "\<forall>k<2048. length (vec k) = sz div 8"
  shows "\<forall>f\<in>set (NewMatcher D (filter_clauses as ts)). f \<noteq> [] \<and> (\<forall>ix\<in>set f. ix \<noteq> [] \<and> (\<forall>b\<in>set ix. length (vec b) = sz div 8))"
  using assms calcBloomIndexes_bound by (auto simp: NewMatcher_clauses)

lemma section_matches_bits:
  assumes "sz mod 8 = 0" "0 < sz" and vec: "\<forall>k<2048. length (vec k) = sz div 8"
  shows "section_matches sz vec (NewMatcher D (filter_clauses as ts)) sec bgn nd =
    filter (\<lambda>k. \<forall>f\<in>set (NewMatcher D (filter_clauses as ts)). \<exists>ix\<in>set f. \<forall>b\<in>set ix. vbit (vec b) (k - sec * sz))
      [max bgn (sec * sz)..<min nd (sec * sz + sz - 1) + 1]"
proof -
  let ?fs = "NewMatcher D (filter_clauses as ts)" and ?ones = "replicate (sz div 8) (255 :: byte)" and ?st = "sec * sz"
  let ?P = "\<lambda>j. \<forall>f\<in>set ?fs. \<exists>ix\<in>set f. \<forall>b\<in>set ix. vbit (vec b) j"
  have sz: "8 * (sz div 8) = sz" using assms(1) by (simp add: mod_eq_0_iff_dvd)
  note run = run_filters_bits[OF NewMatcher_wf[OF vec, of D as ts] length_replicate[of "sz div 8" 255]]
  have bits: "(\<exists>r. run_filters sz vec ?fs ?ones = Some r \<and> vbit r j) \<longleftrightarrow> j < sz \<and> ?P j" for j
    using run[of j] unfolding vbit_ones sz by blast
  let ?range = "[max bgn ?st..<min nd (?st + sz - 1) + 1]"
  have range: "k - ?st < sz" if "k \<in> set ?range" for k using that assms(2) by auto
  show ?thesis
  proof (cases "run_filters sz vec ?fs ?ones")
    case None
    then have none: "\<not> (j < sz \<and> ?P j)" for j using bits[of j] by (simp only: option.distinct simp_thms)
    have "filter (\<lambda>k. ?P (k - ?st)) ?range = []" unfolding filter_empty_conv using none range by blast
    then show ?thesis by (simp only: section_matches_def None option.case)
  next
    case (Some r)
    have r: "vbit r j \<longleftrightarrow> j < sz \<and> ?P j" for j using bits[of j] Some by simp
    have len: "length r = sz div 8" using run[of 0] Some by blast
    have "?st mod 8 = 0" using assms(1) by (simp add: mod_eq_0_iff_dvd)
    moreover have "?st \<le> max bgn ?st" "min nd (?st + sz - 1) < ?st + 8 * length r"
      unfolding len sz using assms(2) by simp_all
    ultimately have e: "emit r ?st (max bgn ?st) (min nd (?st + sz - 1)) = filter (\<lambda>k. vbit r (k - ?st)) ?range"
      by (rule emit_filter)
    have f: "filter (\<lambda>k. vbit r (k - ?st)) ?range = filter (\<lambda>k. ?P (k - ?st)) ?range"
      by (rule filter_cong[OF refl]) (simp only: r range simp_thms)
    have "emit r ?st (max bgn ?st) (min nd (?st + sz - 1)) = section_matches sz vec ?fs sec bgn nd"
    proof -
      have "(if ?st < bgn then bgn else ?st) = max bgn ?st" "(if nd < ?st + sz - 1 then nd else ?st + sz - 1) = min nd (?st + sz - 1)"
        by simp_all
      then show ?thesis by (simp only: section_matches_def Some option.case Let_def)
    qed
    then show ?thesis using e f by (simp only:)
  qed
qed

text \<open>C31: searching through the index finds the same blocks. For a section of blocks whose blooms were
  rotated into bit vectors, the matcher reports exactly the blocks in the range asked for whose
  bloom passes \<open>bloomFilter\<close>, in order: every vector it needs can be read back, and combining
  the vectors loses and invents nothing.\<close>

theorem bloom_index_agrees:
  assumes "sz mod 8 = 0" "2048 \<le> sz" "length blooms = sz" "\<forall>b\<in>set blooms. length b = 256"
  shows "\<exists>g0 g. NewGenerator sz = Inr g0 \<and> add_blooms 0 blooms g0 = Inr g \<and>
    (\<forall>k<2048. Bitset k g = Inr (gen_blooms g ! k)) \<and>
    section_matches sz (\<lambda>k. gen_blooms g ! k) (NewMatcher D (filter_clauses as ts)) sec bgn nd =
      filter (\<lambda>k. bloomFilter D (blooms ! (k - sec * sz)) as ts) [max bgn (sec * sz)..<min nd (sec * sz + sz - 1) + 1]"
proof -
  obtain g0 where g0: "NewGenerator sz = Inr g0" "gen_ok g0 []" "gen_sections g0 = sz"
    using NewGenerator_ok[OF assms(1)] by blast
  with add_blooms_ok[OF g0(2), of blooms] assms obtain g where
    g: "add_blooms 0 blooms g0 = Inr g" "gen_ok g blooms" "gen_sections g = sz" by auto
  have row: "length (gen_blooms g ! k) = sz div 8" "vbit (gen_blooms g ! k) j \<longleftrightarrow> j < length blooms \<and> bit (bloom_Big (blooms ! j)) k"
    if "k < 2048" for k j
    using g(2,3) that unfolding gen_ok_def BloomBitLength_eq by blast+
  have "Bitset k g = Inr (gen_blooms g ! k)" if "k < 2048" for k
    using g(2,3) that assms(2,3) by (simp add: Bitset_def gen_ok_def)
  moreover have "section_matches sz (\<lambda>k. gen_blooms g ! k) (NewMatcher D (filter_clauses as ts)) sec bgn nd =
      filter (\<lambda>k. bloomFilter D (blooms ! (k - sec * sz)) as ts) [max bgn (sec * sz)..<min nd (sec * sz + sz - 1) + 1]"
  proof -
    have "(\<forall>f\<in>set (NewMatcher D (filter_clauses as ts)). \<exists>ix\<in>set f. \<forall>b\<in>set ix. vbit (gen_blooms g ! b) (k - sec * sz)) \<longleftrightarrow>
        bloomFilter D (blooms ! (k - sec * sz)) as ts"
      if "k \<in> set [max bgn (sec * sz)..<min nd (sec * sz + sz - 1) + 1]" for k
    proof -
      have lt: "k - sec * sz < length blooms" using that assms(2,3) by auto
      have "vbit (gen_blooms g ! b) (k - sec * sz) \<longleftrightarrow> bit (bloom_Big (blooms ! (k - sec * sz))) b"
        if "f \<in> set (NewMatcher D (filter_clauses as ts))" "ix \<in> set f" "b \<in> set ix" for f ix b
        using that lt row(2)[of b] calcBloomIndexes_bound(1)[of b] by (auto simp: NewMatcher_clauses split: if_splits)
      then show ?thesis unfolding bloomFilter_indexes by blast
    qed
    note agree = this
    have "0 < sz" "\<forall>k<2048. length (gen_blooms g ! k) = sz div 8" using assms(2) row(1) by auto
    from section_matches_bits[OF assms(1) this] show ?thesis by (rule trans) (rule filter_cong[OF refl agree])
  qed
  ultimately show ?thesis using g0(1) g(1) by blast
qed

text \<open>A section of empty blooms: a filter without conditions passes the blocks asked for, in the second
  section of the chain.\<close>

theorem bloom_index_agrees_witness:
  "\<exists>g0 g. NewGenerator 2048 = Inr g0 \<and> add_blooms 0 (replicate 2048 (replicate 256 0)) g0 = Inr g \<and>
     section_matches 2048 (\<lambda>k. gen_blooms g ! k) (NewMatcher backend0 (filter_clauses [] [[]])) 1 2050 2052 = [2050, 2051, 2052]"
proof -
  have pre: "(2048 :: nat) mod 8 = 0" "(2048 :: nat) \<le> 2048" "length (replicate 2048 (replicate 256 (0 :: byte))) = 2048"
    "\<forall>b\<in>set (replicate 2048 (replicate 256 (0 :: byte))). length b = 256" by simp_all
  have "bloomFilter backend0 b [] [[]]" for b by (simp add: bloomFilter_def)
  then have "filter (\<lambda>k. bloomFilter backend0 (replicate 2048 (replicate 256 0) ! (k - 1 * 2048)) [] [[]])
      [max 2050 (1 * 2048)..<min 2052 (1 * 2048 + 2048 - 1) + 1] = [2050, 2051, 2052]" by (simp add: upt_rec)
  with bloom_index_agrees[OF pre, of backend0 "[]" "[[]]" 1 2050 2052] show ?thesis by auto
qed

end
