(* ===== verification/Dpos_Headers.thy ===== *)
theory Dpos_Headers
  imports Log_Bloom
begin

text \<open>
  The verification of headers of \<open>consensus/dpos/dpos_consensus.go\<close> and the gas limit a producer
  gives its block, \<open>CalcGasLimit\<close> of \<open>core/block_validator.go\<close>. The clock is an argument in seconds,
  the hash of a header and the headers the chain knows are parameters. \<open>VerifyHeaders\<close> checks a
  batch with several workers: its coordinator and the workers are a transition system, whose steps
  may interleave in any way.
\<close>

section \<open>Headers\<close>

record Header =
  h_ParentHash :: hash
  h_Coinbase :: address
  h_Root :: hash
  h_TxHash :: hash
  h_ReceiptHash :: hash
  h_Bloom :: Bloom
  h_Number :: int
  h_GasLimit :: uint64
  h_GasUsed :: uint64
  h_Time :: int
  h_Extra :: "byte list"
  h_AgentName :: "byte list"
  h_DelegateRoot :: hash
  h_ShuffleHash :: hash
  h_ShuffleBlockNumber :: int

record ChainReader =
  GetHeader :: "hash \<Rightarrow> uint64 \<Rightarrow> Header option"
  header_Hash :: "Header \<Rightarrow> hash"

datatype header_error = ExtraTooLong | ErrFutureBlock | errZeroBlockTime | InvalidGasLimit | InvalidGasUsed
  | GasLimitBounds | ErrInvalidNumber | ErrUnknownAncestor

definition MaximumExtraDataSize :: uint64 where "MaximumExtraDataSize = 16"
definition GasLimitBoundDivisor :: uint64 where "GasLimitBoundDivisor = 512"
definition MinGasLimit :: uint64 where "MinGasLimit = 200000000"
definition allowedFutureBlockTime :: int where "allowedFutureBlockTime = 15"

text \<open>The difference of the gas limits is taken on \<open>int64\<close>.\<close>

definition gas_limit_diff :: "uint64 \<Rightarrow> uint64 \<Rightarrow> uint64" where
  "gas_limit_diff parentLimit limit = (let diff = parentLimit - limit in if sint diff < 0 then - diff else diff)"

definition verifyHeader :: "int \<Rightarrow> Header \<Rightarrow> Header \<Rightarrow> header_error option" where
  "verifyHeader now header parent =
     (if MaximumExtraDataSize < of_nat (length (h_Extra header)) then Some ExtraTooLong
      else if now + allowedFutureBlockTime < h_Time header then Some ErrFutureBlock
      else if h_Time header \<le> h_Time parent then Some errZeroBlockTime
      else if 0x7fffffffffffffff < h_GasLimit header then Some InvalidGasLimit
      else if h_GasLimit header < h_GasUsed header then Some InvalidGasUsed
      else if h_GasLimit parent div GasLimitBoundDivisor \<le> gas_limit_diff (h_GasLimit parent) (h_GasLimit header)
              \<or> h_GasLimit header < MinGasLimit then Some GasLimitBounds
      else if h_Number header - h_Number parent \<noteq> 1 then Some ErrInvalidNumber
      else None)"

definition VerifyHeader :: "ChainReader \<Rightarrow> int \<Rightarrow> Header \<Rightarrow> header_error option" where
  "VerifyHeader chain now header =
     (let number = of_int (h_Number header) in
      if GetHeader chain (header_Hash chain header) number \<noteq> None then None
      else if now < sint (of_int (h_Time header) :: uint64) then Some ErrFutureBlock
      else case GetHeader chain (h_ParentHash header) (number - 1) of
        None \<Rightarrow> Some ErrUnknownAncestor
      | Some parent \<Rightarrow> verifyHeader now header parent)"

definition verifyHeaders :: "ChainReader \<Rightarrow> int \<Rightarrow> Header list \<Rightarrow> nat \<Rightarrow> header_error option" where
  "verifyHeaders chain now headers index =
     (let header = headers ! index;
          parent = (if index = 0 then GetHeader chain (h_ParentHash header) (of_int (h_Number header) - 1)
                    else if header_Hash chain (headers ! (index - 1)) = h_ParentHash header then Some (headers ! (index - 1))
                    else None) in
      case parent of
        None \<Rightarrow> Some ErrUnknownAncestor
      | Some p \<Rightarrow>
          if GetHeader chain (header_Hash chain header) (of_int (h_Number header)) \<noteq> None then None
          else verifyHeader now header p)"

definition dpos_Prepare :: "ChainReader \<Rightarrow> Header \<Rightarrow> header_error option" where
  "dpos_Prepare chain header =
     (if GetHeader chain (h_ParentHash header) (of_int (h_Number header) - 1) = None then Some ErrUnknownAncestor else None)"

section \<open>The gas limit of the next block\<close>

definition CalcGasLimit :: "uint64 \<Rightarrow> Header \<Rightarrow> uint64" where
  "CalcGasLimit TargetGasLimit parent =
     (let contrib = (h_GasUsed parent + h_GasUsed parent div 2) div GasLimitBoundDivisor;
          decay = h_GasLimit parent div GasLimitBoundDivisor - 1;
          limit0 = h_GasLimit parent - decay + contrib;
          limit1 = (if limit0 < MinGasLimit then MinGasLimit else limit0) in
      if limit1 < TargetGasLimit then
        (let limit2 = h_GasLimit parent + decay in if TargetGasLimit < limit2 then TargetGasLimit else limit2)
      else limit1)"

text \<open>What a producer puts into its header: the calculated limit, cut off at \<open>MaxGasLimit\<close>.\<close>

definition MaxGasLimit :: uint64 where "MaxGasLimit = 300000000"

definition produced_gasLimit :: "uint64 \<Rightarrow> Header \<Rightarrow> uint64" where
  "produced_gasLimit TargetGasLimit parent =
     (let gasLimit = CalcGasLimit TargetGasLimit parent in if MaxGasLimit < gasLimit then MaxGasLimit else gasLimit)"

section \<open>Verifying a batch\<close>

text \<open>The coordinator has sent the indexes below \<open>p_in\<close> to the workers, and has delivered the results below
  \<open>p_out\<close>. An index is being worked on, then waits to be put into the channel \<open>done\<close>, then is in that
  channel, and then checked. The workers are those that hold an index in the first two lists, and the
  others wait for input. \<open>p_finished\<close>: the coordinator has returned. The channel by which the caller
  aborts the batch is not modelled.\<close>

record pipeline =
  p_in :: nat
  p_out :: nat
  p_checked :: "bool list"
  p_headerErrors :: "header_error option list"
  p_running :: "nat list"
  p_sending :: "nat list"
  p_done :: "nat list"
  p_errorsOut :: "header_error option list"
  p_finished :: bool

definition pipeline_start :: "nat \<Rightarrow> pipeline" where
  "pipeline_start n = \<lparr>p_in = 0, p_out = 0, p_checked = replicate n False, p_headerErrors = replicate n None,
     p_running = [], p_sending = [], p_done = [], p_errorsOut = [], p_finished = False\<rparr>"

text \<open>The inner loop of the coordinator: deliver what is checked from \<open>p_out\<close> on.\<close>

function flush :: "nat \<Rightarrow> pipeline \<Rightarrow> pipeline" where
  "flush n s =
     (if p_out s < n \<and> p_checked s ! p_out s then
        (let s1 = s\<lparr>p_errorsOut := p_errorsOut s @ [p_headerErrors s ! p_out s]\<rparr> in
         if p_out s = n - 1 then s1\<lparr>p_finished := True\<rparr> else flush n (s1\<lparr>p_out := p_out s + 1\<rparr>))
      else s)"
  by pat_completeness auto
termination
  by (relation "measure (\<lambda>(n, s). n - p_out s)") auto

declare flush.simps [simp del]

text \<open>One step of the coordinator or of a worker, for \<open>n\<close> headers and \<open>w\<close> workers; \<open>verify\<close> is the check of
  one header.\<close>

inductive pipe_step :: "(nat \<Rightarrow> header_error option) \<Rightarrow> nat \<Rightarrow> nat \<Rightarrow> pipeline \<Rightarrow> pipeline \<Rightarrow> bool"
  for verify n w where
  Send: "\<not> p_finished s \<Longrightarrow> p_in s < n \<Longrightarrow> length (p_running s) + length (p_sending s) < w \<Longrightarrow>
    pipe_step verify n w s (s\<lparr>p_in := p_in s + 1, p_running := p_running s @ [p_in s]\<rparr>)"
| Work: "p_running s = pre @ i # post \<Longrightarrow>
    pipe_step verify n w s (s\<lparr>p_headerErrors := (p_headerErrors s)[i := verify i],
      p_running := pre @ post, p_sending := p_sending s @ [i]\<rparr>)"
| Deliver: "p_sending s = pre @ i # post \<Longrightarrow> length (p_done s) < w \<Longrightarrow>
    pipe_step verify n w s (s\<lparr>p_sending := pre @ post, p_done := p_done s @ [i]\<rparr>)"
| Receive: "\<not> p_finished s \<Longrightarrow> p_done s = i # rest \<Longrightarrow>
    pipe_step verify n w s (flush n (s\<lparr>p_done := rest, p_checked := (p_checked s)[i := True]\<rparr>))"

inductive_cases pipe_stepE: "pipe_step verify n w s t"

section \<open>The invariant of the pipeline\<close>

definition pipe_held :: "pipeline \<Rightarrow> nat list" where
  "pipe_held s = p_running s @ p_sending s @ p_done s"

definition pipe_inv :: "(nat \<Rightarrow> header_error option) \<Rightarrow> nat \<Rightarrow> nat \<Rightarrow> pipeline \<Rightarrow> bool" where
  "pipe_inv verify n w s \<longleftrightarrow> p_in s \<le> n \<and> length (p_checked s) = n \<and> length (p_headerErrors s) = n \<and>
     distinct (pipe_held s) \<and> set (pipe_held s) = {i. i < p_in s \<and> \<not> p_checked s ! i} \<and>
     (\<forall>i<n. p_checked s ! i \<longrightarrow> i < p_in s) \<and>
     (\<forall>i<n. i \<in> set (p_sending s @ p_done s) \<or> p_checked s ! i \<longrightarrow> p_headerErrors s ! i = verify i) \<and>
     p_errorsOut s = map verify [0..<(if p_finished s then n else p_out s)] \<and>
     (\<forall>i<p_out s. p_checked s ! i) \<and> p_out s < n \<and> (\<not> p_finished s \<longrightarrow> \<not> p_checked s ! p_out s)"

text \<open>What \<open>flush\<close> needs and gives: the same, but for the result at \<open>p_out\<close>.\<close>

definition flush_pre :: "(nat \<Rightarrow> header_error option) \<Rightarrow> nat \<Rightarrow> pipeline \<Rightarrow> bool" where
  "flush_pre verify n s \<longleftrightarrow> \<not> p_finished s \<and> (\<forall>i<n. p_checked s ! i \<longrightarrow> p_headerErrors s ! i = verify i) \<and>
     p_errorsOut s = map verify [0..<p_out s] \<and> (\<forall>i<p_out s. p_checked s ! i) \<and> p_out s < n"

lemma flush_frame:
  "p_in (flush n s) = p_in s \<and> p_checked (flush n s) = p_checked s \<and> p_headerErrors (flush n s) = p_headerErrors s \<and>
   p_running (flush n s) = p_running s \<and> p_sending (flush n s) = p_sending s \<and> p_done (flush n s) = p_done s"
  by (induction n s rule: flush.induct) (subst (1 2 3 4 5 6) flush.simps, simp add: Let_def)

lemma flush_post:
  assumes "flush_pre verify n s"
  shows "p_errorsOut (flush n s) = map verify [0..<(if p_finished (flush n s) then n else p_out (flush n s))] \<and>
    (\<forall>i<p_out (flush n s). p_checked s ! i) \<and> p_out (flush n s) < n \<and>
    (\<not> p_finished (flush n s) \<longrightarrow> \<not> p_checked s ! p_out (flush n s))"
  using assms
proof (induction n s rule: flush.induct)
  case (1 n s)
  let ?s1 = "s\<lparr>p_errorsOut := p_errorsOut s @ [p_headerErrors s ! p_out s]\<rparr>"
  show ?case
  proof (cases "p_checked s ! p_out s")
    case False
    then have "flush n s = s" by (subst flush.simps) simp
    with False "1.prems" show ?thesis by (simp add: flush_pre_def)
  next
    case True
    have out: "p_out s < n" "p_headerErrors s ! p_out s = verify (p_out s)" "p_errorsOut s = map verify [0..<p_out s]"
      "\<forall>i<p_out s. p_checked s ! i"
      using "1.prems" True by (simp_all add: flush_pre_def)
    show ?thesis
    proof (cases "p_out s = n - 1")
      case last: True
      then have "flush n s = ?s1\<lparr>p_finished := True\<rparr>" using True out(1) by (subst flush.simps) (simp add: Let_def)
      moreover have "[0..<n] = [0..<p_out s] @ [p_out s]" using last out(1) by (cases n) simp_all
      ultimately show ?thesis using out by simp
    next
      case False
      let ?s2 = "?s1\<lparr>p_out := p_out s + 1\<rparr>"
      have eq: "flush n s = flush n ?s2" using True out(1) False by (subst flush.simps) (simp add: Let_def)
      have "flush_pre verify n ?s2"
        using "1.prems" True False out by (auto simp: flush_pre_def less_Suc_eq)
      from "1.IH"[OF _ refl False this] True out(1) show ?thesis unfolding eq by simp
    qed
  qed
qed

lemma pipe_inv_start: "0 < n \<Longrightarrow> pipe_inv verify n w (pipeline_start n)"
  by (simp add: pipe_inv_def pipeline_start_def pipe_held_def)

lemma pipe_inv_step:
  assumes inv: "pipe_inv verify n w s" and step: "pipe_step verify n w s t"
  shows "pipe_inv verify n w t"
proof -
  have I: "p_in s \<le> n" "length (p_checked s) = n" "length (p_headerErrors s) = n" "distinct (pipe_held s)"
    "set (pipe_held s) = {i. i < p_in s \<and> \<not> p_checked s ! i}" "\<forall>i<n. p_checked s ! i \<longrightarrow> i < p_in s"
    "\<forall>i<n. i \<in> set (p_sending s @ p_done s) \<or> p_checked s ! i \<longrightarrow> p_headerErrors s ! i = verify i"
    "p_errorsOut s = map verify [0..<(if p_finished s then n else p_out s)]" "\<forall>i<p_out s. p_checked s ! i" "p_out s < n"
    "\<not> p_finished s \<longrightarrow> \<not> p_checked s ! p_out s"
    using inv unfolding pipe_inv_def by blast+
  show ?thesis
    using step
  proof cases
    case Send
    have new: "p_in s \<notin> set (pipe_held s)" "\<not> p_checked s ! p_in s" using I(5,6) Send(3) by auto
    have "{i. i < Suc (p_in s) \<and> \<not> p_checked s ! i} = insert (p_in s) {i. i < p_in s \<and> \<not> p_checked s ! i}"
      using new(2) by (auto simp: less_Suc_eq)
    then have "set (pipe_held t) = {i. i < p_in t \<and> \<not> p_checked t ! i}" "distinct (pipe_held t)"
      using I(4,5) Send(1) new(1) by (simp_all add: pipe_held_def) blast
    moreover have "\<forall>i<n. p_checked s ! i \<longrightarrow> i < Suc (p_in s)" using I(6) less_SucI by blast
    ultimately show ?thesis unfolding pipe_inv_def using I Send(1,3) by simp
  next
    case (Work pre i post)
    have i: "i \<in> set (pipe_held s)" using Work(2) by (simp add: pipe_held_def)
    then have i: "i < n" "\<not> p_checked s ! i" using I(1) unfolding I(5) by simp_all
    have "set (pipe_held t) = set (pipe_held s)" "distinct (pipe_held t)"
      using I(4) Work by (auto simp: pipe_held_def)
    moreover have "\<forall>j<n. j \<in> set (p_sending t @ p_done t) \<or> p_checked t ! j \<longrightarrow> p_headerErrors t ! j = verify j"
      using I(3,7) Work(1) i by (simp add: nth_list_update)
    ultimately show ?thesis unfolding pipe_inv_def using I Work(1) by simp
  next
    case (Deliver pre i post)
    have "set (pipe_held t) = set (pipe_held s)" "distinct (pipe_held t)" "set (p_sending t @ p_done t) = set (p_sending s @ p_done s)"
      using I(4) Deliver by (auto simp: pipe_held_def)
    then show ?thesis unfolding pipe_inv_def using I Deliver(1) by simp
  next
    case (Receive i rest)
    let ?s1 = "s\<lparr>p_done := rest, p_checked := (p_checked s)[i := True]\<rparr>"
    have held_s: "pipe_held s = p_running s @ p_sending s @ i # rest" using Receive(3) by (simp add: pipe_held_def)
    then have "i \<in> set (pipe_held s)" by simp
    then have i: "i < p_in s" "\<not> p_checked s ! i" "i < n" using I(1) unfolding I(5) by simp_all
    have ch: "p_checked ?s1 ! j \<longleftrightarrow> j = i \<or> p_checked s ! j" if "j < n" for j using that I(2) by (cases "j = i") simp_all
    have err: "\<forall>j<n. j \<in> set (p_sending s @ rest) \<or> p_checked ?s1 ! j \<longrightarrow> p_headerErrors s ! j = verify j"
      using I(7) Receive(3) ch by auto
    have before: "\<forall>j<p_out s. p_checked ?s1 ! j" using I(9,10) ch by auto
    have pre: "flush_pre verify n ?s1"
      using err before I(8,10) Receive(2) by (simp add: flush_pre_def)
    have "set (pipe_held ?s1) = set (pipe_held s) - {i}" using I(4) held_s by (auto simp: pipe_held_def)
    also have "\<dots> = {j. j < p_in s \<and> \<not> p_checked ?s1 ! j}" unfolding I(5) using ch I(1) by auto
    finally have held: "set (pipe_held ?s1) = {j. j < p_in s \<and> \<not> p_checked ?s1 ! j}" "distinct (pipe_held ?s1)"
      using I(4) held_s by (simp_all add: pipe_held_def)
    have sent: "\<forall>j<n. p_checked ?s1 ! j \<longrightarrow> j < p_in s" using I(6) ch i by auto
    have fr: "p_in t = p_in s" "p_checked t = p_checked ?s1" "p_headerErrors t = p_headerErrors s"
      "pipe_held t = pipe_held ?s1" "p_sending t @ p_done t = p_sending s @ rest"
      using flush_frame[of n ?s1] Receive(1) by (simp_all add: pipe_held_def)
    have "length (p_checked ?s1) = n" using I(2) by simp
    moreover note post = flush_post[OF pre, folded Receive(1)]
    ultimately show ?thesis
      unfolding pipe_inv_def fr by (intro conjI I(1,3) held err sent post[THEN conjunct1] post[THEN conjunct2, THEN conjunct1]
          post[THEN conjunct2, THEN conjunct2, THEN conjunct1] post[THEN conjunct2, THEN conjunct2, THEN conjunct2])
  qed
qed

text \<open>The work that is left: four steps for each index.\<close>

definition pipe_work :: "nat \<Rightarrow> pipeline \<Rightarrow> nat" where
  "pipe_work n s = 4 * (n - p_in s) + 3 * length (p_running s) + 2 * length (p_sending s) + length (p_done s)"

lemma pipe_work_step: "pipe_step verify n w s t \<Longrightarrow> pipe_work n s = Suc (pipe_work n t)"
  by (erule pipe_stepE) (simp_all add: pipe_work_def flush_frame)

text \<open>As long as a result is missing, the coordinator or a worker can go on.\<close>

lemma pipe_not_stuck:
  assumes inv: "pipe_inv verify n w s" and "0 < w" and going: "\<not> p_finished s"
  shows "\<exists>t. pipe_step verify n w s t"
proof (cases "p_done s")
  case (Cons i rest)
  from pipe_step.Receive[OF going this] show ?thesis by (rule exI)
next
  case dn: Nil
  show ?thesis
  proof (cases "p_sending s")
    case (Cons i rest)
    then have "p_sending s = [] @ i # rest" "length (p_done s) < w" using dn assms(2) by simp_all
    from pipe_step.Deliver[OF this] show ?thesis by (rule exI)
  next
    case sending: Nil
    show ?thesis
    proof (cases "p_running s")
      case (Cons i rest)
      then have "p_running s = [] @ i # rest" by simp
      from pipe_step.Work[OF this] show ?thesis by (rule exI)
    next
      case Nil
      have out: "p_out s < n" "\<not> p_checked s ! p_out s" "set (pipe_held s) = {i. i < p_in s \<and> \<not> p_checked s ! i}"
        using inv going unfolding pipe_inv_def by blast+
      have "p_out s \<notin> set (pipe_held s)" using Nil dn sending by (simp add: pipe_held_def)
      then have "\<not> p_out s < p_in s" unfolding out(3) using out(2) by simp
      then have "p_in s < n" "length (p_running s) + length (p_sending s) < w"
        using out(1) Nil sending assms(2) by simp_all
      from pipe_step.Send[OF going this] show ?thesis by (rule exI)
    qed
  qed
qed

lemma pipe_run:
  assumes "(pipe_step verify n w ^^ k) (pipeline_start n) s" "0 < n"
  shows "pipe_inv verify n w s \<and> k + pipe_work n s = 4 * n"
  using assms
proof (induction k arbitrary: s)
  case 0
  then have "s = pipeline_start n" by simp
  then show ?case using pipe_inv_start[OF "0.prems"(2)] by (simp add: pipe_work_def pipeline_start_def)
next
  case (Suc k)
  then obtain r where r: "(pipe_step verify n w ^^ k) (pipeline_start n) r" "pipe_step verify n w r s" by auto
  from Suc.IH[OF r(1) Suc.prems(2)] pipe_inv_step[OF _ r(2)] pipe_work_step[OF r(2)] show ?case by simp
qed

text \<open>C32: a batch of headers is verified completely and in order, however the workers interleave. After
  any number of steps the results delivered are those of the first headers in the order of the batch, and are
  what checking the headers one after the other gives. No run has more than four steps per
  header, and a run that cannot go on has delivered the result of every header: the coordinator
  never waits for a result that does not come.\<close>

theorem header_batch_verified:
  assumes "headers \<noteq> []" "0 < w" and run: "(pipe_step (verifyHeaders chain now headers) (length headers) w ^^ k) (pipeline_start (length headers)) s"
  shows "k \<le> 4 * length headers \<and>
    (\<exists>m\<le>length headers. p_errorsOut s = map (verifyHeaders chain now headers) [0..<m]) \<and>
    (p_finished s \<longrightarrow> p_errorsOut s = map (verifyHeaders chain now headers) [0..<length headers]) \<and>
    ((\<forall>t. \<not> pipe_step (verifyHeaders chain now headers) (length headers) w s t) \<longrightarrow> p_finished s)"
proof -
  let ?v = "verifyHeaders chain now headers" and ?n = "length headers"
  have inv: "pipe_inv ?v ?n w s" and work: "k + pipe_work ?n s = 4 * ?n" using pipe_run[OF run] assms(1) by auto
  have out: "p_errorsOut s = map ?v [0..<(if p_finished s then ?n else p_out s)]" "p_out s < ?n"
    using inv unfolding pipe_inv_def by blast+
  then have "\<exists>m\<le>?n. p_errorsOut s = map ?v [0..<m]" by (intro exI[of _ "if p_finished s then ?n else p_out s"]) simp
  moreover have "(\<forall>t. \<not> pipe_step ?v ?n w s t) \<longrightarrow> p_finished s" using pipe_not_stuck[OF inv assms(2)] by blast
  ultimately show ?thesis using work out(1) by simp
qed

definition genesis_header :: Header where
  "genesis_header = \<lparr>h_ParentHash = 0, h_Coinbase = 0, h_Root = 0, h_TxHash = 0, h_ReceiptHash = 0, h_Bloom = [], h_Number = 0,
     h_GasLimit = 200000000, h_GasUsed = 0, h_Time = 10, h_Extra = [], h_AgentName = [], h_DelegateRoot = 0,
     h_ShuffleHash = 0, h_ShuffleBlockNumber = 0\<rparr>"

definition child_header :: Header where
  "child_header = genesis_header\<lparr>h_ParentHash := 7, h_Number := 1, h_Time := 20\<rparr>"

definition one_block_chain :: ChainReader where
  "one_block_chain = \<lparr>GetHeader = (\<lambda>h n. if h = 7 \<and> n = 0 then Some genesis_header else None),
     header_Hash = (\<lambda>h. if h_Number h = 0 then 7 else 8)\<rparr>"

text \<open>A batch of two headers of which the second repeats the first, with one worker: after the four steps of the
  first header its result is out.\<close>

theorem header_batch_verified_witness:
  "\<exists>s. (pipe_step (verifyHeaders one_block_chain 20 [child_header, child_header]) 2 1 ^^ 4) (pipeline_start 2) s \<and>
     p_errorsOut s = [None] \<and> \<not> p_finished s"
proof -
  let ?v = "verifyHeaders one_block_chain 20 [child_header, child_header]"
  let ?s = "\<lambda>i r sd d. (pipeline_start 2)\<lparr>p_in := i, p_running := r, p_sending := sd, p_done := d\<rparr>"
  have v: "?v 0 = None" by code_simp
  have 1: "pipe_step ?v 2 1 (pipeline_start 2) (?s 1 [0] [] [])"
    using pipe_step.Send[of "pipeline_start 2" 2 1 ?v] by (simp add: pipeline_start_def)
  have 2: "pipe_step ?v 2 1 (?s 1 [0] [] []) (?s 1 [] [0] [])"
    using pipe_step.Work[of "?s 1 [0] [] []" "[]" 0 "[]" ?v 2 1] v by (simp add: pipeline_start_def numeral_2_eq_2)
  have 3: "pipe_step ?v 2 1 (?s 1 [] [0] []) (?s 1 [] [] [0])"
    using pipe_step.Deliver[of "?s 1 [] [0] []" "[]" 0 "[]" 1 ?v 2] by (simp add: pipeline_start_def)
  define s where "s = flush 2 ((?s 1 [] [] [])\<lparr>p_checked := (p_checked (pipeline_start 2))[0 := True]\<rparr>)"
  have 4: "pipe_step ?v 2 1 (?s 1 [] [] [0]) s"
    using pipe_step.Receive[of "?s 1 [] [] [0]" 0 "[]" ?v 2 1] by (simp add: pipeline_start_def s_def)
  have run: "(pipe_step ?v 2 1 ^^ 4) (pipeline_start 2) s"
    using relpowp_Suc_I[OF relpowp_Suc_I[OF relpowp_Suc_I[OF relpowp_Suc_I[where P = "pipe_step ?v 2 1", OF relpowp_0_I 1] 2] 3] 4]
    by (simp add: numeral_eq_Suc)
  have s: "\<not> p_finished s" "length (p_errorsOut s) = 1"
    by (simp_all add: s_def pipeline_start_def numeral_2_eq_2 flush.simps Let_def)
  from header_batch_verified[where headers = "[child_header, child_header]" and w = 1 and chain = one_block_chain and now = 20 and k = 4 and s = s] run
  obtain m where "p_errorsOut s = map ?v [0..<m]" by (auto simp: numeral_2_eq_2)
  with s(2) v have "p_errorsOut s = [None]" by simp
  with run s(1) show ?thesis by blast
qed

section \<open>The gas limit is accepted\<close>

lemma sint_neg_iff: "sint (w :: uint64) < 0 \<longleftrightarrow> 2 ^ 63 \<le> unat w"
proof -
  have bound: "uint w < 2 ^ 64" "0 \<le> uint w" using uint_lt2p[of w] by simp_all
  have s: "sint w = uint w - 2 ^ 64 * of_bool (bit (uint w) 63)"
    using bound by (simp add: sint_uint signed_take_bit_eq_take_bit_minus take_bit_int_eq_self)
  have "bit (uint w) 63 \<longleftrightarrow> 2 ^ 63 \<le> uint w"
  proof (cases "2 ^ 63 \<le> uint w")
    case True
    then have "uint w div 2 ^ 63 = 1" using bound by (intro int_div_pos_eq[where r = "uint w - 2 ^ 63"]) auto
    with True show ?thesis by (simp add: bit_iff_odd)
  next
    case False
    then have "uint w div 2 ^ 63 = 0" using bound by simp
    with False show ?thesis by (simp add: bit_iff_odd)
  qed
  then have "sint w < 0 \<longleftrightarrow> 2 ^ 63 \<le> uint w" using s bound by (cases "2 ^ 63 \<le> uint w") simp_all
  moreover have "2 ^ 63 \<le> uint w \<longleftrightarrow> 2 ^ 63 \<le> unat w"
    using of_nat_le_iff[of "2 ^ 63" "unat w", where 'a = int] by simp
  ultimately show ?thesis by (simp only:)
qed

lemma gas_limit_diff_nat:
  assumes "unat a < 2 ^ 63" "unat b < 2 ^ 63"
  shows "unat (gas_limit_diff a b) = (if unat b \<le> unat a then unat a - unat b else unat b - unat a)"
proof (cases "unat b \<le> unat a")
  case True
  then have d: "unat (a - b) = unat a - unat b" by (simp add: unat_sub_if')
  then have "\<not> sint (a - b) < 0" using assms unfolding sint_neg_iff by linarith
  with d True show ?thesis by (simp add: gas_limit_diff_def Let_def)
next
  case False
  then have d: "unat (b - a) = unat b - unat a" "unat (a - b) = unat a + 2 ^ 64 - unat b" by (simp_all add: unat_sub_if')
  then have "sint (a - b) < 0" using assms unfolding sint_neg_iff by simp
  with d(1) False show ?thesis by (simp add: gas_limit_diff_def Let_def)
qed

lemma CalcGasLimit_nat:
  assumes L: "unat MinGasLimit \<le> unat (h_GasLimit p)" "unat (h_GasLimit p) < 2 ^ 62" and U: "unat (h_GasUsed p) \<le> unat (h_GasLimit p)"
    and l_def: "l = unat (CalcGasLimit target p)" and q_def: "q = unat (h_GasLimit p) div 512"
  shows "unat MinGasLimit \<le> l" "l < unat (h_GasLimit p) + q" "unat (h_GasLimit p) < l + q"
proof -
  let ?L = "unat (h_GasLimit p)" and ?U = "unat (h_GasUsed p)"
  have q: "390625 \<le> q" "512 * q \<le> ?L" "?L < 512 * q + 512" using L(1) by (simp_all add: q_def MinGasLimit_def)
  have decay: "unat (h_GasLimit p div GasLimitBoundDivisor - 1) = q - 1"
    using q(1) by (simp add: GasLimitBoundDivisor_def unat_sub_if' unat_div q_def)
  have sum: "unat (h_GasUsed p + h_GasUsed p div 2) = ?U + ?U div 2"
    using U L(2) by (subst unat_add_lem[THEN iffD1]) (simp_all add: unat_div)
  define c where "c = (?U + ?U div 2) div 512"
  have contrib: "unat ((h_GasUsed p + h_GasUsed p div 2) div GasLimitBoundDivisor) = c"
    by (simp add: GasLimitBoundDivisor_def unat_div sum c_def)
  have "512 * c \<le> ?U + ?U div 2" by (simp add: c_def)
  then have c: "2 * (512 * c) \<le> 3 * ?L" using U by linarith
  define l0 where "l0 = h_GasLimit p - (h_GasLimit p div GasLimitBoundDivisor - 1) + (h_GasUsed p + h_GasUsed p div 2) div GasLimitBoundDivisor"
  have sub: "unat (h_GasLimit p - (h_GasLimit p div GasLimitBoundDivisor - 1)) = ?L - (q - 1)"
    using decay q by (simp add: unat_sub_if')
  have l0: "unat l0 = ?L - (q - 1) + c"
    unfolding l0_def using sub contrib c q L(2) by (subst unat_add_lem[THEN iffD1]) simp_all
  have l2: "unat (h_GasLimit p + (h_GasLimit p div GasLimitBoundDivisor - 1)) = ?L + (q - 1)"
    using decay q L(2) by (subst unat_add_lem[THEN iffD1]) simp_all
  have l: "CalcGasLimit target p = (let limit1 = (if l0 < MinGasLimit then MinGasLimit else l0) in
      if limit1 < target then (let limit2 = h_GasLimit p + (h_GasLimit p div GasLimitBoundDivisor - 1) in
        if target < limit2 then target else limit2) else limit1)"
    by (simp add: CalcGasLimit_def l0_def Let_def)
  have cases: "l = unat MinGasLimit \<and> unat l0 < unat MinGasLimit \<or> l = unat l0 \<and> unat MinGasLimit \<le> unat l0 \<or>
      (unat l0 < l \<and> unat MinGasLimit < l \<and> l \<le> ?L + (q - 1)) \<or> l = ?L + (q - 1)"
    unfolding l_def l Let_def by (auto simp: word_less_nat_alt not_less l2)
  show "unat MinGasLimit \<le> l" "l < ?L + q" "?L < l + q" using cases l0 c q L(1) by linarith+
qed

text \<open>C33: the gas limit a producer puts into its block against the check of the gas limit by the verifiers. Let the
  limit of the parent be at least \<open>MinGasLimit\<close> and below \<open>2 ^ 62\<close>, its gas used at most its limit, and the rest of the
  header be in order. Then, for any target, the produced limit lies between \<open>MinGasLimit\<close> and \<open>MaxGasLimit\<close>, and the header is
  accepted exactly when the limit of the parent is less than a 512th of itself above \<open>MaxGasLimit\<close>; in particular after
  every block whose limit was within the two bounds. After a parent further above \<open>MaxGasLimit\<close>, such as a genesis
  block of 400 million, the limit that has been cut off is too far from the parent's and every block a producer makes is
  refused. A parent below \<open>MinGasLimit\<close> is not covered.\<close>

theorem calculated_gas_limit_accepted:
  assumes "MinGasLimit \<le> h_GasLimit parent" "unat (h_GasLimit parent) < 2 ^ 62" "h_GasUsed parent \<le> h_GasLimit parent"
    and "h_GasLimit header = produced_gasLimit target parent" "h_GasUsed header \<le> h_GasLimit header"
    and "length (h_Extra header) \<le> 16" "h_Time parent < h_Time header" "h_Time header \<le> now + 15" "h_Number header = h_Number parent + 1"
  shows "verifyHeader now header parent =
      (if unat (h_GasLimit parent) < unat MaxGasLimit + unat (h_GasLimit parent) div 512 then None else Some GasLimitBounds) \<and>
    MinGasLimit \<le> h_GasLimit header \<and> h_GasLimit header \<le> MaxGasLimit"
proof -
  let ?L = "unat (h_GasLimit parent)" and ?p = "unat (h_GasLimit header)"
  define l where "l = unat (CalcGasLimit target parent)"
  have l: "unat MinGasLimit \<le> l" "l < ?L + ?L div 512" "?L < l + ?L div 512"
    using CalcGasLimit_nat[OF _ _ _ refl refl, of parent target] assms(1-3) by (simp_all add: word_le_nat_alt l_def)
  have p: "?p = min l (unat MaxGasLimit)"
    by (simp add: assms(4) produced_gasLimit_def Let_def l_def word_less_nat_alt min_def)
  have bounds: "unat MinGasLimit \<le> ?p" "?p \<le> unat MaxGasLimit" using l(1) p by (simp_all add: MinGasLimit_def MaxGasLimit_def)
  have small: "?p < 2 ^ 63" "?L < 2 ^ 63" using bounds(2) assms(2) by (simp_all add: MaxGasLimit_def)
  have "?L div 512 \<le> unat (gas_limit_diff (h_GasLimit parent) (h_GasLimit header)) \<longleftrightarrow> \<not> ?L < unat MaxGasLimit + ?L div 512"
    unfolding gas_limit_diff_nat[OF small(2,1)] p using l(2,3) by (simp only: min_def split: if_split) linarith
  then have diff: "h_GasLimit parent div GasLimitBoundDivisor \<le> gas_limit_diff (h_GasLimit parent) (h_GasLimit header) \<longleftrightarrow>
      \<not> ?L < unat MaxGasLimit + ?L div 512"
    by (simp add: word_le_nat_alt unat_div GasLimitBoundDivisor_def)
  have "\<not> 0x7fffffffffffffff < h_GasLimit header" using small(1) by (simp add: word_less_nat_alt)
  moreover have "\<not> MaximumExtraDataSize < of_nat (length (h_Extra header))"
    using assms(6) by (simp add: MaximumExtraDataSize_def word_less_nat_alt unat_of_nat)
  moreover have "MinGasLimit \<le> h_GasLimit header" "h_GasLimit header \<le> MaxGasLimit" using bounds by (simp_all add: word_le_nat_alt)
  ultimately show ?thesis
    using assms(5,7-9) by (simp add: verifyHeader_def allowedFutureBlockTime_def diff leD)
qed

theorem calculated_gas_limit_accepted_witness:
  "verifyHeader 20 (child_header\<lparr>h_GasLimit := produced_gasLimit 250000000 genesis_header\<rparr>) genesis_header = None \<and>
   verifyHeader 20 (child_header\<lparr>h_GasLimit := produced_gasLimit 250000000 (genesis_header\<lparr>h_GasLimit := 400000000\<rparr>)\<rparr>)
     (genesis_header\<lparr>h_GasLimit := 400000000\<rparr>) = Some GasLimitBounds \<and>
   produced_gasLimit 250000000 genesis_header = 200390624"
proof (intro conjI)
  show "produced_gasLimit 250000000 genesis_header = 200390624" by code_simp
  let ?g = "genesis_header\<lparr>h_GasLimit := 400000000\<rparr>"
  have p: "MinGasLimit \<le> h_GasLimit g \<and> unat (h_GasLimit g) < 2 ^ 62 \<and> h_GasUsed g \<le> h_GasLimit g" if "g = genesis_header \<or> g = ?g" for g
    using that by (auto simp: MinGasLimit_def genesis_header_def)
  note rest = calculated_gas_limit_accepted[THEN conjunct1, of g "child_header\<lparr>h_GasLimit := produced_gasLimit 250000000 g\<rparr>" 250000000 20 for g]
  show "verifyHeader 20 (child_header\<lparr>h_GasLimit := produced_gasLimit 250000000 genesis_header\<rparr>) genesis_header = None"
    using rest[of genesis_header] p[of genesis_header] by (simp add: child_header_def genesis_header_def MaxGasLimit_def)
  show "verifyHeader 20 (child_header\<lparr>h_GasLimit := produced_gasLimit 250000000 ?g\<rparr>) ?g = Some GasLimitBounds"
    using rest[of ?g] p[of ?g] by (simp add: child_header_def genesis_header_def MaxGasLimit_def)
qed

end
