(* ===== verification/Dpos_Quorum.thy ===== *)
theory Dpos_Quorum
  imports Dpos_Headers Vote_Counting
begin

text \<open>
  Blocks of the round: who may produce a block and how many delegates must have signed it,
  \<open>VerifyHeaderAndSign\<close>, \<open>VerifySignatureSend\<close> and \<open>VerifyBlockGenerate\<close> of
  \<open>consensus/dpos/dpos_consensus.go\<close>. The recovery of a public key from a signature is a parameter,
  composed with the address of the key; \<open>None\<close> is an error of the recovery, which leaves the key nil.
  A result \<open>None\<close> of a check is a panic. The number of delegates of the configuration is not negative.
\<close>

section \<open>Blocks and rounds\<close>

record ShuffleDel =
  sd_WorkTime :: uint64
  sd_Address :: string
  sd_Vote :: uint64
  sd_Nickname :: string

type_synonym ShuffleList = "ShuffleDel list"

record VoteSign =
  vs_Sign :: "byte list"
  vs_VoteAction :: uint64

record Block =
  b_header :: Header
  b_Signature :: "byte list"
  b_RlpEncodeSigns :: "byte list"

datatype block_error = BlockExpired | UnknownAncestor | HeaderError header_error | MissSignature | NotInShuffleList
  | TimeNotSame | SignAddressError | NotEnoughSigns | SignsUndecodable | RecoverError

text \<open>What the checks use of cryptography and of the codec.\<close>

record signing =
  sg_sha3 :: "string \<Rightarrow> byte list"
  sg_recover :: "hash \<Rightarrow> byte list \<Rightarrow> address option"
  sg_decode :: "byte list \<Rightarrow> VoteSign list option"

text \<open>\<open>strings.EqualFold\<close> on ASCII texts.\<close>

definition EqualFold :: "string \<Rightarrow> string \<Rightarrow> bool" where
  "EqualFold s t \<longleftrightarrow> map lower s = map lower t"

fun find_delegate :: "ShuffleList \<Rightarrow> string \<Rightarrow> ShuffleDel option" where
  "find_delegate [] coinbase = None"
| "find_delegate (v # vs) coinbase = (if EqualFold (sd_Address v) coinbase then Some v else find_delegate vs coinbase)"

fun checkInShuffleList :: "ShuffleList \<Rightarrow> string \<Rightarrow> bool" where
  "checkInShuffleList [] a = False"
| "checkInShuffleList (v # vs) a = (if EqualFold (sd_Address v) a then True else checkInShuffleList vs a)"

definition VerifyHeaderAndSign ::
  "signing \<Rightarrow> ChainReader \<Rightarrow> int \<Rightarrow> Block \<Rightarrow> ShuffleList \<Rightarrow> int \<Rightarrow> block_error option option" where
  "VerifyHeaderAndSign sg chain currentTime block currentShuffleList blockInterval =
     (let header = b_header block;
          parent = GetHeader chain (h_ParentHash header) (of_int (h_Number header) - 1);
          blockTime = of_int (h_Time header) :: uint64 in
      if currentTime < sint blockTime \<or> sint (blockTime + of_int blockInterval) \<le> currentTime then Some (Some BlockExpired)
      else case parent of
        None \<Rightarrow> Some (Some UnknownAncestor)
      | Some p \<Rightarrow>
          (case verifyHeader currentTime header p of
             Some e \<Rightarrow> Some (Some (HeaderError e))
           | None \<Rightarrow>
               (let coinbase = Hex (sg_sha3 sg) (h_Coinbase header) in
                if b_Signature block = [] then Some (Some MissSignature)
                else case find_delegate currentShuffleList coinbase of
                  None \<Rightarrow> Some (Some NotInShuffleList)
                | Some delegate \<Rightarrow>
                    if blockTime \<noteq> sd_WorkTime delegate then Some (Some TimeNotSame)
                    else case sg_recover sg (header_Hash chain header) (b_Signature block) of
                      None \<Rightarrow> None
                    | Some signer \<Rightarrow>
                        if EqualFold (Hex (sg_sha3 sg) signer) coinbase then Some None else Some (Some SignAddressError))))"

definition VerifySignatureSend :: "signing \<Rightarrow> hash \<Rightarrow> byte list \<Rightarrow> ShuffleList \<Rightarrow> block_error option" where
  "VerifySignatureSend sg blockHash confirmSign currentShuffleList =
     (case sg_recover sg blockHash confirmSign of
        None \<Rightarrow> Some RecoverError
      | Some signer \<Rightarrow>
          if checkInShuffleList currentShuffleList (Hex (sg_sha3 sg) signer) then None else Some NotInShuffleList)"

text \<open>The loop over the signatures: a map from the texts of the signers.\<close>

fun collect_signers :: "signing \<Rightarrow> hash \<Rightarrow> ShuffleList \<Rightarrow> VoteSign list \<Rightarrow> string set \<Rightarrow> string set option" where
  "collect_signers sg h sl [] m = Some m"
| "collect_signers sg h sl (sign # signs) m =
     (case sg_recover sg h (vs_Sign sign) of
        None \<Rightarrow> None
      | Some signer \<Rightarrow>
          (let a = Hex (sg_sha3 sg) signer in
           collect_signers sg h sl signs (if checkInShuffleList sl a then insert a m else m)))"

definition VerifyBlockGenerate ::
  "signing \<Rightarrow> ChainReader \<Rightarrow> int \<Rightarrow> int \<Rightarrow> Block \<Rightarrow> ShuffleList \<Rightarrow> int \<Rightarrow> block_error option option" where
  "VerifyBlockGenerate sg chain maxElectDelegate currentTime block currentShuffleList blockInterval =
     (let delegateAmount = maxElectDelegate div 3 * 2 in
      case VerifyHeaderAndSign sg chain currentTime block currentShuffleList blockInterval of
        None \<Rightarrow> None
      | Some (Some e) \<Rightarrow> Some (Some e)
      | Some None \<Rightarrow>
          (case sg_decode sg (b_RlpEncodeSigns block) of
             None \<Rightarrow> Some (Some SignsUndecodable)
           | Some signs \<Rightarrow>
               (case collect_signers sg (header_Hash chain (b_header block)) currentShuffleList signs {} of
                  None \<Rightarrow> None
                | Some m \<Rightarrow> if delegateAmount < int (card m) then Some None else Some (Some NotEnoughSigns))))"

section \<open>Signers\<close>

lemma checkInShuffleList_iff: "checkInShuffleList sl a \<longleftrightarrow> (\<exists>v\<in>set sl. EqualFold (sd_Address v) a)"
  by (induction sl) auto

text \<open>The delegates of the round that signed a block.\<close>

definition round_signers :: "signing \<Rightarrow> hash \<Rightarrow> ShuffleList \<Rightarrow> VoteSign list \<Rightarrow> address set" where
  "round_signers sg h sl signs = {a. (\<exists>x\<in>set signs. sg_recover sg h (vs_Sign x) = Some a) \<and>
     checkInShuffleList sl (Hex (sg_sha3 sg) a)}"

lemma collect_signers_eq:
  "collect_signers sg h sl signs m = Some r \<Longrightarrow> r = m \<union> Hex (sg_sha3 sg) ` round_signers sg h sl signs"
proof (induction signs arbitrary: m)
  case Nil
  then show ?case by (simp add: round_signers_def)
next
  case (Cons x signs)
  then obtain a where a: "sg_recover sg h (vs_Sign x) = Some a" by (auto split: option.splits)
  have "round_signers sg h sl (x # signs) = round_signers sg h sl signs \<union> (if checkInShuffleList sl (Hex (sg_sha3 sg) a) then {a} else {})"
    using a by (auto simp: round_signers_def)
  with Cons.IH[of "if checkInShuffleList sl (Hex (sg_sha3 sg) a) then insert (Hex (sg_sha3 sg) a) m else m"] Cons.prems a
  show ?case by (auto simp: Let_def)
qed

lemma collect_signers_total:
  "\<forall>x\<in>set signs. sg_recover sg h (vs_Sign x) \<noteq> None \<Longrightarrow> collect_signers sg h sl signs m \<noteq> None"
  by (induction signs arbitrary: m) (auto simp: Let_def)

lemma Hex_texts [simp]: "EqualFold (Hex sha3 a) (Hex sha3 b) \<longleftrightarrow> a = b" "Hex sha3 a = Hex sha3 b \<longleftrightarrow> a = b"
  using lower_Hex_inject by (auto simp: EqualFold_def) metis

lemma Hex_card: "card (Hex sha3 ` A) = card A"
  by (rule card_image) (metis inj_onI lower_Hex_inject)

text \<open>Each of them is one of the entries of the list.\<close>

lemma round_signers_bound:
  "finite (round_signers sg h sl signs)"
  "\<exists>C. finite C \<and> card C \<le> length sl \<and> (\<forall>h signs. round_signers sg h sl signs \<subseteq> C)"
proof -
  have "round_signers sg h sl signs \<subseteq> (\<lambda>x. the (sg_recover sg h (vs_Sign x))) ` set signs"
    by (auto simp: round_signers_def image_iff) (metis option.sel)
  then show "finite (round_signers sg h sl signs)" by (rule finite_subset) simp
  let ?C = "{a. checkInShuffleList sl (Hex (sg_sha3 sg) a)}"
  let ?f = "\<lambda>a. map lower (Hex (sg_sha3 sg) a)"
  have inj: "inj_on ?f ?C" by (rule inj_onI) (simp add: lower_Hex_inject)
  have sub: "?f ` ?C \<subseteq> set (map (\<lambda>v. map lower (sd_Address v)) sl)"
    by (auto simp: checkInShuffleList_iff EqualFold_def image_iff) metis
  then have fin: "finite (?f ` ?C)" by (rule finite_subset) simp
  have "card ?C = card (?f ` ?C)" using card_image[OF inj] by simp
  also have "\<dots> \<le> card (set (map (\<lambda>v. map lower (sd_Address v)) sl))" by (rule card_mono[OF _ sub]) simp
  also have "\<dots> \<le> length sl" using card_length[of "map (\<lambda>v. map lower (sd_Address v)) sl"] by simp
  finally show "\<exists>C. finite C \<and> card C \<le> length sl \<and> (\<forall>h signs. round_signers sg h sl signs \<subseteq> C)"
    using finite_imageD[OF fin inj] by (intro exI[of _ ?C]) (auto simp: round_signers_def)
qed

lemma accepted_signers:
  assumes "VerifyBlockGenerate sg chain mx now b sl ivl = Some None"
  shows "\<exists>signs. sg_decode sg (b_RlpEncodeSigns b) = Some signs \<and>
    mx div 3 * 2 < int (card (round_signers sg (header_Hash chain (b_header b)) sl signs))"
proof -
  obtain signs m where s: "sg_decode sg (b_RlpEncodeSigns b) = Some signs"
    "collect_signers sg (header_Hash chain (b_header b)) sl signs {} = Some m" "mx div 3 * 2 < int (card m)"
    using assms by (auto simp: VerifyBlockGenerate_def Let_def split: option.splits if_splits)
  with collect_signers_eq[OF s(2)] show ?thesis by (simp add: Hex_card)
qed

text \<open>C34: two blocks that pass \<open>VerifyBlockGenerate\<close> in the same round, at whatever times, were signed by
  delegates in common. With \<open>q\<close> the third of the number of delegates rounded down and \<open>r\<close> the remainder, there are at
  least \<open>q + 2 - r\<close> of them: 33 of the main net's 101 delegates, one of 5, and none of 2. If fewer than that many
  delegates ever sign two different blocks of a round, no two of them are accepted.\<close>

theorem quorums_intersect:
  assumes "int (length sl) \<le> mx"
    and "VerifyBlockGenerate sg chain mx now1 b1 sl ivl = Some None" "VerifyBlockGenerate sg chain mx now2 b2 sl ivl = Some None"
  shows "\<exists>signs1 signs2 A. sg_decode sg (b_RlpEncodeSigns b1) = Some signs1 \<and> sg_decode sg (b_RlpEncodeSigns b2) = Some signs2 \<and>
    mx div 3 + 2 - mx mod 3 \<le> int (card A) \<and>
    (\<forall>a\<in>A. checkInShuffleList sl (Hex (sg_sha3 sg) a) \<and>
      (\<exists>x\<in>set signs1. sg_recover sg (header_Hash chain (b_header b1)) (vs_Sign x) = Some a) \<and>
      (\<exists>x\<in>set signs2. sg_recover sg (header_Hash chain (b_header b2)) (vs_Sign x) = Some a))"
proof -
  obtain signs1 signs2 where s: "sg_decode sg (b_RlpEncodeSigns b1) = Some signs1" "sg_decode sg (b_RlpEncodeSigns b2) = Some signs2"
    and c: "mx div 3 * 2 < int (card (round_signers sg (header_Hash chain (b_header b1)) sl signs1))"
      "mx div 3 * 2 < int (card (round_signers sg (header_Hash chain (b_header b2)) sl signs2))"
    using accepted_signers[OF assms(2)] accepted_signers[OF assms(3)] by blast
  let ?R = "\<lambda>b signs. round_signers sg (header_Hash chain (b_header b)) sl signs"
  let ?A = "?R b1 signs1 \<inter> ?R b2 signs2"
  obtain C where C: "finite C" "card C \<le> length sl" "\<And>h signs. round_signers sg h sl signs \<subseteq> C"
    using round_signers_bound(2)[of sl sg] by blast
  have fin: "finite (?R b1 signs1)" "finite (?R b2 signs2)" using round_signers_bound(1) by blast+
  have "card (?R b1 signs1 \<union> ?R b2 signs2) \<le> card C" using C by (intro card_mono) auto
  then have "int (card (?R b1 signs1)) + int (card (?R b2 signs2)) \<le> int (card ?A) + mx"
    using card_Un_Int[OF fin] C(2) assms(1) by linarith
  moreover have "mx = 3 * (mx div 3) + mx mod 3" by simp
  ultimately have "mx div 3 + 2 - mx mod 3 \<le> int (card ?A)" using c by linarith
  then show ?thesis using s by (intro exI[of _ signs1] exI[of _ signs2] exI[of _ ?A]) (auto simp: round_signers_def)
qed

text \<open>Three delegates, all of which signed two blocks; a signature is the last byte of an address.\<close>

definition signing0 :: signing where
  "signing0 = \<lparr>sg_sha3 = (\<lambda>_. replicate 32 0), sg_recover = (\<lambda>h s. case s of [] \<Rightarrow> None | b # _ \<Rightarrow> Some (ucast b)),
     sg_decode = (\<lambda>bs. Some (map (\<lambda>b. \<lparr>vs_Sign = [b], vs_VoteAction = 0\<rparr>) bs))\<rparr>"

definition round0 :: ShuffleList where
  "round0 = map (\<lambda>a. \<lparr>sd_WorkTime = 20, sd_Address = Hex (\<lambda>_. replicate 32 0) a, sd_Vote = 0, sd_Nickname = []\<rparr>) [5, 6, 7]"

definition signed_block :: "byte list \<Rightarrow> Block" where
  "signed_block extra = \<lparr>b_header = child_header\<lparr>h_Coinbase := 5, h_Extra := extra\<rparr>, b_Signature = [5], b_RlpEncodeSigns = [7, 5, 6]\<rparr>"

theorem quorums_intersect_witness:
  "VerifyBlockGenerate signing0 one_block_chain 3 20 (signed_block []) round0 10 = Some None \<and>
   VerifyBlockGenerate signing0 one_block_chain 3 25 (signed_block [1]) round0 10 = Some None \<and>
   (\<exists>A :: address set. 3 \<le> card A \<and> (\<forall>a\<in>A. checkInShuffleList round0 (Hex (sg_sha3 signing0) a)))"
proof -
  have header: "verifyHeader 20 (child_header\<lparr>h_Coinbase := 5, h_Extra := []\<rparr>) genesis_header = None"
    "verifyHeader 25 (child_header\<lparr>h_Coinbase := 5, h_Extra := [1]\<rparr>) genesis_header = None" by code_simp+
  have child: "h_Time child_header = 20" "h_ParentHash child_header = 7" "h_Number child_header = 1"
    by (simp_all add: child_header_def)
  have b: "VerifyBlockGenerate signing0 one_block_chain 3 20 (signed_block []) round0 10 = Some None"
    "VerifyBlockGenerate signing0 one_block_chain 3 25 (signed_block [1]) round0 10 = Some None"
    by (simp_all add: VerifyBlockGenerate_def VerifyHeaderAndSign_def signed_block_def signing0_def round0_def one_block_chain_def
        header child Let_def)
  have "int (length round0) \<le> 3" by (simp add: round0_def)
  from quorums_intersect[OF this b] obtain A where "3 \<le> int (card A)" "\<forall>a\<in>A. checkInShuffleList round0 (Hex (sg_sha3 signing0) a)"
    by auto
  with b show ?thesis by (intro conjI exI[of _ A]) simp_all
qed

text \<open>A signature from which no key can be recovered makes the check of the block panic: the error of
  the recovery is not looked at, and the address of a nil key is taken.\<close>

lemma malformed_signature_panics:
  assumes "VerifyHeaderAndSign sg chain now b sl ivl = Some None" "sg_decode sg (b_RlpEncodeSigns b) = Some signs"
    and "x \<in> set signs" "sg_recover sg (header_Hash chain (b_header b)) (vs_Sign x) = None"
  shows "VerifyBlockGenerate sg chain mx now b sl ivl = None"
proof -
  have "collect_signers sg (header_Hash chain (b_header b)) sl signs m = None" for m
    using assms(3,4) by (induction signs arbitrary: m) (auto simp: Let_def split: option.splits)
  then show ?thesis using assms(1,2) by (simp add: VerifyBlockGenerate_def Let_def)
qed

end
