(* ===== verification/Shuffle_Round.thy ===== *)
theory Shuffle_Round
  imports Dpos_Quorum "HOL-Library.Multiset"
begin

text \<open>
  The order in which the delegates produce blocks, \<open>util/shuffle.go\<close>, with what it uses of
  \<open>crypto/sha256\<close> and \<open>strconv\<close>. The seed of a round is computed from its time
  through \<open>float64\<close>: there times are integers of at most \<open>2 ^ 53\<close>, which \<open>float64\<close> represents exactly. The search for
  the round of a block is on \<open>int64\<close>: words, compared as signed. The theory shows that every
  elected delegate gets exactly one slot of a round, and that the loops that look for the beginning of the
  round of a block end with it.
\<close>

unbundle bit_operations_syntax

section \<open>SHA-256\<close>

type_synonym w32 = "32 word"

text \<open>The constants are the first 32 bits of the fractional parts of the square and cube roots of the first
  primes: \<open>root_bits k n\<close> finds the greatest \<open>r\<close> of \<open>n\<close> bits with \<open>r ^ k \<le> x\<close>, from the highest bit on.\<close>

primrec root_bits :: "nat \<Rightarrow> nat \<Rightarrow> int \<Rightarrow> int \<Rightarrow> int" where
  "root_bits k 0 x r = r"
| "root_bits k (Suc n) x r = root_bits k n x (if (r + 2 ^ n) ^ k \<le> x then r + 2 ^ n else r)"

definition root_fraction :: "nat \<Rightarrow> nat \<Rightarrow> w32" where
  "root_fraction k p = of_int (root_bits k 37 (int p * 2 ^ (32 * k)) 0)"

definition first_primes :: "nat list" where
  "first_primes = filter (\<lambda>p. list_all (\<lambda>d. p mod d \<noteq> 0) [2..<p]) [2..<312]"

definition sha_K :: "w32 list" where
  "sha_K = map (root_fraction 3) first_primes"

definition sha_init :: "w32 list" where
  "sha_init = map (root_fraction 2) (take 8 first_primes)"

definition rotr :: "nat \<Rightarrow> w32 \<Rightarrow> w32" where
  "rotr n x = drop_bit n x OR push_bit (32 - n) x"

fun be_words :: "byte list \<Rightarrow> w32 list" where
  "be_words (a # b # c # d # bs) =
     (push_bit 24 (ucast a) OR push_bit 16 (ucast b) OR push_bit 8 (ucast c) OR ucast d) # be_words bs"
| "be_words bs = []"

text \<open>The message, a one bit, zeros up to eight bytes before a multiple of 64, and the length in bits.\<close>

definition sha_pad :: "byte list \<Rightarrow> byte list" where
  "sha_pad m = m @ 0x80 # replicate ((119 - length m mod 64) mod 64) 0
     @ be_bytes 8 (8 * length m)"

text \<open>The schedule is built newest word first.\<close>

primrec sha_schedule :: "nat \<Rightarrow> w32 list \<Rightarrow> w32 list" where
  "sha_schedule 0 w = w"
| "sha_schedule (Suc k) w =
     (let a = w ! 1; b = w ! 14;
          s1 = rotr 17 a XOR rotr 19 a XOR drop_bit 10 a;
          s0 = rotr 7 b XOR rotr 18 b XOR drop_bit 3 b in
      sha_schedule k ((s1 + w ! 6 + s0 + w ! 15) # w))"

fun sha_round :: "w32 \<times> w32 \<Rightarrow> w32 list \<Rightarrow> w32 list" where
  "sha_round (k, w) [a, b, c, d, e, f, g, h] =
     (let t1 = h + (rotr 6 e XOR rotr 11 e XOR rotr 25 e) + ((e AND f) XOR (NOT e AND g)) + k + w;
          t2 = (rotr 2 a XOR rotr 13 a XOR rotr 22 a) + ((a AND b) XOR (a AND c) XOR (b AND c)) in
      [t1 + t2, a, b, c, d + t1, e, f, g])"
| "sha_round _ s = s"

definition sha_block :: "w32 list \<Rightarrow> w32 list \<Rightarrow> w32 list" where
  "sha_block s ws = map2 (+) s (fold sha_round (zip sha_K (rev (sha_schedule 48 (rev ws)))) s)"

fun sha_blocks :: "nat \<Rightarrow> w32 list \<Rightarrow> w32 list \<Rightarrow> w32 list" where
  "sha_blocks 0 s ws = s"
| "sha_blocks (Suc k) s ws = sha_blocks k (sha_block s (take 16 ws)) (drop 16 ws)"

definition sha256 :: "byte list \<Rightarrow> byte list" where
  "sha256 m =
     (let ws = be_words (sha_pad m) in
      concat (map (\<lambda>w. be_bytes 4 (unat w)) (sha_blocks (length ws div 16) sha_init ws)))"

section \<open>FormatFloat\<close>

function decimal :: "nat \<Rightarrow> string" where
  "decimal n = (if n < 10 then [char_of (48 + n)] else decimal (n div 10) @ [char_of (48 + n mod 10)])"
  by pat_completeness auto
termination
  by (relation "measure id") auto

declare decimal.simps [simp del]

text \<open>The shortest text in format \<open>E\<close> of an integer that \<open>float64\<close> represents exactly: the digits up to the last
  that is not zero, and an exponent of at least two digits.\<close>

definition FormatFloat :: "int \<Rightarrow> string" where
  "FormatFloat x =
     (let ds = decimal (nat \<bar>x\<bar>);
          sig = rev (dropWhile (\<lambda>c. c = CHR ''0'') (rev (tl ds)));
          ex = decimal (length ds - 1) in
      (if x < 0 then ''-'' else []) @ hd ds # (if sig = [] then [] else CHR ''.'' # sig)
        @ ''E+'' @ (if length ex < 2 then CHR ''0'' # ex else ex))"

section \<open>Shuffle\<close>

definition swap_at :: "nat \<Rightarrow> nat \<Rightarrow> 'a list \<Rightarrow> 'a list" where
  "swap_at i j xs = xs[i := xs ! j, j := xs ! i]"

text \<open>The inner loop swaps four places with the first four characters of the digest; the outer loop
  steps over one more place each time.\<close>

function shuffle_inner :: "string \<Rightarrow> nat \<Rightarrow> nat \<Rightarrow> nat \<Rightarrow> nat list \<Rightarrow> nat \<times> nat list" where
  "shuffle_inner seed n x i l =
     (if x < 4 \<and> i < n
      then shuffle_inner seed n (x + 1) (i + 1) (swap_at (of_char (seed ! x) mod n) i l)
      else (i, l))"
  by pat_completeness auto
termination
  by (relation "measure (\<lambda>(seed, n, x, i, l). 4 - x)") auto

declare shuffle_inner.simps [simp del]

lemma shuffle_inner_grows: "i \<le> fst (shuffle_inner seed n x i l)"
proof (induction seed n x i l rule: shuffle_inner.induct)
  case (1 seed n x i l)
  then show ?case by (subst shuffle_inner.simps) (auto dest: Suc_leD)
qed

function shuffle_outer :: "string \<Rightarrow> nat \<Rightarrow> nat \<Rightarrow> nat list \<Rightarrow> nat list" where
  "shuffle_outer seed n i l =
     (if i < n then (let (i1, l1) = shuffle_inner seed n 0 i l in shuffle_outer seed n (i1 + 1) l1) else l)"
  by pat_completeness auto
termination
  by (relation "measure (\<lambda>(seed, n, i, l). n - i)")
    (auto dest: sym intro: le_less_trans[OF diff_le_mono2] simp: prod_eq_iff less_Suc_eq_le,
     metis diff_less_mono2 fst_conv le_imp_less_Suc shuffle_inner_grows)

declare shuffle_outer.simps [simp del]

text \<open>\<open>Shuffle\<close>. \<open>None\<close> is the division by zero when there are no delegates; division truncates.\<close>

definition Shuffle :: "int \<Rightarrow> int \<Rightarrow> nat list option" where
  "Shuffle height delegateNumber =
     (if delegateNumber = 0 then None
      else
        (let quotient = sgn height * sgn delegateNumber * (\<bar>height\<bar> div \<bar>delegateNumber\<bar>);
             seed = quotient + (if 0 < height - quotient * delegateNumber then 1 else 0);
             currentSend = EncodeToString (sha256 (map of_char (FormatFloat seed)));
             delCount = nat delegateNumber in
         Some (shuffle_outer currentSend delCount 0 [0..<delCount])))"

definition ShuffleNewRound :: "int \<Rightarrow> int \<Rightarrow> Candidate list \<Rightarrow> int \<Rightarrow> ShuffleDel list option" where
  "ShuffleNewRound beginTime maxElectDelegate currentDposList blockInterval =
     (let m = (if int (length currentDposList) < maxElectDelegate then int (length currentDposList)
               else maxElectDelegate) in
      map_option (\<lambda>l. map (\<lambda>index.
          let c = currentDposList ! (l ! index) in
          \<lparr>sd_WorkTime = of_int (beginTime + int index * blockInterval), sd_Address = c_Address c, sd_Vote = c_Vote c,
           sd_Nickname = c_Nickname c\<rparr>) [0..<nat m])
        (Shuffle (beginTime + 1) m))"

section \<open>The beginning of a round\<close>

text \<open>The two loops of \<open>CalShuffleTimeByHeaderTime\<close> on \<open>int64\<close>, with wrap-around; \<open>None\<close> is a loop that does
  not end. The clock is a parameter.\<close>

partial_function (option) rounds_after :: "uint64 \<Rightarrow> uint64 \<Rightarrow> uint64 \<Rightarrow> uint64 \<Rightarrow> uint64 \<Rightarrow> uint64 \<Rightarrow> uint64 option" where
  "rounds_after nextRoundBeginTime blockTime blockInterval maxElectDelegate nowUnix cnt =
     (let shuffleTime = nextRoundBeginTime + cnt * maxElectDelegate * blockInterval in
      if sint shuffleTime \<le> sint blockTime \<and> sint blockTime < sint (shuffleTime + maxElectDelegate * blockInterval)
      then Some shuffleTime
      else if sint nowUnix \<le> sint shuffleTime then Some 0
      else rounds_after nextRoundBeginTime blockTime blockInterval maxElectDelegate nowUnix (cnt + 1))"

partial_function (option) rounds_before :: "uint64 \<Rightarrow> uint64 \<Rightarrow> uint64 \<Rightarrow> uint64 \<Rightarrow> uint64 \<Rightarrow> uint64 option" where
  "rounds_before nextRoundBeginTime blockTime blockInterval maxElectDelegate cnt =
     (let shuffleTime = nextRoundBeginTime - cnt * maxElectDelegate * blockInterval in
      if sint shuffleTime \<le> sint blockTime then Some shuffleTime
      else if sint shuffleTime \<le> 0 then Some 0
      else rounds_before nextRoundBeginTime blockTime blockInterval maxElectDelegate (cnt + 1))"

declare rounds_after.simps [code] rounds_before.simps [code]

definition CalShuffleTimeByHeaderTime :: "uint64 \<Rightarrow> uint64 \<Rightarrow> uint64 \<Rightarrow> uint64 \<Rightarrow> uint64 \<Rightarrow> uint64 option" where
  "CalShuffleTimeByHeaderTime nowUnix nextRoundBeginTime blockTime blockInterval maxElectDelegate =
     (if nextRoundBeginTime = blockTime then Some nextRoundBeginTime
      else if sint nextRoundBeginTime < sint blockTime
      then rounds_after nextRoundBeginTime blockTime blockInterval maxElectDelegate nowUnix 0
      else rounds_before nextRoundBeginTime blockTime blockInterval maxElectDelegate 0)"

section \<open>Shuffling permutes\<close>

lemma swap_at_mset: "i < length xs \<Longrightarrow> j < length xs \<Longrightarrow> mset (swap_at i j xs) = mset xs"
  by (simp add: swap_at_def mset_swap)

lemma length_swap_at [simp]: "length (swap_at i j xs) = length xs"
  by (simp add: swap_at_def)

lemma shuffle_inner_mset: "length l = n \<Longrightarrow> mset (snd (shuffle_inner seed n x i l)) = mset l"
proof (induction seed n x i l rule: shuffle_inner.induct)
  case (1 seed n x i l)
  show ?case
  proof (cases "x < 4 \<and> i < n")
    case True
    then have "mset (swap_at (of_char (seed ! x) mod n) i l) = mset l" using "1.prems" by (intro swap_at_mset) auto
    then show ?thesis using "1.IH"[OF True] "1.prems" True by (subst shuffle_inner.simps) simp
  next
    case False
    then show ?thesis by (subst shuffle_inner.simps) (simp only: if_False snd_conv)
  qed
qed

lemma shuffle_outer_mset: "length l = n \<Longrightarrow> mset (shuffle_outer seed n i l) = mset l"
proof (induction seed n i l rule: shuffle_outer.induct)
  case (1 seed n i l)
  obtain i1 l1 where r: "shuffle_inner seed n 0 i l = (i1, l1)" by fastforce
  have l1: "mset l1 = mset l" using shuffle_inner_mset[of l n seed 0 i] "1.prems" r by simp
  then have "length l1 = n" using "1.prems" mset_eq_length by metis
  with 1 r l1 show ?case by (subst shuffle_outer.simps) simp
qed

lemma Shuffle_mset:
  assumes "0 < n"
  shows "\<exists>l. Shuffle h (int n) = Some l \<and> mset l = mset [0..<n]"
  using assms shuffle_outer_mset[of "[0..<n]" n] by (simp add: Shuffle_def Let_def)

text \<open>C35: in a new round every elected delegate gets exactly one slot, whatever the seed. With at least
  one candidate the round has as many slots as delegates are elected, it is a rearrangement of the first
  candidates of the list, and slot \<open>i\<close> begins \<open>i\<close> intervals after the round; without candidates the division by
  their number panics.\<close>

theorem new_round_slots:
  assumes "0 < mx"
  shows "case ShuffleNewRound t (int mx) cs ivl of
      None \<Rightarrow> cs = []
    | Some sl \<Rightarrow> cs \<noteq> [] \<and> length sl = min mx (length cs) \<and>
        mset (map (\<lambda>d. (sd_Address d, sd_Vote d, sd_Nickname d)) sl) =
          mset (map (\<lambda>c. (c_Address c, c_Vote c, c_Nickname c)) (take mx cs)) \<and>
        (\<forall>i<length sl. sd_WorkTime (sl ! i) = of_int (t + int i * ivl))"
proof (cases "cs = []")
  case True
  then show ?thesis using assms by (simp add: ShuffleNewRound_def Shuffle_def)
next
  case False
  define m where "m = min mx (length cs)"
  have m: "(if int (length cs) < int mx then int (length cs) else int mx) = int m" "0 < m" "m \<le> length cs" using assms False by (auto simp: m_def)
  obtain l where l: "Shuffle (t + 1) (int m) = Some l" "mset l = mset [0..<m]" using Shuffle_mset[OF m(2)] by blast
  then have len: "length l = m" by (metis diff_zero length_upt mset_eq_length)
  let ?c = "\<lambda>c. (c_Address c, c_Vote c, c_Nickname c)"
  have "map (\<lambda>i. ?c (cs ! (l ! i))) [0..<m] = map (\<lambda>k. ?c (cs ! k)) l"
    using len by (simp add: list_eq_iff_nth_eq)
  then have "mset (map (\<lambda>i. ?c (cs ! (l ! i))) [0..<m]) = image_mset (\<lambda>k. ?c (cs ! k)) (mset [0..<m])"
    by (simp only: mset_map l(2))
  also have "\<dots> = mset (map ?c (map (\<lambda>k. cs ! k) [0..<m]))" by (simp only: mset_map image_mset.compositionality comp_def)
  also have "map (\<lambda>k. cs ! k) [0..<m] = take m cs" using m(3) by (simp add: list_eq_iff_nth_eq)
  also have "take m cs = take mx cs" by (simp add: m_def min_def)
  finally have perm: "mset (map (\<lambda>i. ?c (cs ! (l ! i))) [0..<m]) = mset (map ?c (take mx cs))" .
  have eq: "ShuffleNewRound t (int mx) cs ivl = Some (map (\<lambda>index.
      \<lparr>sd_WorkTime = of_int (t + int index * ivl), sd_Address = c_Address (cs ! (l ! index)),
       sd_Vote = c_Vote (cs ! (l ! index)), sd_Nickname = c_Nickname (cs ! (l ! index))\<rparr>) [0..<m])"
    unfolding ShuffleNewRound_def Let_def m(1) l(1) by simp
  show ?thesis
    unfolding eq using perm False by (simp add: comp_def m_def[symmetric] del: mset_map)
qed

theorem new_round_slots_witness:
  "\<exists>sl. ShuffleNewRound 1000 2
      [\<lparr>c_Address = ''a'', c_Vote = 9, c_Nickname = ''x'', c_RegisterTime = 1\<rparr>,
       \<lparr>c_Address = ''b'', c_Vote = 5, c_Nickname = ''y'', c_RegisterTime = 1\<rparr>,
       \<lparr>c_Address = ''c'', c_Vote = 2, c_Nickname = ''z'', c_RegisterTime = 1\<rparr>] 10 = Some sl \<and>
     mset (map sd_Address sl) = {#''a'', ''b''#} \<and> sd_WorkTime (sl ! 1) = 1010"
proof -
  let ?cs = "[\<lparr>c_Address = ''a'', c_Vote = 9, c_Nickname = ''x'', c_RegisterTime = 1\<rparr>,
       \<lparr>c_Address = ''b'', c_Vote = 5, c_Nickname = ''y'', c_RegisterTime = 1\<rparr>,
       \<lparr>c_Address = ''c'', c_Vote = 2, c_Nickname = ''z'', c_RegisterTime = 1\<rparr>]"
  obtain sl where sl: "ShuffleNewRound 1000 2 ?cs 10 = Some sl" "length sl = 2"
      "mset (map (\<lambda>d. (sd_Address d, sd_Vote d, sd_Nickname d)) sl) = {#(''a'', 9, ''x''), (''b'', 5, ''y'')#}"
      "sd_WorkTime (sl ! 1) = 1010"
    using new_round_slots[where mx = 2 and t = 1000 and cs = ?cs and ivl = 10] by (auto split: option.splits)
  have "mset (map sd_Address sl) = image_mset fst (mset (map (\<lambda>d. (sd_Address d, sd_Vote d, sd_Nickname d)) sl))"
    by (simp add: image_mset.compositionality comp_def)
  then show ?thesis using sl by simp
qed

section \<open>The search ends\<close>

lemma sint_of_int: "- (2 ^ 63) \<le> x \<Longrightarrow> x < 2 ^ 63 \<Longrightarrow> sint (of_int x :: uint64) = x"
  by (simp add: sint_sbintrunc' signed_take_bit_int_eq_self)

text \<open>A time of the search, as a word and as an integer: they agree as long as the integer is in range.\<close>

lemma search_time:
  fixes nxt mx ivl :: uint64
  defines "step \<equiv> sint mx * sint ivl"
  shows "nxt + of_int c * mx * ivl = of_int (sint nxt + c * step)" "nxt - of_int c * mx * ivl = of_int (sint nxt - c * step)"
    "of_int x + mx * ivl = of_int (x + step)"
  by (simp_all add: step_def mult.assoc)

lemma rounds_after_result:
  fixes nxt bt ivl mx now :: uint64
  defines "step \<equiv> sint mx * sint ivl"
  assumes "0 < step" "step < 2 ^ 61" "0 \<le> sint nxt" "sint bt < 2 ^ 62" "e \<le> sint bt" "sint bt < e + step"
    "sint nxt + c * step + int k * step = e" "0 \<le> c"
  shows "rounds_after nxt bt ivl mx now (of_int c) = Some (of_int (if 0 < k \<and> sint now \<le> e - step then 0 else e))"
  using assms(8,9)
proof (induction k arbitrary: c)
  case 0
  have "0 \<le> c * step" using 0(2) assms(2) by simp
  then have "0 \<le> e" using 0(1) assms(4) by simp
  then have "sint (of_int e :: uint64) = e" "sint (of_int (e + step) :: uint64) = e + step"
    using assms(2-7) by (simp_all add: sint_of_int del: of_int_add)
  then show ?case
    using 0 assms(6,7) by (subst rounds_after.simps) (simp add: Let_def search_time step_def[symmetric] del: of_int_add)
next
  case (Suc k)
  define s where "s = sint nxt + c * step"
  have e: "e = s + int k * step + step" using Suc.prems by (simp add: s_def algebra_simps)
  have k: "0 \<le> int k * step" "k = 0 \<or> step \<le> int k * step" "0 \<le> c * step" using assms(2) Suc.prems by auto
  have "sint nxt + (c + 1) * step + int k * step = e" "0 \<le> c + 1" using Suc.prems by (simp_all add: algebra_simps)
  from Suc.IH[OF this] have IH: "rounds_after nxt bt ivl mx now (of_int c + 1) = Some (of_int (if 0 < k \<and> sint now \<le> e - step then 0 else e))"
    by simp
  have "0 \<le> s" "s + step \<le> e" using e k assms(4) by (simp_all add: s_def)
  then have in_range: "sint (of_int s :: uint64) = s" "sint (of_int (s + step) :: uint64) = s + step"
    using assms(2-7) by (simp_all add: sint_of_int del: of_int_add)
  have "\<not> sint bt < s + step" using e k(1) assms(6) by linarith
  then have "rounds_after nxt bt ivl mx now (of_int c) =
      (if sint now \<le> s then Some 0 else rounds_after nxt bt ivl mx now (of_int c + 1))"
    by (subst rounds_after.simps) (simp add: in_range Let_def search_time step_def[symmetric] s_def[symmetric] del: of_int_add)
  then show ?case using IH e k by (cases "k = 0") auto
qed

lemma rounds_before_result:
  fixes nxt bt ivl mx :: uint64
  defines "step \<equiv> sint mx * sint ivl"
  assumes "0 < step" "step < 2 ^ 61" "sint nxt < 2 ^ 62" "0 \<le> sint bt" "e \<le> sint bt" "sint bt < e + step"
    "sint nxt - c * step - int k * step = e" "0 \<le> c"
  shows "rounds_before nxt bt ivl mx (of_int c) = Some (of_int e)"
  using assms(8,9)
proof (induction k arbitrary: c)
  case 0
  have "0 \<le> c * step" using 0(2) assms(2) by simp
  then have "e \<le> sint nxt" using 0(1) by simp
  then have "sint (of_int e :: uint64) = e" using assms(2-7) by (simp add: sint_of_int)
  then show ?case
    using 0 assms(6) by (subst rounds_before.simps) (simp add: Let_def search_time step_def[symmetric] del: of_int_diff)
next
  case (Suc k)
  define s where "s = sint nxt - c * step"
  have e: "s = e + int k * step + step" using Suc.prems by (simp add: s_def algebra_simps)
  have k: "0 \<le> int k * step" "0 \<le> c * step" using assms(2) Suc.prems by auto
  then have "sint bt < s" "s \<le> sint nxt" using e assms(7) by (simp_all add: s_def)
  then have s: "sint bt < s" "sint (of_int s :: uint64) = s" using assms(4,5) by (simp_all add: sint_of_int)
  have "sint nxt - (c + 1) * step - int k * step = e" "0 \<le> c + 1" using Suc.prems by (simp_all add: algebra_simps)
  from Suc.IH[OF this] have "rounds_before nxt bt ivl mx (of_int c + 1) = Some (of_int e)" by simp
  then show ?case
    using s assms(5) by (subst rounds_before.simps) (simp add: Let_def search_time step_def[symmetric] s_def[symmetric] del: of_int_diff)
qed

lemma round_distance:
  fixes step :: int
  assumes "0 < step"
  shows "\<exists>q. bt - (bt - next) mod step = next + q * step"
    and "bt - (bt - next) mod step \<le> bt" "bt < bt - (bt - next) mod step + step"
proof -
  have "bt - (bt - next) mod step = next + ((bt - next) div step) * step"
    using div_mult_mod_eq[of "bt - next" step] by linarith
  then show "\<exists>q. bt - (bt - next) mod step = next + q * step" ..
qed (use assms in simp_all)

text \<open>C36: the search for the round of a block ends. For times from 0 up to \<open>2 ^ 62\<close> and a round of positive length below
  \<open>2 ^ 61\<close>, no step of the search wraps around and \<open>CalShuffleTimeByHeaderTime\<close> returns the time \<open>e\<close> a whole number of
  rounds from the known one with \<open>e \<le> blockTime < e + step\<close>; only when \<open>e\<close> is after the known time and the round
  before \<open>e\<close> has not begun yet does it return 0. So it does return a time in the future, against the comment above the
  function: the beginning of the next round, for a block of that round.\<close>

theorem round_search_ends:
  assumes "0 < sint ivl * sint mx" "sint ivl * sint mx < 2 ^ 61" "0 \<le> sint bt" "sint bt < 2 ^ 62" "0 \<le> sint nxt" "sint nxt < 2 ^ 62"
  shows "map_option sint (CalShuffleTimeByHeaderTime now nxt bt ivl mx) =
    Some (let e = sint bt - (sint bt - sint nxt) mod (sint ivl * sint mx) in
          if sint nxt < e \<and> sint now \<le> e - sint ivl * sint mx then 0 else e)"
proof -
  define step where "step = sint mx * sint ivl"
  define e where "e = sint bt - (sint bt - sint nxt) mod step"
  have step: "sint ivl * sint mx = step" "0 < step" "step < 2 ^ 61" using assms by (simp_all add: step_def mult.commute)
  note e = round_distance[OF step(2), of "sint bt" "sint nxt", folded e_def]
  obtain q where q: "e = sint nxt + q * step" using e(1) by blast
  consider "nxt = bt" | "sint nxt < sint bt" | "sint bt < sint nxt" by (metis linorder_neqE signed_word_eqI)
  then have "CalShuffleTimeByHeaderTime now nxt bt ivl mx = Some (of_int (if sint nxt < e \<and> sint now \<le> e - step then 0 else e))"
  proof cases
    case 1
    then show ?thesis by (simp add: CalShuffleTimeByHeaderTime_def e_def)
  next
    case 2
    have "0 < (q + 1) * step" using 2 e(3) q by (simp add: algebra_simps)
    then have "0 \<le> q" using step(2) by (simp add: zero_less_mult_iff)
    then obtain k where k: "q = int k" using zero_le_imp_eq_int by blast
    moreover have "0 < k \<longleftrightarrow> sint nxt < e" using q k step(2) by (simp add: zero_less_mult_iff)
    moreover have "rounds_after nxt bt ivl mx now (of_int 0) = Some (of_int (if 0 < k \<and> sint now \<le> e - step then 0 else e))"
      unfolding step_def using q k assms e(2,3) step
      by (intro rounds_after_result[where k = k]) (simp_all add: step_def[symmetric])
    ultimately show ?thesis using 2 by (auto simp: CalShuffleTimeByHeaderTime_def)
  next
    case 3
    have "q * step < 0" using 3 e(2) q by linarith
    then have "q < 0" using step(2) by (simp add: mult_less_0_iff)
    then obtain k where k: "q = - int k" by (metis int_cases2 neg_0_le_iff_le not_less of_nat_0_le_iff)
    then have "rounds_before nxt bt ivl mx (of_int 0) = Some (of_int e)"
      using q assms e(2,3) step by (intro rounds_before_result[where k = k]) (simp_all add: step_def[symmetric])
    moreover have "\<not> sint nxt < e" using 3 e(2) by linarith
    ultimately show ?thesis using 3 by (auto simp: CalShuffleTimeByHeaderTime_def)
  qed
  moreover have "sint (of_int e :: uint64) = e" using e(2,3) assms(3,4) step(3) by (simp add: sint_of_int)
  ultimately show ?thesis by (simp add: step(1) e_def[symmetric] Let_def)
qed

theorem round_search_ends_witness:
  "map_option sint (CalShuffleTimeByHeaderTime 99999 3030 2040 10 101) = Some 2020 \<and>
   map_option sint (CalShuffleTimeByHeaderTime 99999 3030 6070 10 101) = Some 6060 \<and>
   map_option sint (CalShuffleTimeByHeaderTime 5500 3030 6070 10 101) = Some 6060 \<and>
   map_option sint (CalShuffleTimeByHeaderTime 3000 3030 6070 10 101) = Some 0"
  using round_search_ends[where ivl = 10 and mx = 101 and bt = 2040 and now = 99999 and nxt = 3030]
    round_search_ends[where ivl = 10 and mx = 101 and bt = 6070 and now = 99999 and nxt = 3030]
    round_search_ends[where ivl = 10 and mx = 101 and bt = 6070 and now = 5500 and nxt = 3030]
    round_search_ends[where ivl = 10 and mx = 101 and bt = 6070 and now = 3000 and nxt = 3030]
  by simp

end
