(* ===== verification/Rlp_Codec.thy ===== *)
theory Rlp_Codec
  imports Addresses
begin

text \<open>
  The byte format of RLP: the buffer of the encoder, which keeps the headers of lists apart from the
  strings until the sizes are known (\<open>rlp/encode.go\<close>), and the splitting of encoded values
  (\<open>rlp/raw.go\<close>). The writers that the encoder derives from Go types are given by the tree of strings and
  lists they write. Lengths are below \<open>2 ^ 63\<close>, as those of slices.
\<close>

unbundle bit_operations_syntax

section \<open>Splitting\<close>

datatype Kind = Kind_Byte | Kind_String | Kind_List

datatype rlp_error = ErrUnexpectedEOF | ErrCanonSize | ErrValueTooLarge | ErrExpectedString | ErrExpectedList

definition readSize :: "byte list \<Rightarrow> nat \<Rightarrow> rlp_error + uint64" where
  "readSize b slen =
     (if length b < slen then Inl ErrUnexpectedEOF
      else
        (let s = foldl (\<lambda>s x. push_bit 8 s OR ucast x) 0 (take slen b) in
         if s < 56 \<or> b ! 0 = 0 then Inl ErrCanonSize else Inr s))"

definition readKind :: "byte list \<Rightarrow> rlp_error + Kind \<times> uint64 \<times> uint64" where
  "readKind buf =
     (case buf of
        [] \<Rightarrow> Inl ErrUnexpectedEOF
      | b # bs \<Rightarrow>
          (let head =
             (if b < 0x80 then Inr (Kind_Byte, 0, 1)
              else if b < 0xB8 then
                (let contentsize = ucast (b - 0x80) in
                 if contentsize = 1 \<and> 1 < length buf \<and> bs ! 0 < 128 then Inl ErrCanonSize
                 else Inr (Kind_String, 1, contentsize))
              else if b < 0xC0 then
                map_sum id (\<lambda>contentsize. (Kind_String, ucast (b - 0xB7) + 1, contentsize)) (readSize bs (unat (b - 0xB7)))
              else if b < 0xF8 then Inr (Kind_List, 1, ucast (b - 0xC0))
              else map_sum id (\<lambda>contentsize. (Kind_List, ucast (b - 0xF7) + 1, contentsize)) (readSize bs (unat (b - 0xF7)))) in
           case head of
             Inl e \<Rightarrow> Inl e
           | Inr (k, tagsize, contentsize) \<Rightarrow>
               if of_nat (length buf) - tagsize < contentsize then Inl ErrValueTooLarge
               else Inr (k, tagsize, contentsize)))"

definition Split :: "byte list \<Rightarrow> rlp_error + Kind \<times> byte list \<times> byte list" where
  "Split b =
     (case readKind b of
        Inl e \<Rightarrow> Inl e
      | Inr (k, ts, cs) \<Rightarrow> Inr (k, take (unat cs) (drop (unat ts) b), drop (unat (ts + cs)) b))"

definition SplitString :: "byte list \<Rightarrow> rlp_error + byte list \<times> byte list" where
  "SplitString b =
     (case Split b of
        Inl e \<Rightarrow> Inl e
      | Inr (k, content, rest) \<Rightarrow> if k = Kind_List then Inl ErrExpectedString else Inr (content, rest))"

definition SplitList :: "byte list \<Rightarrow> rlp_error + byte list \<times> byte list" where
  "SplitList b =
     (case Split b of
        Inl e \<Rightarrow> Inl e
      | Inr (k, content, rest) \<Rightarrow> if k \<noteq> Kind_List then Inl ErrExpectedList else Inr (content, rest))"

lemma readKind_progress:
  assumes "readKind b = Inr (k, ts, cs)"
  shows "b \<noteq> [] \<and> 0 < unat ts + unat cs"
proof -
  have "(ucast (x :: byte) + 1 :: uint64) \<noteq> 0" for x
  proof -
    have "unat (ucast x + 1 :: uint64) = unat x + 1"
      using unat_bound[of x] by (simp add: unat_word_ariths unsigned_ucast_eq take_bit_eq_mod)
    then show ?thesis by (metis add_is_0 one_neq_zero unat_0)
  qed
  then show ?thesis
    using assms by (auto simp: readKind_def Let_def map_sum_def unat_gt_0 split: list.splits sum.splits if_splits)
qed

function CountValues :: "byte list \<Rightarrow> rlp_error + nat" where
  "CountValues b =
     (if b = [] then Inr 0
      else case readKind b of
        Inl e \<Rightarrow> Inl e
      | Inr (k, tagsize, sz) \<Rightarrow> map_sum id Suc (CountValues (drop (unat tagsize + unat sz) b)))"
  by pat_completeness auto
termination
  by (relation "measure length") (use readKind_progress in auto)

declare CountValues.simps [simp del]

section \<open>The encoder\<close>

lemma unat_div_256: "unat (drop_bit 8 (i :: uint64)) = unat i div 256"
  by (simp only: unat_drop_bit_eq) (simp add: drop_bit_eq_div)

function intsize :: "uint64 \<Rightarrow> nat" where
  "intsize i = (if drop_bit 8 i = 0 then 1 else 1 + intsize (drop_bit 8 i))"
  by pat_completeness auto
termination
proof (relation "measure unat")
  fix i :: uint64
  assume "drop_bit 8 i \<noteq> 0"
  then have "unat i div 256 \<noteq> 0" using unat_div_256[of i] by (metis unat_eq_0)
  then show "(drop_bit 8 i, i) \<in> measure unat" by (simp add: unat_div_256)
qed simp

declare intsize.simps [simp del]

definition headsize :: "uint64 \<Rightarrow> nat" where
  "headsize sz = (if sz < 56 then 1 else 1 + intsize sz)"

definition ListSize :: "uint64 \<Rightarrow> uint64" where
  "ListSize contentSize = of_nat (headsize contentSize) + contentSize"

text \<open>\<open>putint\<close>: the bytes written.\<close>

definition putint :: "uint64 \<Rightarrow> byte list" where
  "putint i =
     (if i < 2 ^ 8 then be_bytes 1 (unat i) else if i < 2 ^ 16 then be_bytes 2 (unat i) else if i < 2 ^ 24 then be_bytes 3 (unat i)
      else if i < 2 ^ 32 then be_bytes 4 (unat i) else if i < 2 ^ 40 then be_bytes 5 (unat i) else if i < 2 ^ 48 then be_bytes 6 (unat i)
      else if i < 2 ^ 56 then be_bytes 7 (unat i) else be_bytes 8 (unat i))"

definition puthead :: "byte \<Rightarrow> byte \<Rightarrow> uint64 \<Rightarrow> byte list" where
  "puthead smalltag largetag sz =
     (if sz < 56 then [smalltag + ucast sz]
      else (let bs = putint sz in (largetag + of_nat (length bs)) # bs))"

record listhead =
  lh_offset :: nat
  lh_size :: nat

record encbuf =
  eb_str :: "byte list"
  eb_lheads :: "listhead list"
  eb_lhsize :: nat

definition eb_reset :: encbuf where
  "eb_reset = \<lparr>eb_str = [], eb_lheads = [], eb_lhsize = 0\<rparr>"

definition eb_size :: "encbuf \<Rightarrow> nat" where
  "eb_size w = length (eb_str w) + eb_lhsize w"

definition head_encode :: "listhead \<Rightarrow> byte list" where
  "head_encode head = puthead 0xC0 0xF7 (of_nat (lh_size head))"

definition encodeStringHeader :: "nat \<Rightarrow> encbuf \<Rightarrow> encbuf" where
  "encodeStringHeader sz w =
     (if sz < 56 then w\<lparr>eb_str := eb_str w @ [0x80 + of_nat sz]\<rparr>
      else (let bs = putint (of_nat sz) in w\<lparr>eb_str := eb_str w @ (0xB7 + of_nat (length bs)) # bs\<rparr>))"

definition encodeString :: "byte list \<Rightarrow> encbuf \<Rightarrow> encbuf" where
  "encodeString b w =
     (if length b = 1 \<and> b ! 0 \<le> 0x7F then w\<lparr>eb_str := eb_str w @ [b ! 0]\<rparr>
      else (let w1 = encodeStringHeader (length b) w in w1\<lparr>eb_str := eb_str w1 @ b\<rparr>))"

text \<open>\<open>list\<close> returns the place of the new header.\<close>

definition eb_list :: "encbuf \<Rightarrow> nat \<times> encbuf" where
  "eb_list w = (length (eb_lheads w),
     w\<lparr>eb_lheads := eb_lheads w @ [\<lparr>lh_offset = length (eb_str w), lh_size = eb_lhsize w\<rparr>]\<rparr>)"

definition listEnd :: "nat \<Rightarrow> encbuf \<Rightarrow> encbuf" where
  "listEnd lh w =
     (let h = eb_lheads w ! lh;
          sz = eb_size w - lh_offset h - lh_size h in
      w\<lparr>eb_lheads := (eb_lheads w)[lh := h\<lparr>lh_size := sz\<rparr>],
        eb_lhsize := eb_lhsize w + (if sz < 56 then 1 else 1 + intsize (of_nat sz))\<rparr>)"

fun toBytes_loop :: "byte list \<Rightarrow> nat \<Rightarrow> listhead list \<Rightarrow> byte list" where
  "toBytes_loop str strpos [] = drop strpos str"
| "toBytes_loop str strpos (head # heads) =
     take (lh_offset head - strpos) (drop strpos str) @ head_encode head @ toBytes_loop str (lh_offset head) heads"

definition toBytes :: "encbuf \<Rightarrow> byte list" where
  "toBytes w = toBytes_loop (eb_str w) 0 (eb_lheads w)"

text \<open>What a value writes: a string, or a list around the values of its elements or fields.\<close>

datatype item = Str "byte list" | Lst "item list"

fun write_item :: "item \<Rightarrow> encbuf \<Rightarrow> encbuf" where
  "write_item (Str b) w = encodeString b w"
| "write_item (Lst xs) w = (let (lh, w1) = eb_list w in listEnd lh (fold write_item xs w1))"

definition EncodeToBytes :: "item \<Rightarrow> byte list" where
  "EncodeToBytes x = toBytes (write_item x eb_reset)"

section \<open>Numbers in bytes\<close>

lemma be_val_inj: "length bs = length cs \<Longrightarrow> be_val bs = be_val cs \<longleftrightarrow> bs = cs"
  using be_val_less[of bs cs] be_val_less[of cs bs] by (metis length_be_bytes less_irrefl linorder_cases)

lemma be_val_lower: "bs \<noteq> [] \<Longrightarrow> hd bs \<noteq> 0 \<Longrightarrow> 256 ^ (length bs - 1) \<le> be_val bs"
  by (cases bs) (auto simp: be_val_Cons unat_gt_0 Suc_le_eq intro: trans_le_add1)

text \<open>The loop of \<open>readSize\<close> on words computes the number.\<close>

lemma shift_or_value:
  "length bs \<le> 8 \<Longrightarrow> unat (foldl (\<lambda>s x. push_bit 8 s OR ucast x) 0 bs :: uint64) = be_val bs"
proof (induction bs rule: rev_induct)
  case (snoc x xs)
  define s where "s = (foldl (\<lambda>s x. push_bit 8 s OR ucast x) 0 xs :: uint64)"
  have s: "unat s = be_val xs" using snoc by (simp add: s_def)
  have "be_val xs * 256 + unat x < 256 ^ length (xs @ [x])" using be_val_bound[of "xs @ [x]"] by (simp only: be_val_append)
  also have "\<dots> \<le> 256 ^ 8" using snoc.prems by (intro power_increasing) simp_all
  finally have bound: "be_val xs * 256 + unat x < 2 ^ 64" by simp
  have "push_bit 8 s AND ucast x = 0"
    by (rule bit_eqI) (auto simp: bit_and_iff bit_push_bit_iff bit_ucast_iff dest: bit_imp_le_length)
  then have "push_bit 8 s OR ucast x = s * 256 + ucast x"
    by (simp add: disjunctive_add_eq_or [symmetric] push_bit_eq_mult)
  moreover have "s * 256 + ucast x = of_nat (be_val xs * 256 + unat x)"
    by (simp flip: s)
  ultimately have "push_bit 8 s OR ucast x = (of_nat (be_val xs * 256 + unat x) :: uint64)" by (rule trans)
  then have "unat (push_bit 8 s OR ucast x) = be_val xs * 256 + unat x"
    using bound by (simp only: unat_of_nat) (simp add: take_bit_eq_mod)
  then show ?case by (simp add: s_def be_val_append)
qed (simp add: be_val_def)

lemma putint_facts:
  obtains n where "putint i = be_bytes n (unat i)" "1 \<le> n" "n \<le> 8" "unat i < 256 ^ n" "n = 1 \<or> 256 ^ (n - 1) \<le> unat i"
proof -
  define u where "u = unat i"
  have u: "u < 256 ^ 8" using unat_bound[of i] by (simp add: u_def)
  define n :: nat where "n = (if u < 256 ^ 1 then 1 else if u < 256 ^ 2 then 2 else if u < 256 ^ 3 then 3 else if u < 256 ^ 4 then 4
    else if u < 256 ^ 5 then 5 else if u < 256 ^ 6 then 6 else if u < 256 ^ 7 then 7 else 8)"
  have "putint i = be_bytes n (unat i)"
    unfolding putint_def word_less_nat_alt u_def[symmetric] n_def by simp
  moreover have "1 \<le> n" "n \<le> 8" by (simp_all add: n_def)
  moreover have "u < 256 ^ n" using u unfolding n_def by (simp split: if_split)
  moreover have "n = 1 \<or> 256 ^ (n - 1) \<le> u" unfolding n_def by (simp split: if_split)
  ultimately show thesis using that[of n] by (simp add: u_def)
qed

lemma byte_count_unique:
  fixes u :: nat
  assumes "u < 256 ^ n" "n = 1 \<or> 256 ^ (n - 1) \<le> u" "u < 256 ^ m" "m = 1 \<or> 256 ^ (m - 1) \<le> u" "1 \<le> n" "1 \<le> m"
  shows "n = m"
proof -
  have le: "i \<le> j" if "i = 1 \<or> 256 ^ (i - 1) \<le> u" "u < 256 ^ j" "1 \<le> j" for i j :: nat
  proof (rule ccontr)
    assume "\<not> i \<le> j"
    then have "(256::nat) ^ j \<le> 256 ^ (i - 1)" by (intro power_increasing) simp_all
    moreover have "256 ^ (i - 1) \<le> u" using that(1,3) \<open>\<not> i \<le> j\<close> by auto
    ultimately show False using that(2) by linarith
  qed
  show ?thesis using le[OF assms(2,3,6)] le[OF assms(4,1,5)] by simp
qed

lemma putint_iff: "putint i = bs \<longleftrightarrow> be_val bs = unat i \<and> bs \<noteq> [] \<and> length bs \<le> 8 \<and> (length bs = 1 \<or> hd bs \<noteq> 0)"
proof -
  obtain n where n: "putint i = be_bytes n (unat i)" "1 \<le> n" "n \<le> 8" "unat i < 256 ^ n" "n = 1 \<or> 256 ^ (n - 1) \<le> unat i"
    by (rule putint_facts)
  have val: "be_val (be_bytes n (unat i)) = unat i" using n(4) by (simp add: be_val_bytes)
  show ?thesis
  proof
    assume "putint i = bs"
    then have bs: "bs = be_bytes n (unat i)" using n(1) by simp
    have "hd bs \<noteq> 0" if "n \<noteq> 1"
    proof
      assume z: "hd bs = 0"
      obtain ds where ds: "bs = 0 # ds" using z bs n(2) by (metis One_nat_def hd_Cons_tl length_be_bytes list.size(3) not_one_le_zero)
      then have "unat i < 256 ^ (n - 1)"
        using be_val_bound[of ds] val bs length_be_bytes[of n "unat i"] by (auto simp: be_val_Cons)
      then show False using n(5) that by simp
    qed
    then show "be_val bs = unat i \<and> bs \<noteq> [] \<and> length bs \<le> 8 \<and> (length bs = 1 \<or> hd bs \<noteq> 0)"
      using bs n(2,3) val length_be_bytes[of n "unat i"] by (cases bs) auto
  next
    assume r: "be_val bs = unat i \<and> bs \<noteq> [] \<and> length bs \<le> 8 \<and> (length bs = 1 \<or> hd bs \<noteq> 0)"
    have low: "length bs = 1 \<or> 256 ^ (length bs - 1) \<le> unat i" using r be_val_lower[of bs] by auto
    have up: "unat i < 256 ^ length bs" using r be_val_bound[of bs] by simp
    have "length bs = n" using byte_count_unique[OF up low n(4,5)] r n(2) by (simp add: Suc_le_eq)
    then show "putint i = bs" using be_val_inj[of bs "be_bytes n (unat i)"] val r n(1) by simp
  qed
qed

lemma length_putint: "putint i \<noteq> []" "length (putint i) \<le> 8"
  using putint_iff[of i "putint i"] by simp_all

lemma readSize_iff:
  assumes "1 \<le> n" "n \<le> 8"
  shows "readSize b n = Inr s \<longleftrightarrow> n \<le> length b \<and> take n b = putint s \<and> 56 \<le> s"
proof (cases "n \<le> length b")
  case True
  define w where "w = (foldl (\<lambda>s x. push_bit 8 s OR ucast x) 0 (take n b) :: uint64)"
  have w: "unat w = be_val (take n b)" using shift_or_value[of "take n b"] assms by (simp add: w_def)
  have hd: "hd (take n b) = b ! 0" using True assms by (cases b) auto
  have one: "hd (take n b) \<noteq> 0" if "length (take n b) = 1" "56 \<le> s" "be_val (take n b) = unat s"
  proof
    assume "hd (take n b) = 0"
    then have "take n b = [0]" using that(1) by (cases "take n b") auto
    then show False using that(2,3) by (simp add: be_val_def word_le_nat_alt)
  qed
  have len: "length (take n b) = n" "take n b \<noteq> []" using True assms by auto
  have "putint s = take n b \<longleftrightarrow> be_val (take n b) = unat s \<and> (n = 1 \<or> b ! 0 \<noteq> 0)"
    unfolding putint_iff len(1) hd using len(2) assms(2) by blast
  also have "\<dots> \<longleftrightarrow> s = w \<and> (n = 1 \<or> b ! 0 \<noteq> 0)" unfolding w[symmetric] word_unat_eq_iff by metis
  finally have put: "putint s = take n b \<longleftrightarrow> s = w \<and> (n = 1 \<or> b ! 0 \<noteq> 0)" .
  have "readSize b n = Inr s \<longleftrightarrow> s = w \<and> 56 \<le> w \<and> b ! 0 \<noteq> 0"
    using True by (auto simp: readSize_def Let_def w_def[symmetric] not_less)
  also have "\<dots> \<longleftrightarrow> s = w \<and> 56 \<le> s \<and> (n = 1 \<or> b ! 0 \<noteq> 0)"
    using one[unfolded len(1) hd] w[symmetric] by metis
  finally show ?thesis using True put by auto
qed (simp add: readSize_def)

section \<open>What splits\<close>

definition kind_head :: "Kind \<Rightarrow> nat \<Rightarrow> byte list" where
  "kind_head k n = (case k of Kind_Byte \<Rightarrow> [] | Kind_String \<Rightarrow> puthead 0x80 0xB7 (of_nat n)
     | Kind_List \<Rightarrow> puthead 0xC0 0xF7 (of_nat n))"

definition kind_ok :: "Kind \<Rightarrow> byte list \<Rightarrow> bool" where
  "kind_ok k c = (case k of Kind_Byte \<Rightarrow> length c = 1 \<and> c ! 0 < 0x80 | Kind_String \<Rightarrow> \<not> (length c = 1 \<and> c ! 0 < 0x80)
     | Kind_List \<Rightarrow> True)"

lemma length_kind_head: "length (kind_head k n) \<le> 9"
  using length_putint(2) by (simp add: kind_head_def puthead_def Let_def split: Kind.split)

lemma unat_byte_sub: "c \<le> b \<Longrightarrow> unat (b - c :: byte) = unat b - unat c"
  by (rule unat_sub)

text \<open>The head of a value that fits: its size is that of the content.\<close>

lemma small_head: "n < 56 \<Longrightarrow> puthead st lt (of_nat n) = [st + of_nat n]"
  by (simp add: puthead_def word_less_nat_alt unat_of_nat word_unat_eq_iff[of "ucast _"] unsigned_ucast_eq take_bit_eq_mod)

lemma large_head:
  "56 \<le> n \<Longrightarrow> n < 2 ^ 63 \<Longrightarrow> puthead st lt (of_nat n) = (lt + of_nat (length (putint (of_nat n)))) # putint (of_nat n)"
  by (simp add: puthead_def word_less_nat_alt unat_of_nat Let_def)

text \<open>The first byte tells the form of the head.\<close>

lemma tag_cases:
  obtains (byte) "x < 0x80"
  | (string) n where "n < 56" "x = 0x80 + of_nat n"
  | (long_string) m where "1 \<le> m" "m \<le> 8" "x = 0xB7 + of_nat m"
  | (list) n where "n < 56" "x = 0xC0 + of_nat n"
  | (long_list) m where "1 \<le> m" "m \<le> 8" "x = 0xF7 + (of_nat m :: byte)"
proof -
  have x: "x = of_nat (unat x)" "unat x < 256" using unat_bound[of x] by simp_all
  consider "unat x < 128" | "128 \<le> unat x" "unat x < 184" | "184 \<le> unat x" "unat x < 192"
    | "192 \<le> unat x" "unat x < 248" | "248 \<le> unat x" by linarith
  then show thesis
  proof cases
    case 1
    then show ?thesis using byte by (simp add: word_less_nat_alt)
  next
    case 2
    then have "x = 0x80 + of_nat (unat x - 128)" by (simp add: of_nat_diff)
    then show ?thesis using string[of "unat x - 128"] 2 by simp
  next
    case 3
    then have "x = 0xB7 + of_nat (unat x - 183)" by (simp add: of_nat_diff)
    then show ?thesis using long_string[of "unat x - 183"] 3 by simp
  next
    case 4
    then have "x = 0xC0 + of_nat (unat x - 192)" by (simp add: of_nat_diff)
    then show ?thesis using list[of "unat x - 192"] 4 by simp
  next
    case 5
    then have "x = 0xF7 + of_nat (unat x - 247)" by (simp add: of_nat_diff)
    then show ?thesis using long_list[of "unat x - 247"] 5 x(2) by simp
  qed
qed

lemma unat_tag: "unat t + n < 256 \<Longrightarrow> unat (t + of_nat n :: byte) = unat t + n"
  using unat_of_nat[of "unat t + n", where 'a = 8] by simp

lemma size_left:
  fixes sz :: uint64
  assumes "m \<le> k" "k < 2 ^ 63"
  shows "of_nat (Suc k) - (of_nat m + 1) < sz \<longleftrightarrow> k - m < unat sz"
proof -
  have "(of_nat (Suc k) - (of_nat m + 1) :: uint64) = of_nat (k - m)" using assms(1) by (simp add: of_nat_diff)
  moreover have "unat (of_nat (k - m) :: uint64) = k - m" using assms(2) by (simp add: unat_of_nat)
  ultimately show ?thesis by (simp add: word_less_nat_alt)
qed

lemma of_nat_small: "n < 56 \<Longrightarrow> unat (of_nat n :: uint64) = n" "n < 56 \<Longrightarrow> ucast (of_nat n :: byte) = (of_nat n :: uint64)"
  by (simp_all add: unat_of_nat word_unat_eq_iff unsigned_ucast_eq take_bit_eq_mod)

lemma readKind_byte: "x < 0x80 \<Longrightarrow> length bs < 2 ^ 63 \<Longrightarrow> readKind (x # bs) = Inr (Kind_Byte, 0, 1)"
  using unat_of_nat[of "Suc (length bs)", where 'a = 64] by (simp add: readKind_def word_less_nat_alt)

lemma readKind_string:
  assumes "n < 56" "length bs < 2 ^ 63"
  shows "readKind ((0x80 + of_nat n) # bs) =
    (if n = 1 \<and> bs \<noteq> [] \<and> bs ! 0 < 128 then Inl ErrCanonSize
     else if length bs < n then Inl ErrValueTooLarge else Inr (Kind_String, 1, of_nat n))"
proof -
  have t: "unat (0x80 + of_nat n :: byte) = 128 + n" using assms(1) by (subst unat_tag) simp_all
  have one: "(of_nat n :: uint64) = 1 \<longleftrightarrow> n = 1" using of_nat_small(1)[OF assms(1)] by (metis of_nat_1 unat_1)
  show ?thesis
    using assms t one size_left[of 0 "length bs" "of_nat n"]
    by (simp add: readKind_def word_less_nat_alt[of _ "0x80 :: byte"] word_less_nat_alt[of _ "0xB8 :: byte"] of_nat_small Let_def)
qed

lemma readKind_list:
  assumes "n < 56" "length bs < 2 ^ 63"
  shows "readKind ((0xC0 + of_nat n) # bs) = (if length bs < n then Inl ErrValueTooLarge else Inr (Kind_List, 1, of_nat n))"
proof -
  have t: "unat (0xC0 + of_nat n :: byte) = 192 + n" using assms(1) by (subst unat_tag) simp_all
  show ?thesis
    using assms t size_left[of 0 "length bs" "of_nat n"] by (simp add: readKind_def word_less_nat_alt[of "_ :: byte"] of_nat_small)
qed

lemma readSize_bound: "readSize b n = Inr s \<Longrightarrow> n \<le> length b"
  by (simp add: readSize_def split: if_splits)

lemma readKind_long:
  assumes "1 \<le> m" "m \<le> 8" "length bs < 2 ^ 63"
  shows "readKind ((0xB7 + of_nat m) # bs) = (case readSize bs m of Inl e \<Rightarrow> Inl e
      | Inr sz \<Rightarrow> if length bs - m < unat sz then Inl ErrValueTooLarge else Inr (Kind_String, of_nat m + 1, sz))"
    and "readKind ((0xF7 + of_nat m) # bs) = (case readSize bs m of Inl e \<Rightarrow> Inl e
      | Inr sz \<Rightarrow> if length bs - m < unat sz then Inl ErrValueTooLarge else Inr (Kind_List, of_nat m + 1, sz))"
proof -
  have t: "unat (0xB7 + of_nat m :: byte) = 183 + m" "unat (0xF7 + of_nat m :: byte) = 247 + m"
    using assms(2) by (subst unat_tag; simp)+
  have m: "unat (of_nat m :: byte) = m" "ucast (of_nat m :: byte) = (of_nat m :: uint64)"
    using assms(2) of_nat_small[of m] by (simp_all add: unat_of_nat)
  have left: "of_nat (Suc (length bs)) - (of_nat m + 1) < sz \<longleftrightarrow> length bs - m < unat sz" if "readSize bs m = Inr sz" for sz
    using that assms(3) by (intro size_left readSize_bound) auto
  show "readKind ((0xB7 + of_nat m) # bs) = (case readSize bs m of Inl e \<Rightarrow> Inl e
      | Inr sz \<Rightarrow> if length bs - m < unat sz then Inl ErrValueTooLarge else Inr (Kind_String, of_nat m + 1, sz))"
    using assms(1,2) t(1) m left
    by (cases "readSize bs m") (simp_all add: readKind_def word_less_nat_alt[of "_ :: byte"] del: of_nat_Suc)
  show "readKind ((0xF7 + of_nat m) # bs) = (case readSize bs m of Inl e \<Rightarrow> Inl e
      | Inr sz \<Rightarrow> if length bs - m < unat sz then Inl ErrValueTooLarge else Inr (Kind_List, of_nat m + 1, sz))"
    using assms(1,2) t(2) m left
    by (cases "readSize bs m") (simp_all add: readKind_def word_less_nat_alt[of "_ :: byte"] del: of_nat_Suc)
qed

text \<open>Reading the head of a value: the value comes with a head of the least size.\<close>

definition framed :: "Kind \<Rightarrow> byte list \<Rightarrow> byte list \<Rightarrow> byte list" where
  "framed k c r = kind_head k (length c) @ c @ r"

lemma readKind_framed:
  assumes "kind_ok k c" "length (framed k c r) < 2 ^ 63"
  shows "readKind (framed k c r) = Inr (k, of_nat (length (kind_head k (length c))), of_nat (length c))"
proof -
  let ?n = "length c"
  have long: "readSize (putint (of_nat ?n) @ c @ r) (length (putint (of_nat ?n))) = Inr (of_nat ?n)" if "56 \<le> ?n"
    using that assms(2) length_putint[of "of_nat ?n"]
    by (subst readSize_iff) (auto simp: Suc_le_eq framed_def word_le_nat_alt unat_of_nat)
  have n: "unat (of_nat ?n :: uint64) = ?n" using assms(2) by (simp add: framed_def unat_of_nat)
  have pl: "1 \<le> length (putint (of_nat ?n))" "length (putint (of_nat ?n)) \<le> 8" using length_putint by (simp_all add: Suc_le_eq)
  show ?thesis
  proof (cases k)
    case Kind_Byte
    then obtain x where "c = [x]" "x < 0x80" using assms(1) by (auto simp: kind_ok_def length_Suc_conv)
    then show ?thesis using Kind_Byte assms(2) by (simp add: framed_def kind_head_def readKind_byte)
  next
    case Kind_String
    show ?thesis
    proof (cases "?n < 56")
      case True
      then show ?thesis
        using Kind_String assms by (auto simp: framed_def kind_head_def small_head readKind_string kind_ok_def nth_append)
    next
      case False
      have h: "puthead 0x80 0xB7 (of_nat ?n) = (0xB7 + of_nat (length (putint (of_nat ?n)))) # putint (of_nat ?n)"
        using False assms(2) by (intro large_head) (simp_all add: framed_def)
      have "length (putint (of_nat ?n) @ c @ r) < 2 ^ 63" using assms(2) Kind_String by (simp add: framed_def kind_head_def h)
      then show ?thesis using Kind_String False long n by (simp add: framed_def kind_head_def h readKind_long(1)[OF pl])
    qed
  next
    case Kind_List
    show ?thesis
    proof (cases "?n < 56")
      case True
      then show ?thesis using Kind_List assms by (simp add: framed_def kind_head_def small_head readKind_list)
    next
      case False
      have h: "puthead 0xC0 0xF7 (of_nat ?n) = (0xF7 + of_nat (length (putint (of_nat ?n)))) # putint (of_nat ?n)"
        using False assms(2) by (intro large_head) (simp_all add: framed_def)
      have "length (putint (of_nat ?n) @ c @ r) < 2 ^ 63" using assms(2) Kind_List by (simp add: framed_def kind_head_def h)
      then show ?thesis using Kind_List False long n by (simp add: framed_def kind_head_def h readKind_long(2)[OF pl])
    qed
  qed
qed

lemma readKind_only_framed:
  assumes "readKind b = Inr (k, ts, cs)" "length b < 2 ^ 63"
  shows "\<exists>c r. kind_ok k c \<and> b = framed k c r"
proof (cases b)
  case Nil
  then show ?thesis using assms(1) by (simp add: readKind_def)
next
  case (Cons x bs)
  have lb: "length bs < 2 ^ 63" using assms(2) Cons by simp
  have short: "b = framed k' (take n bs) (drop n bs)"
    if "n \<le> length bs" "n < 56" "kind_head k' n = [x]" for k' n
    using that Cons by (simp add: framed_def)
  have long: "b = framed k' (take (unat sz) (drop m bs)) (drop (unat sz) (drop m bs))"
    if "readSize bs m = Inr sz" "unat sz \<le> length bs - m" "1 \<le> m" "m \<le> 8"
      "\<And>n. 56 \<le> n \<Longrightarrow> n < 2 ^ 63 \<Longrightarrow> kind_head k' n = (lt + of_nat (length (putint (of_nat n)))) # putint (of_nat n)"
      "x = lt + of_nat m" for k' m sz lt
  proof -
    have r: "m \<le> length bs" "take m bs = putint sz" "56 \<le> sz" using that(1) readSize_iff[OF that(3,4)] by auto
    have "56 \<le> unat sz" "unat sz < 2 ^ 63" using r(3) that(2) lb by (simp_all add: word_le_nat_alt)
    moreover have "length (putint sz) = m" using r(1) by (simp flip: r(2))
    ultimately have "kind_head k' (unat sz) = x # putint sz" using that(5)[of "unat sz"] that(6) by simp
    then show ?thesis using that(2) r Cons append_take_drop_id[of m bs] by (simp add: framed_def del: drop_drop)
  qed
  show ?thesis
  proof (cases x rule: tag_cases)
    case byte
    then show ?thesis using assms(1) Cons lb
      by (intro exI[of _ "[x]"] exI[of _ bs]) (simp add: readKind_byte kind_ok_def framed_def kind_head_def)
  next
    case (string n)
    then have "k = Kind_String" "n \<le> length bs" "\<not> (n = 1 \<and> bs \<noteq> [] \<and> bs ! 0 < 128)"
      using assms(1) Cons lb by (auto simp: readKind_string split: if_splits)
    then show ?thesis using string short[of n Kind_String]
      by (intro exI[of _ "take n bs"] exI[of _ "drop n bs"]) (auto simp: kind_ok_def kind_head_def small_head)
  next
    case (long_string m)
    then obtain sz where sz: "readSize bs m = Inr sz" "unat sz \<le> length bs - m" "k = Kind_String"
      using assms(1) Cons lb by (auto simp: readKind_long split: sum.splits if_splits)
    moreover have "56 \<le> unat sz" using sz(1) readSize_iff[OF long_string(1,2)] by (simp add: word_le_nat_alt)
    ultimately show ?thesis using long[of m sz Kind_String "0xB7"] long_string
      by (intro exI[of _ "take (unat sz) (drop m bs)"] exI[of _ "drop (unat sz) (drop m bs)"])
        (auto simp: kind_ok_def kind_head_def large_head)
  next
    case (list n)
    then have "k = Kind_List" "n \<le> length bs" using assms(1) Cons lb by (auto simp: readKind_list split: if_splits)
    then show ?thesis using list short[of n Kind_List]
      by (intro exI[of _ "take n bs"] exI[of _ "drop n bs"]) (auto simp: kind_ok_def kind_head_def small_head)
  next
    case (long_list m)
    then obtain sz where sz: "readSize bs m = Inr sz" "unat sz \<le> length bs - m" "k = Kind_List"
      using assms(1) Cons lb by (auto simp: readKind_long split: sum.splits if_splits)
    then show ?thesis using long[of m sz Kind_List "0xF7"] long_list
      by (intro exI[of _ "take (unat sz) (drop m bs)"] exI[of _ "drop (unat sz) (drop m bs)"])
        (auto simp: kind_ok_def kind_head_def large_head)
  qed
qed

lemma Split_iff:
  assumes "length b < 2 ^ 63"
  shows "Split b = Inr (k, c, r) \<longleftrightarrow> kind_ok k c \<and> b = framed k c r"
proof -
  have eq: "Split (framed k' c' r') = Inr (k', c', r')" if "kind_ok k' c'" "length (framed k' c' r') < 2 ^ 63" for k' c' r'
  proof -
    have "unat (of_nat (length c') :: uint64) = length c'"
      "unat (of_nat (length (kind_head k' (length c'))) :: uint64) = length (kind_head k' (length c'))"
      "unat (of_nat (length (kind_head k' (length c'))) + of_nat (length c') :: uint64) = length (kind_head k' (length c')) + length c'"
      using that(2) by (simp_all add: framed_def unat_of_nat flip: of_nat_add)
    then show ?thesis by (simp add: Split_def readKind_framed[OF that]) (simp add: framed_def)
  qed
  show ?thesis
  proof
    assume sp: "Split b = Inr (k, c, r)"
    then obtain k' ts cs where "readKind b = Inr (k', ts, cs)" by (auto simp: Split_def split: sum.splits)
    then obtain c' r' where b: "kind_ok k' c'" "b = framed k' c' r'" using readKind_only_framed assms by blast
    then show "kind_ok k c \<and> b = framed k c r" using eq[OF b(1)] sp assms by simp
  next
    assume "kind_ok k c \<and> b = framed k c r"
    then show "Split b = Inr (k, c, r)" using eq assms by blast
  qed
qed

section \<open>The encoding of a tree\<close>

text \<open>The specification: a string with its head, a list with a head around the encodings of its elements.\<close>

definition kind_of :: "byte list \<Rightarrow> Kind" where
  "kind_of b = (if length b = 1 \<and> b ! 0 < 0x80 then Kind_Byte else Kind_String)"

fun rlp :: "item \<Rightarrow> byte list" where
  "rlp (Str b) = framed (kind_of b) b []"
| "rlp (Lst xs) = framed Kind_List (concat (map rlp xs)) []"

lemma kind_ok_of [simp]: "kind_ok (kind_of b) b" "kind_ok Kind_List b" "kind_of b \<noteq> Kind_List"
  by (simp_all add: kind_ok_def kind_of_def)

lemma framed_rest: "framed k c [] @ r = framed k c r"
  by (simp add: framed_def)

lemma le_0x7F: "(x :: byte) \<le> 0x7F \<longleftrightarrow> x < 0x80"
  by (simp add: word_le_nat_alt word_less_nat_alt) linarith

text \<open>What an item adds to the buffer: strings with their heads, and the headers of its lists in order.\<close>

fun flat :: "item \<Rightarrow> byte list" where
  "flat (Str b) = rlp (Str b)"
| "flat (Lst xs) = concat (map flat xs)"

fun heads :: "nat \<Rightarrow> item \<Rightarrow> listhead list" and heads_list :: "nat \<Rightarrow> item list \<Rightarrow> listhead list" where
  "heads o0 (Str b) = []"
| "heads o0 (Lst xs) = \<lparr>lh_offset = o0, lh_size = length (concat (map rlp xs))\<rparr> # heads_list o0 xs"
| "heads_list o0 [] = []"
| "heads_list o0 (x # xs) = heads o0 x @ heads_list (o0 + length (flat x)) xs"

lemma encodeString_appends:
  "length b < 2 ^ 63 \<Longrightarrow> encodeString b w = w\<lparr>eb_str := eb_str w @ rlp (Str b)\<rparr>"
  by (cases "length b < 56")
    (auto simp: encodeString_def encodeStringHeader_def Let_def framed_def kind_head_def kind_of_def le_0x7F small_head large_head
      length_Suc_conv)

lemma intsize_range: "unat i < 256 ^ intsize i \<and> (intsize i = 1 \<or> 256 ^ (intsize i - 1) \<le> unat i) \<and> 1 \<le> intsize i"
proof (induction i rule: intsize.induct)
  case (1 i)
  show ?case
  proof (cases "drop_bit 8 i = 0")
    case True
    then have "unat i div 256 = 0" using unat_div_256[of i] by simp
    then show ?thesis using True by (subst (1 2 3 4) intsize.simps) simp
  next
    case False
    define n where "n = intsize (drop_bit 8 i)"
    have "unat i div 256 < 256 ^ n \<and> (n = 1 \<or> 256 ^ (n - 1) \<le> unat i div 256) \<and> 1 \<le> n"
      using "1.IH"[OF False] unfolding n_def unat_div_256 .
    moreover have "unat i div 256 \<noteq> 0" using False unat_div_256[of i] by (metis unat_eq_0)
    ultimately have "unat i < 256 ^ Suc n \<and> 256 ^ n \<le> unat i"
      by (cases n) (auto simp: div_less_iff_less_mult less_eq_div_iff_mult_less_eq mult.commute)
    moreover have "intsize i = Suc n" using False by (subst intsize.simps) (simp add: n_def)
    ultimately show ?thesis by simp
  qed
qed

lemma intsize_putint: "intsize i = length (putint i)"
proof -
  obtain n where n: "putint i = be_bytes n (unat i)" "1 \<le> n" "n \<le> 8" "unat i < 256 ^ n" "n = 1 \<or> 256 ^ (n - 1) \<le> unat i"
    by (rule putint_facts)
  then show ?thesis using byte_count_unique[of "unat i" "intsize i" n] intsize_range[of i] by simp
qed

lemma length_list_head:
  "n < 2 ^ 63 \<Longrightarrow> length (kind_head Kind_List n) = (if n < 56 then 1 else 1 + intsize (of_nat n))"
  by (simp add: kind_head_def small_head large_head intsize_putint)

lemma flat_le: "length (flat x) \<le> length (rlp x)"
proof (induction x)
  case (Lst xs)
  then have "length (concat (map flat xs)) \<le> length (concat (map rlp xs))"
    by (induction xs) (auto intro: add_mono)
  then show ?case by (simp add: framed_def)
qed simp

lemma flats_le: "length (concat (map flat xs)) \<le> length (concat (map rlp xs))"
  using flat_le by (induction xs) (auto intro: add_mono)

definition wrote :: "byte list \<Rightarrow> listhead list \<Rightarrow> nat \<Rightarrow> encbuf \<Rightarrow> encbuf" where
  "wrote str hs n w = w\<lparr>eb_str := eb_str w @ str, eb_lheads := eb_lheads w @ hs, eb_lhsize := eb_lhsize w + n\<rparr>"

lemma write_item_effect:
  "length (rlp x) < 2 ^ 63 \<Longrightarrow>
   write_item x w = wrote (flat x) (heads (length (eb_str w)) x) (length (rlp x) - length (flat x)) w"
proof (induction x arbitrary: w)
  case (Str b)
  then have "length b < 2 ^ 63" by (simp add: framed_def)
  then show ?case by (simp add: encodeString_appends wrote_def)
next
  case (Lst xs)
  let ?R = "concat (map rlp xs)" and ?F = "concat (map flat xs)"
  have R: "length ?R < 2 ^ 63" using Lst.prems by (simp add: framed_def)
  have elems: "fold write_item ys v = wrote (concat (map flat ys)) (heads_list (length (eb_str v)) ys)
      (length (concat (map rlp ys)) - length (concat (map flat ys))) v"
    if "set ys \<subseteq> set xs" "length (concat (map rlp ys)) < 2 ^ 63" for ys v
    using that
  proof (induction ys arbitrary: v)
    case (Cons y ys)
    have y: "write_item y v = wrote (flat y) (heads (length (eb_str v)) y) (length (rlp y) - length (flat y)) v"
      using Cons.prems by (intro Lst.IH) auto
    show ?case
      unfolding fold.simps comp_apply y using Cons flat_le[of y] flats_le[of ys] by (simp add: wrote_def)
  qed (simp add: wrote_def)
  show ?case
    using R flats_le[of xs] elems[OF subset_refl R]
    by (simp add: eb_list_def listEnd_def wrote_def eb_size_def nth_append list_update_append Let_def length_list_head framed_def)
qed

text \<open>The strings are woven with the headers.\<close>

definition from_offset :: "nat \<Rightarrow> listhead list \<Rightarrow> bool" where
  "from_offset n hs \<longleftrightarrow> (\<forall>h\<in>set hs. n \<le> lh_offset h)"

lemma heads_from: "from_offset n (heads n x)" "from_offset n (heads_list n xs)"
proof (induction n x and n xs rule: heads_heads_list.induct)
  case (4 n x xs)
  then show ?case by (fastforce simp: from_offset_def)
qed (auto simp: from_offset_def)

lemma toBytes_loop_string:
  "from_offset (length pre + length m) hs \<Longrightarrow>
   toBytes_loop (pre @ m @ post) (length pre) hs = m @ toBytes_loop (pre @ m @ post) (length pre + length m) hs"
  by (cases hs) (auto simp: from_offset_def)

lemma toBytes_loop_item:
  "length (rlp x) < 2 ^ 63 \<Longrightarrow> from_offset (length pre + length (flat x)) hs \<Longrightarrow>
   toBytes_loop (pre @ flat x @ post) (length pre) (heads (length pre) x @ hs) =
     rlp x @ toBytes_loop (pre @ flat x @ post) (length pre + length (flat x)) hs"
proof (induction x arbitrary: pre post hs)
  case (Str b)
  then show ?case by (simp add: toBytes_loop_string del: rlp.simps)
next
  case (Lst xs)
  have R: "length (concat (map rlp xs)) < 2 ^ 63" using Lst.prems(1) by (simp add: framed_def)
  have elems: "toBytes_loop (p @ concat (map flat ys) @ q) (length p) (heads_list (length p) ys @ hs) =
      concat (map rlp ys) @ toBytes_loop (p @ concat (map flat ys) @ q) (length p + length (concat (map flat ys))) hs"
    if "set ys \<subseteq> set xs" "length (concat (map rlp ys)) < 2 ^ 63" "from_offset (length p + length (concat (map flat ys))) hs" for ys p q
    using that
  proof (induction ys arbitrary: p)
    case (Cons y ys)
    have "from_offset (length p + length (flat y)) (heads_list (length p + length (flat y)) ys @ hs)"
      using heads_from(2)[of "length p + length (flat y)" ys] Cons.prems(3) by (auto simp: from_offset_def)
    then have "toBytes_loop (p @ flat y @ concat (map flat ys) @ q) (length p) (heads (length p) y @ heads_list (length p + length (flat y)) ys @ hs) =
      rlp y @ toBytes_loop (p @ flat y @ concat (map flat ys) @ q) (length p + length (flat y)) (heads_list (length p + length (flat y)) ys @ hs)"
      using Cons.prems by (intro Lst.IH) auto
    then show ?case using Cons.IH[of "p @ flat y"] Cons.prems by (simp add: add.assoc)
  qed simp
  show ?case using elems[OF subset_refl R, of pre post] Lst.prems(2)
    by (simp add: head_encode_def framed_def kind_head_def)
qed

lemma EncodeToBytes_rlp: "length (rlp x) < 2 ^ 63 \<Longrightarrow> EncodeToBytes x = rlp x"
  using toBytes_loop_item[of x "[]" "[]" "[]"]
  by (simp add: EncodeToBytes_def toBytes_def eb_reset_def write_item_effect wrote_def from_offset_def)

text \<open>The size the buffer keeps count of, which is the length of the slice \<open>toBytes\<close> makes, is the number of bytes
  written to it.\<close>

lemma encbuf_size: "length (rlp x) < 2 ^ 63 \<Longrightarrow> eb_size (write_item x eb_reset) = length (rlp x)"
  using flat_le[of x] by (simp add: eb_size_def eb_reset_def write_item_effect wrote_def)

lemma CountValues_rlp: "length (concat (map rlp xs)) < 2 ^ 63 \<Longrightarrow> CountValues (concat (map rlp xs)) = Inr (length xs)"
proof (induction xs)
  case Nil
  then show ?case by (simp add: CountValues.simps)
next
  case (Cons x xs)
  obtain k c where kc: "kind_ok k c" "rlp x = framed k c []"
    using kind_ok_of(1,2) rlp.simps by (metis item.exhaust)
  have b: "concat (map rlp (x # xs)) = framed k c (concat (map rlp xs))" using kc(2) by (simp add: framed_rest)
  have rk: "readKind (framed k c (concat (map rlp xs))) = Inr (k, of_nat (length (kind_head k (length c))), of_nat (length c))"
    using Cons.prems unfolding b by (rule readKind_framed[OF kc(1)])
  have "unat (of_nat (length c) :: uint64) = length c"
    "unat (of_nat (length (kind_head k (length c))) :: uint64) = length (kind_head k (length c))"
    using Cons.prems kc(2) by (simp_all add: framed_def unat_of_nat)
  moreover have "framed k c (concat (map rlp xs)) \<noteq> []" using readKind_progress[OF rk] by simp
  moreover have "CountValues (concat (map rlp xs)) = Inr (length xs)" using Cons by simp
  ultimately show ?case unfolding b by (subst CountValues.simps) (simp add: rk, simp add: framed_def)
qed

lemma SplitString_iff:
  assumes "length b < 2 ^ 63"
  shows "SplitString b = Inr (c, r) \<longleftrightarrow> b = rlp (Str c) @ r"
proof -
  have "SplitString b = Inr (c, r) \<longleftrightarrow> (\<exists>k. k \<noteq> Kind_List \<and> Split b = Inr (k, c, r))"
    by (cases "Split b") (auto simp: SplitString_def split: if_splits)
  also have "\<dots> \<longleftrightarrow> (\<exists>k. k \<noteq> Kind_List \<and> kind_ok k c \<and> b = framed k c r)" by (simp add: Split_iff[OF assms])
  also have "\<dots> \<longleftrightarrow> b = framed (kind_of c) c r"
  proof -
    have "k \<noteq> Kind_List \<and> kind_ok k c \<longleftrightarrow> k = kind_of c" for k
      by (cases k) (simp_all add: kind_ok_def kind_of_def)
    then show ?thesis by (simp add: conj_assoc[symmetric])
  qed
  finally show ?thesis by (simp add: framed_rest)
qed

lemma SplitList_iff:
  assumes "length b < 2 ^ 63"
  shows "SplitList b = Inr (c, r) \<longleftrightarrow> b = framed Kind_List c r"
proof -
  have "SplitList b = Inr (c, r) \<longleftrightarrow> Split b = Inr (Kind_List, c, r)"
    by (cases "Split b") (auto simp: SplitList_def split: if_splits)
  then show ?thesis by (simp add: Split_iff[OF assms])
qed

text \<open>C37: RLP round trip. For a tree of strings and lists whose encoding has less than \<open>2 ^ 63\<close> bytes, the buffer of
  the encoder, with its headers filled in afterwards, holds the encoding of the specification, and the size it has kept
  count of is the length of that encoding. A value splits
  off the front of any bytes that follow it, a string into its content and a list into the encodings of its
  elements, which can be counted. And nothing else splits: whatever \<open>Split\<close> accepts is the one
  encoding of what it returns, with the head of the least size, and the bytes that follow.\<close>

theorem rlp_round_trip:
  assumes "length (rlp x @ rest) < 2 ^ 63" "length b < 2 ^ 63"
  shows "EncodeToBytes x = rlp x \<and> eb_size (write_item x eb_reset) = length (rlp x) \<and>
    (case x of Str s \<Rightarrow> SplitString (rlp x @ rest) = Inr (s, rest)
     | Lst xs \<Rightarrow> SplitList (rlp x @ rest) = Inr (concat (map rlp xs), rest) \<and>
        CountValues (concat (map rlp xs)) = Inr (length xs)) \<and>
    (SplitString b = Inr (c, r) \<longleftrightarrow> b = rlp (Str c) @ r) \<and>
    (SplitList b = Inr (c, r) \<longleftrightarrow> b = puthead 0xC0 0xF7 (of_nat (length c)) @ c @ r)"
proof -
  have head: "framed Kind_List c r = puthead 0xC0 0xF7 (of_nat (length c)) @ c @ r"
    by (simp add: framed_def kind_head_def)
  have "EncodeToBytes x = rlp x" "eb_size (write_item x eb_reset) = length (rlp x)"
    using assms(1) by (intro EncodeToBytes_rlp encbuf_size; simp)+
  moreover have "case x of Str s \<Rightarrow> SplitString (rlp x @ rest) = Inr (s, rest)
     | Lst xs \<Rightarrow> SplitList (rlp x @ rest) = Inr (concat (map rlp xs), rest) \<and>
        CountValues (concat (map rlp xs)) = Inr (length xs)"
  proof (cases x)
    case (Str s)
    then show ?thesis using SplitString_iff[OF assms(1), of s rest] by (simp del: rlp.simps)
  next
    case (Lst xs)
    then have "length (concat (map rlp xs)) < 2 ^ 63" using assms(1) by (simp add: framed_def)
    then show ?thesis
      using Lst SplitList_iff[OF assms(1), of "concat (map rlp xs)" rest] CountValues_rlp[of xs] by (simp add: framed_rest)
  qed
  moreover have "SplitString b = Inr (c, r) \<longleftrightarrow> b = rlp (Str c) @ r" by (rule SplitString_iff[OF assms(2)])
  moreover have "SplitList b = Inr (c, r) \<longleftrightarrow> b = puthead 0xC0 0xF7 (of_nat (length c)) @ c @ r"
    using SplitList_iff[OF assms(2), of c r] unfolding head .
  ultimately show ?thesis by blast
qed

theorem rlp_round_trip_witness:
  "EncodeToBytes (Lst [Str [1], Lst [Str [200, 7]], Str []]) = [0xC6, 1, 0xC3, 0x82, 200, 7, 0x80] \<and>
   SplitList [0xC6, 1, 0xC3, 0x82, 200, 7, 0x80, 9] = Inr ([1, 0xC3, 0x82, 200, 7, 0x80], [9]) \<and>
   CountValues [1, 0xC3, 0x82, 200, 7, 0x80] = Inr 3 \<and> SplitString [0x81, 5] \<noteq> Inr ([5], [])"
proof -
  have "rlp (Lst [Str [1], Lst [Str [200, 7]], Str []]) = [0xC6, 1, 0xC3, 0x82, 200, 7, 0x80]"
    "map rlp [Str [1], Lst [Str [200, 7]], Str []] = [[1], [0xC3, 0x82, 200, 7], [0x80]]" "rlp (Str [5]) = [5]"
    by (simp_all add: framed_def kind_of_def kind_head_def puthead_def)
  then show ?thesis
    using rlp_round_trip[of "Lst [Str [1], Lst [Str [200, 7]], Str []]" "[9]" "[0x81, 5]" "[5]" "[]"]
    by (simp del: rlp.simps)
qed

end
