(* ===== verification/Trie_Nodes.thy ===== *)
theory Trie_Nodes
  imports Rlp_Codec
begin

text \<open>
  The nodes of a Merkle Patricia trie (\<open>trie/node.go\<close>) with the encodings of their keys
  (\<open>trie/encoding.go\<close>). Keys are sequences of nibbles, which end with the terminator 16 where a value
  follows. A node refers to its children by value, by hash, or embeds them; \<open>NilNode\<close> is the nil interface.
\<close>

unbundle bit_operations_syntax

section \<open>Keys\<close>

definition hasTerm :: "byte list \<Rightarrow> bool" where
  "hasTerm s \<longleftrightarrow> 0 < length s \<and> s ! (length s - 1) = 16"

definition keybytesToHex :: "byte list \<Rightarrow> byte list" where
  "keybytesToHex str = concat (map (\<lambda>b. [b div 16, b mod 16]) str) @ [16]"

text \<open>\<open>None\<close> is the index out of range of an odd number of nibbles.\<close>

fun decodeNibbles :: "byte list \<Rightarrow> byte list option" where
  "decodeNibbles [] = Some []"
| "decodeNibbles [a] = None"
| "decodeNibbles (a # b # nibbles) = map_option ((#) (push_bit 4 a OR b)) (decodeNibbles nibbles)"

definition hexToCompact :: "byte list \<Rightarrow> byte list option" where
  "hexToCompact hex =
     (let terminator = (if hasTerm hex then 1 else 0) :: byte;
          hex = (if hasTerm hex then take (length hex - 1) hex else hex);
          flag = push_bit 5 terminator in
      if odd (length hex) then map_option ((#) (flag OR push_bit 4 1 OR hex ! 0)) (decodeNibbles (drop 1 hex))
      else map_option ((#) flag) (decodeNibbles hex))"

text \<open>\<open>None\<close> is the index out of range for no bytes at all.\<close>

definition compactToHex :: "byte list \<Rightarrow> byte list option" where
  "compactToHex compact =
     (let base = keybytesToHex compact;
          base = take (length base - 1) base in
      if base = [] then None
      else
        (let base = (if 2 \<le> base ! 0 then base @ [16] else base);
             chop = 2 - (base ! 0 AND 1) in
         Some (drop (unat chop) base)))"

text \<open>\<open>None\<close> is the panic for keys of odd length.\<close>

definition hexToKeybytes :: "byte list \<Rightarrow> byte list option" where
  "hexToKeybytes hex =
     (let hex = (if hasTerm hex then take (length hex - 1) hex else hex) in
      if odd (length hex) then None else decodeNibbles hex)"

fun prefixLen :: "byte list \<Rightarrow> byte list \<Rightarrow> nat" where
  "prefixLen (a # as) (b # bs) = (if a \<noteq> b then 0 else Suc (prefixLen as bs))"
| "prefixLen _ _ = 0"

section \<open>Nodes\<close>

record nodeFlag =
  nf_hash :: "byte list option"
  nf_gen :: "16 word"
  nf_dirty :: bool

datatype node = NilNode | FullNode "node list" nodeFlag | ShortNode "byte list" node nodeFlag
  | HashNode "byte list" | ValueNode "byte list"

definition flag_canUnload :: "nodeFlag \<Rightarrow> 16 word \<Rightarrow> 16 word \<Rightarrow> bool" where
  "flag_canUnload n cachegen cachelimit \<longleftrightarrow> \<not> nf_dirty n \<and> cachelimit \<le> cachegen - nf_gen n"

fun canUnload :: "node \<Rightarrow> 16 word \<Rightarrow> 16 word \<Rightarrow> bool" where
  "canUnload (FullNode _ f) gen limit = flag_canUnload f gen limit"
| "canUnload (ShortNode _ _ f) gen limit = flag_canUnload f gen limit"
| "canUnload _ gen limit = False"

fun node_cache :: "node \<Rightarrow> byte list option \<times> bool" where
  "node_cache (FullNode _ f) = (nf_hash f, nf_dirty f)"
| "node_cache (ShortNode _ _ f) = (nf_hash f, nf_dirty f)"
| "node_cache _ = (None, True)"

text \<open>What the encoder writes for a node: the exported fields of a short node, the children of a full one, and an
  empty list for the nil interface.\<close>

fun node_item :: "node \<Rightarrow> item" where
  "node_item NilNode = Lst []"
| "node_item (FullNode children _) = Lst (map node_item children)"
| "node_item (ShortNode key val _) = Lst [Str key, node_item val]"
| "node_item (HashNode h) = Str h"
| "node_item (ValueNode v) = Str v"

section \<open>Decoding\<close>

datatype decode_error = DecodeEOF | DecodeRlp rlp_error | InvalidCount nat | OversizedNode nat | InvalidSize nat

type_synonym 'a decoded = "(decode_error + 'a) option"

text \<open>The decoder of embedded nodes is an argument; \<open>None\<close> is a panic.\<close>

definition decodeRef :: "(byte list \<Rightarrow> node decoded) \<Rightarrow> byte list \<Rightarrow> (node \<times> byte list) decoded" where
  "decodeRef embedded buf =
     (case Split buf of
        Inl e \<Rightarrow> Some (Inl (DecodeRlp e))
      | Inr (kind, val, rest) \<Rightarrow>
          if kind = Kind_List then
            (let sz = length buf - length rest in
             if 32 < sz then Some (Inl (OversizedNode sz))
             else map_option (map_sum id (\<lambda>n. (n, rest))) (embedded buf))
          else if kind = Kind_String \<and> length val = 0 then Some (Inr (NilNode, rest))
          else if kind = Kind_String \<and> length val = 32 then Some (Inr (HashNode val, rest))
          else Some (Inl (InvalidSize (length val))))"

definition decodeShort :: "(byte list \<Rightarrow> node decoded) \<Rightarrow> nodeFlag \<Rightarrow> byte list \<Rightarrow> node decoded" where
  "decodeShort embedded flag elems =
     (case SplitString elems of
        Inl e \<Rightarrow> Some (Inl (DecodeRlp e))
      | Inr (kbuf, rest) \<Rightarrow>
          (case compactToHex kbuf of
             None \<Rightarrow> None
           | Some key \<Rightarrow>
               if hasTerm key then
                 (case SplitString rest of
                    Inl e \<Rightarrow> Some (Inl (DecodeRlp e))
                  | Inr (val, _) \<Rightarrow> Some (Inr (ShortNode key (ValueNode val) flag)))
               else map_option (map_sum id (\<lambda>(r, _). ShortNode key r flag)) (decodeRef embedded rest)))"

primrec decodeRefs :: "(byte list \<Rightarrow> node decoded) \<Rightarrow> nat \<Rightarrow> byte list \<Rightarrow> (node list \<times> byte list) decoded" where
  "decodeRefs embedded 0 elems = Some (Inr ([], elems))"
| "decodeRefs embedded (Suc n) elems =
     (case decodeRef embedded elems of
        None \<Rightarrow> None
      | Some (Inl e) \<Rightarrow> Some (Inl e)
      | Some (Inr (cld, rest)) \<Rightarrow> map_option (map_sum id (\<lambda>(clds, r). (cld # clds, r))) (decodeRefs embedded n rest))"

definition decodeFull :: "(byte list \<Rightarrow> node decoded) \<Rightarrow> nodeFlag \<Rightarrow> byte list \<Rightarrow> node decoded" where
  "decodeFull embedded flag elems =
     (case decodeRefs embedded 16 elems of
        None \<Rightarrow> None
      | Some (Inl e) \<Rightarrow> Some (Inl e)
      | Some (Inr (clds, elems)) \<Rightarrow>
          (case SplitString elems of
             Inl e \<Rightarrow> Some (Inl (DecodeRlp e))
           | Inr (val, _) \<Rightarrow> Some (Inr (FullNode (clds @ [if 0 < length val then ValueNode val else NilNode]) flag))))"

text \<open>Embedded nodes are shorter than the node around them, so the recursion is bounded by the length of the
  buffer.\<close>

primrec decode_node :: "nat \<Rightarrow> 16 word \<Rightarrow> byte list option \<Rightarrow> byte list \<Rightarrow> node decoded" where
  "decode_node 0 cachegen h buf = None"
| "decode_node (Suc fuel) cachegen h buf =
     (if length buf = 0 then Some (Inl DecodeEOF)
      else case SplitList buf of
        Inl e \<Rightarrow> Some (Inl (DecodeRlp e))
      | Inr (elems, _) \<Rightarrow>
          (let c = (case CountValues elems of Inl _ \<Rightarrow> 0 | Inr c \<Rightarrow> c);
               flag = \<lparr>nf_hash = h, nf_gen = cachegen, nf_dirty = False\<rparr>;
               embedded = decode_node fuel cachegen None in
           if c = 2 then decodeShort embedded flag elems
           else if c = 17 then decodeFull embedded flag elems
           else Some (Inl (InvalidCount c))))"

definition decodeNode :: "byte list option \<Rightarrow> byte list \<Rightarrow> 16 word \<Rightarrow> node decoded" where
  "decodeNode h buf cachegen = decode_node (length buf + 1) cachegen h buf"

text \<open>\<open>mustDecodeNode\<close> panics on an error.\<close>

definition mustDecodeNode :: "byte list \<Rightarrow> byte list \<Rightarrow> 16 word \<Rightarrow> node option" where
  "mustDecodeNode h buf cachegen =
     (case decodeNode (Some h) buf cachegen of Some (Inr n) \<Rightarrow> Some n | _ \<Rightarrow> None)"

section \<open>Key encodings round trip\<close>

definition nibbles :: "byte list \<Rightarrow> bool" where
  "nibbles ns \<longleftrightarrow> (\<forall>x\<in>set ns. x < 16)"

lemma nibbles_simps [simp]: "nibbles []" "nibbles (x # xs) \<longleftrightarrow> x < 16 \<and> nibbles xs" "nibbles (xs @ ys) \<longleftrightarrow> nibbles xs \<and> nibbles ys"
  by (auto simp: nibbles_def)

lemma nibble_join:
  fixes a b :: byte
  assumes "a < 16" "b < 16"
  shows "(push_bit 4 a OR b) div 16 = a" "(push_bit 4 a OR b) mod 16 = b"
proof -
  have "push_bit 4 a AND b = 0"
  proof (rule bit_eqI)
    fix n
    have "take_bit 4 b = b" using assms(2) by (simp add: take_bit_eq_mod word_unat_eq_iff unat_mod word_less_nat_alt)
    then have "\<not> bit b n" if "4 \<le> n" using that by (metis bit_take_bit_iff not_le)
    then show "bit (push_bit 4 a AND b) n = bit 0 n" by (auto simp: bit_and_iff bit_push_bit_iff)
  qed
  then have or: "push_bit 4 a OR b = push_bit 4 a + b" by (simp add: disjunctive_add_eq_or)
  have "unat a * 16 + unat b < 256" using assms by (simp add: word_less_nat_alt)
  then have u: "unat (push_bit 4 a + b) = unat a * 16 + unat b"
    by (simp add: push_bit_eq_mult unat_word_ariths)
  show "(push_bit 4 a OR b) div 16 = a" "(push_bit 4 a OR b) mod 16 = b"
    using assms unfolding or by (simp_all add: word_unat_eq_iff unat_div unat_mod u word_less_nat_alt)
qed

lemma keybytes_Cons: "keybytesToHex (b # str) = b div 16 # b mod 16 # keybytesToHex str"
  by (simp add: keybytesToHex_def)

lemma decodeNibbles_even:
  "nibbles ns \<Longrightarrow> even (length ns) \<Longrightarrow> \<exists>bs. decodeNibbles ns = Some bs \<and> keybytesToHex bs = ns @ [16]"
proof (induction ns rule: decodeNibbles.induct)
  case 1
  then show ?case by (simp add: keybytesToHex_def)
next
  case (3 a b ns)
  then show ?case by (auto simp: keybytes_Cons nibble_join)
qed simp

lemma decodeNibbles_keybytes: "decodeNibbles (butlast (keybytesToHex str)) = Some str"
proof (induction str)
  case (Cons b str)
  have "push_bit 4 (b div 16) OR b mod 16 = b"
  proof -
    have b: "b div 16 = drop_bit 4 b" "b mod 16 = take_bit 4 b" by (simp_all add: drop_bit_eq_div take_bit_eq_mod)
    show ?thesis unfolding b by (rule bit_eqI) (auto simp: bit_or_iff bit_push_bit_iff bit_drop_bit_eq bit_take_bit_iff)
  qed
  moreover have "keybytesToHex str \<noteq> []" by (simp add: keybytesToHex_def)
  ultimately show ?case using Cons by (simp add: keybytes_Cons)
qed (simp add: keybytesToHex_def)

lemma hasTerm_iff: "hasTerm s \<longleftrightarrow> s \<noteq> [] \<and> last s = 16"
  by (auto simp: hasTerm_def last_conv_nth)

lemma hasTerm_nibbles: "nibbles ns \<Longrightarrow> \<not> hasTerm ns"
  unfolding hasTerm_iff nibbles_def by (metis last_in_set less_irrefl)

text \<open>The flag byte: its high nibble has the two flags, its low nibble the first nibble of an odd key.\<close>

lemma flag_byte:
  fixes x :: byte
  assumes "x < 16" "t = 0 \<or> t = 1"
  shows "(push_bit 5 t OR push_bit 4 1 OR x) div 16 = 2 * t + 1" "(push_bit 5 t OR push_bit 4 1 OR x) mod 16 = x"
    "push_bit 5 t div 16 = 2 * t" "push_bit 5 t mod 16 = (0 :: byte)"
proof -
  have e: "push_bit 5 t OR push_bit 4 1 OR x = push_bit 4 (2 * t + 1) OR x" using assms(2) by (auto simp flip: or.assoc)
  show "(push_bit 5 t OR push_bit 4 1 OR x) div 16 = 2 * t + 1" "(push_bit 5 t OR push_bit 4 1 OR x) mod 16 = x"
    unfolding e using assms nibble_join[of "2 * t + 1" x] by auto
  show "push_bit 5 t div 16 = 2 * t" "push_bit 5 t mod 16 = (0 :: byte)" using assms(2) by auto
qed

text \<open>A key with or without a terminator comes back from its compact form.\<close>

lemma compact_round_trip:
  assumes "nibbles ns" "t = [] \<or> t = [16]"
  shows "\<exists>bs. hexToCompact (ns @ t) = Some bs \<and> bs \<noteq> [] \<and> compactToHex bs = Some (ns @ t)"
proof -
  define f :: byte where "f = (if t = [] then 0 else 1)"
  have strip: "(if hasTerm (ns @ t) then take (length (ns @ t) - 1) (ns @ t) else ns @ t) = ns"
    "(if hasTerm (ns @ t) then 1 else 0) = f"
    using assms hasTerm_nibbles[OF assms(1)] by (auto simp: hasTerm_iff f_def)
  have f: "f = 0 \<or> f = 1" by (simp add: f_def)
  have hex: "compactToHex (b # bs) = Some (drop (unat (2 - (b div 16 AND 1))) (b div 16 # b mod 16 # ms @ (if 2 \<le> b div 16 then [16] else [])))"
    if "keybytesToHex bs = ms @ [16]" for b bs ms
    using that by (auto simp: compactToHex_def keybytes_Cons Let_def)
  show ?thesis
  proof (cases "even (length ns)")
    case True
    then obtain bs where bs: "decodeNibbles ns = Some bs" "keybytesToHex bs = ns @ [16]"
      using decodeNibbles_even assms(1) by blast
    have "hexToCompact (ns @ t) = Some (push_bit 5 f # bs)"
      unfolding hexToCompact_def strip Let_def using True bs(1) by simp
    moreover have "compactToHex (push_bit 5 f # bs) = Some (ns @ t)"
      using hex[OF bs(2), of "push_bit 5 f"] flag_byte(3,4)[OF _ f, of 0] f assms(2) by (auto simp: f_def)
    ultimately show ?thesis by auto
  next
    case False
    then obtain x ms where ns: "ns = x # ms" "even (length ms)" by (cases ns) auto
    then obtain bs where bs: "decodeNibbles ms = Some bs" "keybytesToHex bs = ms @ [16]"
      using decodeNibbles_even[of ms] assms(1) by auto
    have "hexToCompact (ns @ t) = Some ((push_bit 5 f OR push_bit 4 1 OR x) # bs)"
      unfolding hexToCompact_def strip Let_def using False bs(1) ns by simp
    moreover have "compactToHex ((push_bit 5 f OR push_bit 4 1 OR x) # bs) = Some (ns @ t)"
      using hex[OF bs(2), of "push_bit 5 f OR push_bit 4 1 OR x"] flag_byte(1,2)[OF _ f, of x] f assms ns by (auto simp: f_def word_le_nat_alt)
    ultimately show ?thesis by auto
  qed
qed

lemma hex_keybytes_round_trip: "hexToKeybytes (keybytesToHex key) = Some key"
proof -
  have "hasTerm (keybytesToHex key)" by (simp add: keybytesToHex_def hasTerm_iff)
  moreover have "even (length (butlast (keybytesToHex key)))" by (induction key) (simp_all add: keybytesToHex_def)
  ultimately show ?thesis using decodeNibbles_keybytes[of key] by (simp add: hexToKeybytes_def Let_def butlast_conv_take)
qed

end
