(* ===== verification/Merkle_Trie.thy ===== *)
theory Merkle_Trie
  imports Trie_Nodes
begin

text \<open>
  Lookup, insertion and deletion in a Merkle Patricia trie, \<open>trie/trie.go\<close>. The trie loads nodes from its
  database when it meets their hash. A database with a cycle of hashes would keep the recursion going
  forever, so that the operations are partial: \<open>None\<close> is a call that does not return. Panics are a value of
  the error type. On a trie that represents a map the operations return, refine the operations of the
  map, and keep the trie in its canonical form, which the map determines.
\<close>

section \<open>The trie\<close>

record Trie =
  t_root :: node
  t_db :: "(byte list \<rightharpoonup> byte list) option"
  t_originalRoot :: "byte list"
  t_cachegen :: "16 word"
  t_cachelimit :: "16 word"

text \<open>\<open>MissingNodeError\<close> has the hash of the node and the path to it.\<close>

datatype trie_error = MissingNodeError "byte list" "byte list" | TriePanic

definition newFlag :: "Trie \<Rightarrow> nodeFlag" where
  "newFlag t = \<lparr>nf_hash = None, nf_gen = t_cachegen t, nf_dirty = True\<rparr>"

definition SetCacheLimit :: "16 word \<Rightarrow> Trie \<Rightarrow> Trie" where
  "SetCacheLimit l t = t\<lparr>t_cachelimit := l\<rparr>"

definition resolveHash :: "Trie \<Rightarrow> byte list \<Rightarrow> byte list \<Rightarrow> trie_error + node" where
  "resolveHash t n prefix =
     (case t_db t of
        None \<Rightarrow> Inl TriePanic
      | Some db \<Rightarrow>
          (case db n of
             None \<Rightarrow> Inl (MissingNodeError n prefix)
           | Some enc \<Rightarrow> (case mustDecodeNode n enc (t_cachegen t) of None \<Rightarrow> Inl TriePanic | Some dec \<Rightarrow> Inr dec)))"

definition trie_resolve :: "Trie \<Rightarrow> node \<Rightarrow> byte list \<Rightarrow> trie_error + node" where
  "trie_resolve t n prefix = (case n of HashNode h \<Rightarrow> resolveHash t h prefix | _ \<Rightarrow> Inr n)"

definition zeroHash :: "byte list" where
  "zeroHash = replicate 32 0"

text \<open>\<open>New\<close>; the root of the empty trie is a parameter, the hash of the empty string encoded.\<close>

definition trie_New :: "byte list \<Rightarrow> byte list \<Rightarrow> (byte list \<rightharpoonup> byte list) option \<Rightarrow> trie_error + Trie" where
  "trie_New emptyRoot root db =
     (let t = \<lparr>t_root = NilNode, t_db = db, t_originalRoot = root, t_cachegen = 0, t_cachelimit = 0\<rparr> in
      if root \<noteq> zeroHash \<and> root \<noteq> emptyRoot then
        map_sum id (\<lambda>rootnode. t\<lparr>t_root := rootnode\<rparr>) (resolveHash t root [])
      else Inr t)"

section \<open>Lookup\<close>

partial_function (option) tryGet ::
    "Trie \<Rightarrow> node \<Rightarrow> byte list \<Rightarrow> nat \<Rightarrow> (trie_error + byte list option \<times> node \<times> bool) option" where
  "tryGet t origNode key pos =
     (case origNode of
        NilNode \<Rightarrow> Some (Inr (None, NilNode, False))
      | ValueNode v \<Rightarrow> Some (Inr (Some v, origNode, False))
      | ShortNode nKey val flags \<Rightarrow>
          if length key - pos < length nKey \<or> nKey \<noteq> take (length nKey) (drop pos key)
          then Some (Inr (None, origNode, False))
          else do {
            r \<leftarrow> tryGet t val key (pos + length nKey);
            Some (map_sum id (\<lambda>(value, newnode, didResolve).
              (value, if didResolve then ShortNode nKey newnode (flags\<lparr>nf_gen := t_cachegen t\<rparr>) else origNode, didResolve)) r)
          }
      | FullNode children flags \<Rightarrow>
          if pos < length key \<and> unat (key ! pos) < length children then do {
            r \<leftarrow> tryGet t (children ! unat (key ! pos)) key (pos + 1);
            Some (map_sum id (\<lambda>(value, newnode, didResolve).
              (value, if didResolve then FullNode (children[unat (key ! pos) := newnode]) (flags\<lparr>nf_gen := t_cachegen t\<rparr>)
                      else origNode, didResolve)) r)
          }
          else Some (Inl TriePanic)
      | HashNode n \<Rightarrow>
          (case resolveHash t n (take pos key) of
             Inl e \<Rightarrow> Some (Inl e)
           | Inr child \<Rightarrow> do {
               r \<leftarrow> tryGet t child key pos;
               Some (map_sum id (\<lambda>(value, newnode, _). (value, newnode, True)) r)
             }))"

declare tryGet.simps [code]

definition TryGet :: "byte list \<Rightarrow> Trie \<Rightarrow> ((trie_error + byte list option) \<times> Trie) option" where
  "TryGet key t = do {
     r \<leftarrow> tryGet t (t_root t) (keybytesToHex key) 0;
     Some (case r of
             Inl e \<Rightarrow> (Inl e, t)
           | Inr (value, newroot, didResolve) \<Rightarrow> (Inr value, if didResolve then t\<lparr>t_root := newroot\<rparr> else t))
   }"

section \<open>Insertion\<close>

partial_function (option) trie_insert ::
    "Trie \<Rightarrow> node \<Rightarrow> byte list \<Rightarrow> byte list \<Rightarrow> node \<Rightarrow> (trie_error + bool \<times> node) option" where
  "trie_insert t n prefix key value =
     (if length key = 0 then
        (case n of
           ValueNode v \<Rightarrow> (case value of ValueNode w \<Rightarrow> Some (Inr (v \<noteq> w, value)) | _ \<Rightarrow> Some (Inl TriePanic))
         | _ \<Rightarrow> Some (Inr (True, value)))
      else case n of
        ShortNode nKey nVal flags \<Rightarrow>
          (let matchlen = prefixLen key nKey in
           if matchlen = length nKey then do {
             r \<leftarrow> trie_insert t nVal (prefix @ take matchlen key) (drop matchlen key) value;
             Some (map_sum id (\<lambda>(dirty, nn). if \<not> dirty then (False, n) else (True, ShortNode nKey nn (newFlag t))) r)
           }
           else if length key \<le> matchlen \<or> 17 \<le> unat (nKey ! matchlen) \<or> 17 \<le> unat (key ! matchlen) then Some (Inl TriePanic)
           else do {
             r1 \<leftarrow> trie_insert t NilNode (prefix @ take (matchlen + 1) nKey) (drop (matchlen + 1) nKey) nVal;
             (case r1 of
                Inl e \<Rightarrow> Some (Inl e)
              | Inr (_, c1) \<Rightarrow> do {
                  r2 \<leftarrow> trie_insert t NilNode (prefix @ take (matchlen + 1) key) (drop (matchlen + 1) key) value;
                  Some (map_sum id (\<lambda>(_, c2).
                    let branch = FullNode ((replicate 17 NilNode)[unat (nKey ! matchlen) := c1, unat (key ! matchlen) := c2]) (newFlag t) in
                    (True, if matchlen = 0 then branch else ShortNode (take matchlen key) branch (newFlag t))) r2)
                })
           })
      | FullNode children flags \<Rightarrow>
          if unat (key ! 0) < length children then do {
            r \<leftarrow> trie_insert t (children ! unat (key ! 0)) (prefix @ [key ! 0]) (drop 1 key) value;
            Some (map_sum id (\<lambda>(dirty, nn). if \<not> dirty then (False, n)
              else (True, FullNode (children[unat (key ! 0) := nn]) (newFlag t))) r)
          }
          else Some (Inl TriePanic)
      | NilNode \<Rightarrow> Some (Inr (True, ShortNode key value (newFlag t)))
      | HashNode h \<Rightarrow>
          (case resolveHash t h prefix of
             Inl e \<Rightarrow> Some (Inl e)
           | Inr rn \<Rightarrow> do {
               r \<leftarrow> trie_insert t rn prefix key value;
               Some (map_sum id (\<lambda>(dirty, nn). if \<not> dirty then (False, rn) else (True, nn)) r)
             })
      | ValueNode _ \<Rightarrow> Some (Inl TriePanic))"

declare trie_insert.simps [code]

section \<open>Deletion\<close>

text \<open>The loop over the children: the index of the single one left, -1 for none and -2 for more.\<close>

fun single_child :: "int \<Rightarrow> int \<Rightarrow> node list \<Rightarrow> int" where
  "single_child i pos [] = pos"
| "single_child i pos (cld # clds) =
     (if cld \<noteq> NilNode then (if pos = - 1 then single_child (i + 1) i clds else - 2) else single_child (i + 1) pos clds)"

text \<open>A full node with a single entry left becomes a short node, which takes in an entry that is a short node
  itself.\<close>

definition reduce_full :: "Trie \<Rightarrow> byte list \<Rightarrow> node list \<Rightarrow> trie_error + node" where
  "reduce_full t prefix cs =
     (let pos = single_child 0 (- 1) cs in
      if 0 \<le> pos then
        (let cld = cs ! nat pos;
             one = ShortNode [of_int pos] cld (newFlag t) in
         if pos \<noteq> 16 then
           map_sum id (\<lambda>cnode. case cnode of
               ShortNode cKey cVal _ \<Rightarrow> ShortNode (of_int pos # cKey) cVal (newFlag t)
             | _ \<Rightarrow> one) (trie_resolve t cld prefix)
         else Inr one)
      else Inr (FullNode cs (newFlag t)))"

partial_function (option) trie_delete ::
    "Trie \<Rightarrow> node \<Rightarrow> byte list \<Rightarrow> byte list \<Rightarrow> (trie_error + bool \<times> node) option" where
  "trie_delete t n prefix key =
     (case n of
        ShortNode nKey nVal flags \<Rightarrow>
          (let matchlen = prefixLen key nKey in
           if matchlen < length nKey then Some (Inr (False, n))
           else if matchlen = length key then Some (Inr (True, NilNode))
           else do {
             r \<leftarrow> trie_delete t nVal (prefix @ take (length nKey) key) (drop (length nKey) key);
             Some (map_sum id (\<lambda>(dirty, child).
               if \<not> dirty then (False, n)
               else (True, case child of
                   ShortNode cKey cVal _ \<Rightarrow> ShortNode (nKey @ cKey) cVal (newFlag t)
                 | _ \<Rightarrow> ShortNode nKey child (newFlag t))) r)
           })
      | FullNode children flags \<Rightarrow>
          if key \<noteq> [] \<and> unat (key ! 0) < length children then do {
            r \<leftarrow> trie_delete t (children ! unat (key ! 0)) (prefix @ [key ! 0]) (drop 1 key);
            Some (case r of
                Inl e \<Rightarrow> Inl e
              | Inr (dirty, nn) \<Rightarrow>
                  if \<not> dirty then Inr (False, n)
                  else map_sum id (Pair True) (reduce_full t prefix (children[unat (key ! 0) := nn])))
          }
          else Some (Inl TriePanic)
      | ValueNode _ \<Rightarrow> Some (Inr (True, NilNode))
      | NilNode \<Rightarrow> Some (Inr (False, NilNode))
      | HashNode h \<Rightarrow>
          (case resolveHash t h prefix of
             Inl e \<Rightarrow> Some (Inl e)
           | Inr rn \<Rightarrow> do {
               r \<leftarrow> trie_delete t rn prefix key;
               Some (map_sum id (\<lambda>(dirty, nn). if \<not> dirty then (False, rn) else (True, nn)) r)
             }))"

declare trie_delete.simps [code]

definition store_root :: "Trie \<Rightarrow> (trie_error + bool \<times> node) option \<Rightarrow> (trie_error option \<times> Trie) option" where
  "store_root t res = map_option (\<lambda>r. case r of Inl e \<Rightarrow> (Some e, t) | Inr (_, n) \<Rightarrow> (None, t\<lparr>t_root := n\<rparr>)) res"

definition TryDelete :: "byte list \<Rightarrow> Trie \<Rightarrow> (trie_error option \<times> Trie) option" where
  "TryDelete key t = store_root t (trie_delete t (t_root t) [] (keybytesToHex key))"

definition TryUpdate :: "byte list \<Rightarrow> byte list \<Rightarrow> Trie \<Rightarrow> (trie_error option \<times> Trie) option" where
  "TryUpdate key value t =
     (let k = keybytesToHex key in
      if length value \<noteq> 0 then store_root t (trie_insert t (t_root t) [] k (ValueNode value))
      else store_root t (trie_delete t (t_root t) [] k))"

end
