(* ===== verification/Trie_Maps.thy ===== *)
theory Trie_Maps
  imports Merkle_Trie
begin

text \<open>
  What a Merkle Patricia trie represents: a map from keys to values that are not empty. The relation \<open>rep\<close>
  follows the hashes of nodes that are not loaded, and holds of nodes in canonical form only: a full node
  has at least two entries, and below a short node is a value or a full node. The operations keep it.
\<close>

section \<open>Terminated keys\<close>

definition tkey :: "byte list \<Rightarrow> bool" where
  "tkey ks \<longleftrightarrow> ks \<noteq> [] \<and> last ks = 16 \<and> nibbles (butlast ks)"

lemma tkey_simps [simp]: "\<not> tkey []" "tkey (x # ks) \<longleftrightarrow> (if x = 16 then ks = [] else x < 16 \<and> tkey ks)"
  by (auto simp: tkey_def)

lemma tkey_append: "nibbles ns \<Longrightarrow> tkey (ns @ ks) \<longleftrightarrow> tkey ks"
  by (induction ns) auto

lemma tkey_keybytes: "tkey (keybytesToHex key)"
proof (induction key)
  case (Cons b key)
  have "unat (b div 16) < 16" "unat (b mod 16) < 16" using unat_bound[of b] by (simp_all add: unat_div unat_mod)
  then show ?case using Cons by (auto simp: keybytes_Cons word_less_nat_alt)
qed (simp add: keybytesToHex_def)

text \<open>Two keys, one of which is not a prefix of the other, part at some nibble.\<close>

lemma prefixLen_split:
  "prefixLen k ns = length ns \<and> (\<exists>r. k = ns @ r) \<or> prefixLen k ns = length k \<and> (\<exists>y r. ns = k @ y # r) \<or>
   (\<exists>cp x kr y nr. k = cp @ x # kr \<and> ns = cp @ y # nr \<and> x \<noteq> y \<and> prefixLen k ns = length cp)"
proof (induction k ns rule: prefixLen.induct)
  case (1 a as b bs)
  show ?case
  proof (cases "a = b")
    case True
    with 1 consider "prefixLen as bs = length bs" "\<exists>r. as = bs @ r" | "prefixLen as bs = length as" "\<exists>y r. bs = as @ y # r"
      | cp x kr y nr where "as = cp @ x # kr" "bs = cp @ y # nr" "x \<noteq> y" "prefixLen as bs = length cp"
      by blast
    then show ?thesis
    proof cases
      case (3 cp x kr y nr)
      then have "a # as = (a # cp) @ x # kr" "b # bs = (a # cp) @ y # nr" using True by simp_all
      then show ?thesis using 3 True by (metis length_Cons prefixLen.simps(1))
    qed (use True in auto)
  next
    case False
    then have "a # as = [] @ a # as \<and> b # bs = [] @ b # bs \<and> a \<noteq> b \<and> prefixLen (a # as) (b # bs) = length []" by simp
    then show ?thesis by blast
  qed
next
  case "2_1"
  then show ?case by (metis append_Nil list.exhaust list.size(3) prefixLen.simps(2))
qed auto

lemma prefixLen_append [simp]: "prefixLen (ns @ r) ns = length ns"
  by (induction ns) auto

lemma prefixLen_diverge: "x \<noteq> y \<Longrightarrow> prefixLen (cp @ x # kr) (cp @ y # nr) = length cp"
  by (induction cp) auto

lemma tkey_prefix: "tkey k \<Longrightarrow> tkey (k @ r) \<Longrightarrow> r = []"
  by (induction k) (auto split: if_splits)

text \<open>A terminated key against the key of a short node.\<close>

lemma key_cases [consumes 2]:
  assumes "tkey k" "tkey ns \<or> nibbles ns"
  obtains (inside) r where "k = ns @ r" "prefixLen k ns = length ns"
  | (parts) cp x kr y nr where "k = cp @ x # kr" "ns = cp @ y # nr" "x \<noteq> y" "prefixLen k ns = length cp" "nibbles cp"
proof -
  have no: "ns \<noteq> k @ y # r" for y r
  proof
    assume ns: "ns = k @ y # r"
    have "16 \<in> set k" using assms(1) by (metis tkey_def last_in_set)
    then have "\<not> nibbles ns" using ns by (auto simp: nibbles_def)
    then show False using assms tkey_prefix[of k "y # r"] ns by auto
  qed
  have cp: "nibbles cp" if "k = cp @ x # kr" for cp x kr
    using assms(1) that by (induction cp arbitrary: k) (auto split: if_splits)
  consider r where "k = ns @ r" "prefixLen k ns = length ns"
    | cp x kr y nr where "k = cp @ x # kr" "ns = cp @ y # nr" "x \<noteq> y" "prefixLen k ns = length cp"
    using prefixLen_split[of k ns] no by blast
  then show thesis
  proof cases
    case 1
    then show ?thesis by (rule inside)
  next
    case 2
    then show ?thesis using cp[OF 2(1)] by (rule parts)
  qed
qed

section \<open>Representation\<close>

text \<open>The map of the keys that continue a prefix, and the map of a branch.\<close>

definition shift :: "byte list \<Rightarrow> (byte list \<rightharpoonup> 'v) \<Rightarrow> (byte list \<rightharpoonup> 'v)" where
  "shift k m = (\<lambda>ks. if take (length k) ks = k then m (drop (length k) ks) else None)"

definition branch :: "(nat \<Rightarrow> (byte list \<rightharpoonup> 'v)) \<Rightarrow> (byte list \<rightharpoonup> 'v)" where
  "branch ms = (\<lambda>ks. case ks of [] \<Rightarrow> None | x # xs \<Rightarrow> if unat x < 17 then ms (unat x) xs else None)"

lemma shift_append [simp]: "shift k m (k @ ks) = m ks"
  by (simp add: shift_def)

lemma shift_outside: "(\<And>ks. x \<noteq> k @ ks) \<Longrightarrow> shift k m x = None"
  by (metis append_take_drop_id shift_def)

lemma shift_shift: "shift (k @ l) m = shift k (shift l m)"
proof
  fix x
  show "shift (k @ l) m x = shift k (shift l m) x"
  proof (cases "\<exists>y. x = k @ y")
    case True
    then obtain y where y: "x = k @ y" by blast
    show ?thesis
    proof (cases "\<exists>z. y = l @ z")
      case True
      then show ?thesis using y shift_append[of "k @ l" m] by auto
    next
      case False
      then show ?thesis using y by (simp add: shift_outside)
    qed
  next
    case False
    then show ?thesis by (simp add: shift_outside)
  qed
qed

lemma branch_simps [simp]: "branch ms [] = None" "unat x < 17 \<Longrightarrow> branch ms (x # xs) = ms (unat x) xs"
  by (simp_all add: branch_def)

definition value_slot :: "node \<Rightarrow> (byte list \<rightharpoonup> byte list) \<Rightarrow> bool" where
  "value_slot c m \<longleftrightarrow> c = NilNode \<and> m = Map.empty \<or> (\<exists>v. v \<noteq> [] \<and> c = ValueNode v \<and> m = [[] \<mapsto> v])"

definition entries :: "node list \<Rightarrow> nat" where
  "entries cs = length (filter (\<lambda>c. c \<noteq> NilNode) cs)"

definition is_branch :: "(byte list \<Rightarrow> node option) \<Rightarrow> node \<Rightarrow> bool" where
  "is_branch R c \<longleftrightarrow> (\<exists>cs f. c = FullNode cs f \<or> (\<exists>h. c = HashNode h \<and> R h = Some (FullNode cs f)))"

lemma is_branch_simps [simp]:
  "\<not> is_branch R NilNode" "\<not> is_branch R (ShortNode k c f)" "is_branch R (FullNode cs f)"
  by (simp_all add: is_branch_def)

inductive rep :: "(byte list \<Rightarrow> node option) \<Rightarrow> node \<Rightarrow> (byte list \<rightharpoonup> byte list) \<Rightarrow> bool" for R where
  rep_nil: "rep R NilNode Map.empty"
| rep_leaf: "tkey k \<Longrightarrow> v \<noteq> [] \<Longrightarrow> rep R (ShortNode k (ValueNode v) f) [k \<mapsto> v]"
| rep_ext: "k \<noteq> [] \<Longrightarrow> nibbles k \<Longrightarrow> rep R c m \<Longrightarrow> is_branch R c \<Longrightarrow> rep R (ShortNode k c f) (shift k m)"
| rep_full: "length cs = 17 \<Longrightarrow> 2 \<le> entries cs \<Longrightarrow> (\<forall>i<16. rep R (cs ! i) (ms i)) \<Longrightarrow> value_slot (cs ! 16) (ms 16) \<Longrightarrow>
    rep R (FullNode cs f) (branch ms)"
| rep_hash: "R h = Some n \<Longrightarrow> rep R n m \<Longrightarrow> n \<noteq> NilNode \<Longrightarrow> (\<And>h'. n \<noteq> HashNode h') \<Longrightarrow> rep R (HashNode h) m"

inductive_cases rep_valueE: "rep R (ValueNode v) m"
inductive_cases rep_nilE: "rep R NilNode m"
inductive_cases rep_shortE: "rep R (ShortNode k c f) m"
inductive_cases rep_fullE: "rep R (FullNode cs f) m"
inductive_cases rep_hashE: "rep R (HashNode h) m"

text \<open>The child of a full node at an index: the last one is for a value.\<close>

definition slot :: "(byte list \<Rightarrow> node option) \<Rightarrow> nat \<Rightarrow> node \<Rightarrow> (byte list \<rightharpoonup> byte list) \<Rightarrow> bool" where
  "slot R i c m \<longleftrightarrow> (if i < 16 then rep R c m else value_slot c m)"

lemma slots_iff: "(\<forall>i<17. slot R i (cs ! i) (ms i)) \<longleftrightarrow> (\<forall>i<16. rep R (cs ! i) (ms i)) \<and> value_slot (cs ! 16) (ms 16)"
proof -
  have "(\<forall>i<17. P i) \<longleftrightarrow> (\<forall>i<16. P i) \<and> P 16" for P :: "nat \<Rightarrow> bool"
  proof -
    have "i < 17 \<longleftrightarrow> i < 16 \<or> i = 16" for i :: nat by linarith
    then show ?thesis by auto
  qed
  then show ?thesis by (simp add: slot_def)
qed

lemma rep_full_slots:
  "length cs = 17 \<Longrightarrow> 2 \<le> entries cs \<Longrightarrow> (\<forall>i<17. slot R i (cs ! i) (ms i)) \<Longrightarrow> rep R (FullNode cs f) (branch ms)"
  by (intro rep_full) (simp_all add: slots_iff)

lemma slot_nil: "slot R i NilNode m \<longleftrightarrow> m = Map.empty"
  by (auto simp: slot_def value_slot_def intro: rep_nil elim: rep_nilE)

section \<open>Facts of the representation\<close>

lemma rep_keys: "rep R n m \<Longrightarrow> m k \<noteq> None \<Longrightarrow> tkey k"
proof (induction arbitrary: k rule: rep.induct)
  case (rep_ext k c m f k')
  then obtain r where "k' = k @ r" using shift_outside by metis
  then show ?case using rep_ext tkey_append by auto
next
  case (rep_full cs ms f k)
  then obtain x xs where k: "k = x # xs" "unat x < 17" by (cases k) (auto simp: branch_def split: if_splits)
  show ?case
  proof (cases "unat x < 16")
    case True
    then have "tkey xs" using rep_full k by auto
    then show ?thesis using k True by (auto simp: word_less_nat_alt)
  next
    case False
    then have "unat x = 16" using k by simp
    then have "x = 16" "xs = []"
      using rep_full.prems rep_full.hyps(3) k by (auto simp: value_slot_def word_unat_eq_iff split: if_splits)
    then show ?thesis using k by simp
  qed
qed (auto split: if_splits)

lemma rep_not_value: "\<not> rep R (ValueNode v) m"
  by (auto elim: rep_valueE)

text \<open>A node that is not nil has a key, a branch has two that differ in the first nibble.\<close>

lemma entries_two:
  assumes "2 \<le> entries cs"
  obtains i j where "i < length cs" "j < length cs" "i \<noteq> j" "cs ! i \<noteq> NilNode" "cs ! j \<noteq> NilNode"
proof -
  let ?I = "{i. i < length cs \<and> cs ! i \<noteq> NilNode}"
  have "2 \<le> card ?I" using assms by (simp add: entries_def length_filter_conv_card)
  then have "\<not> (\<forall>i\<in>?I. \<forall>j\<in>?I. i = j)" by (subst card_le_Suc0_iff_eq[symmetric]) auto
  then obtain i j where "i \<in> ?I" "j \<in> ?I" "i \<noteq> j" by blast
  then show thesis using that by auto
qed

lemma rep_nonempty: "rep R n m \<Longrightarrow> n \<noteq> NilNode \<Longrightarrow> \<exists>k v. m k = Some v"
proof (induction rule: rep.induct)
  case (rep_ext k c m f)
  then have "c \<noteq> NilNode" by (auto simp: is_branch_def)
  then show ?case using rep_ext.IH by (metis shift_append)
next
  case (rep_full cs ms f)
  obtain i where i: "i < 17" "cs ! i \<noteq> NilNode" using entries_two[OF rep_full.hyps(2)] rep_full.hyps(1) by metis
  have "\<exists>k v. ms i k = Some v"
  proof (cases "i < 16")
    case True
    then show ?thesis using rep_full.IH i by blast
  next
    case False
    then have "i = 16" using i(1) by simp
    then show ?thesis using rep_full.hyps i(2) by (auto simp: value_slot_def)
  qed
  then obtain k v where "ms i k = Some v" by blast
  then have "branch ms (of_nat i # k) = Some v" using i by (simp add: branch_def unat_of_nat)
  then show ?case by blast
qed auto

lemma slot_nonempty: "slot R i c m \<Longrightarrow> c \<noteq> NilNode \<Longrightarrow> \<exists>k v. m k = Some v"
  using rep_nonempty by (fastforce simp: slot_def value_slot_def split: if_splits)

lemma branch_parts:
  assumes "rep R c m" "is_branch R c"
  obtains x xs y ys where "m (x # xs) \<noteq> None" "m (y # ys) \<noteq> None" "x \<noteq> y"
proof -
  note parts = that
  have full: thesis if "rep R (FullNode cs f) m" for cs f
    using that
  proof (cases rule: rep.cases)
    case (rep_full ms)
    have sl: "\<forall>i<17. slot R i (cs ! i) (ms i)" using rep_full slots_iff by blast
    obtain i j where ij: "i < 17" "j < 17" "i \<noteq> j" "cs ! i \<noteq> NilNode" "cs ! j \<noteq> NilNode"
      using entries_two[OF rep_full(3)] rep_full(2) by metis
    then obtain k l where "ms i k \<noteq> None" "ms j l \<noteq> None" using sl slot_nonempty by (metis option.distinct(1))
    then have "m (of_nat i # k) \<noteq> None" "m (of_nat j # l) \<noteq> None"
      using rep_full(1) ij by (simp_all add: branch_def unat_of_nat)
    moreover have "(of_nat i :: byte) \<noteq> of_nat j" using ij by (simp add: word_unat_eq_iff unat_of_nat)
    ultimately show ?thesis by (rule parts)
  qed
  show thesis using assms full by (auto simp: is_branch_def elim: rep_hashE)
qed

section \<open>Lookup\<close>

definition loaded :: "Trie \<Rightarrow> byte list \<Rightarrow> node option" where
  "loaded t h = (case resolveHash t h [] of Inl _ \<Rightarrow> None | Inr n \<Rightarrow> Some n)"

lemma resolveHash_loaded: "loaded t h = Some n \<longleftrightarrow> resolveHash t h p = Inr n"
  by (auto simp: loaded_def resolveHash_def split: option.splits sum.splits)

lemma loaded_root [simp]: "loaded (t\<lparr>t_root := n\<rparr>) = loaded t"
  by (rule ext) (simp add: loaded_def resolveHash_def split: option.split)

lemma tryGet_value: "tryGet t (ValueNode v) key pos = Some (Inr (Some v, ValueNode v, False))"
  by (subst tryGet.simps) simp

lemma tryGet_nil: "tryGet t NilNode key pos = Some (Inr (None, NilNode, False))"
  by (subst tryGet.simps) simp

text \<open>A node may be replaced by another of the same map in its place.\<close>

definition same_shape :: "(byte list \<Rightarrow> node option) \<Rightarrow> node \<Rightarrow> node \<Rightarrow> bool" where
  "same_shape R n n' \<longleftrightarrow> (n = NilNode \<longleftrightarrow> n' = NilNode) \<and> (is_branch R n \<longrightarrow> is_branch R n')"

lemma same_shape_refl: "same_shape R n n"
  by (simp add: same_shape_def)

lemma entries_Cons: "entries (c # cs) = (if c \<noteq> NilNode then 1 else 0) + entries cs"
  by (simp add: entries_def)

lemma entries_update:
  "i < length cs \<Longrightarrow> entries (cs[i := c]) + (if cs ! i \<noteq> NilNode then 1 else 0) = entries cs + (if c \<noteq> NilNode then 1 else 0)"
proof (induction cs arbitrary: i)
  case (Cons d cs)
  show ?case
  proof (cases i)
    case 0
    then show ?thesis by (simp add: entries_Cons)
  next
    case (Suc j)
    then show ?thesis using Cons.IH[of j] Cons.prems by (simp add: entries_Cons)
  qed
qed simp

lemma rep_full_update:
  assumes "length cs = 17" "2 \<le> entries (cs[i := c])" "\<forall>i<17. slot R i (cs ! i) (ms i)" "i < 17" "slot R i c m"
  shows "rep R (FullNode (cs[i := c]) f) (branch (ms(i := m)))"
  using assms by (intro rep_full_slots) (auto simp: nth_list_update)

lemma branch_upd: "unat x < 17 \<Longrightarrow> branch (ms(unat x := (ms (unat x))(ks := v))) = (branch ms)(x # ks := v)"
  by (rule ext) (auto simp: branch_def word_unat_eq_iff split: list.split)

lemma rep_full_slotsD:
  assumes "rep R (FullNode cs f) m"
  obtains ms where "m = branch ms" "length cs = 17" "2 \<le> entries cs" "\<forall>i<17. slot R i (cs ! i) (ms i)"
  using assms by (elim rep_fullE) (use slots_iff in blast)

lemma tryGet_full:
  assumes "length cs = 17" "2 \<le> entries cs" "\<forall>i<17. slot R i (cs ! i) (ms i)" "drop pos key = x # ks" "unat x < 17"
    "tryGet t (cs ! unat x) key (pos + 1) = Some (Inr (ms (unat x) ks, n', d))"
    "slot R (unat x) n' (ms (unat x))" "n' = NilNode \<longleftrightarrow> cs ! unat x = NilNode"
  shows "\<exists>n'' d. tryGet t (FullNode cs f) key pos = Some (Inr (branch ms (drop pos key), n'', d)) \<and>
    rep R n'' (branch ms) \<and> same_shape R (FullNode cs f) n''"
proof -
  have pos: "pos < length key" "key ! pos = x" "drop (Suc pos) key = ks"
    using assms(4) by (metis drop_eq_Nil leI list.distinct(1), metis hd_drop_conv_nth drop_eq_Nil leI list.distinct(1) list.sel(1),
      metis drop_Suc drop_tl list.sel(3))
  have "entries (cs[unat x := n']) = entries cs" using entries_update[of "unat x" cs n'] assms(1,5,8) by (simp split: if_splits)
  then have upd: "rep R (FullNode (cs[unat x := n']) g) (branch ms)" for g
    using rep_full_update[of cs "unat x" n' R ms "ms (unat x)" g] assms by (simp add: fun_upd_idem)
  have old: "rep R (FullNode cs f) (branch ms)" using assms(1-3) by (rule rep_full_slots)
  have "tryGet t (FullNode cs f) key pos = Some (Inr (branch ms (drop pos key),
      if d then FullNode (cs[unat x := n']) (f\<lparr>nf_gen := t_cachegen t\<rparr>) else FullNode cs f, d))"
    using assms pos by (subst tryGet.simps) simp
  then show ?thesis using upd old by (auto simp: same_shape_def is_branch_def)
qed

lemma tryGet_rep:
  "rep (loaded t) n m \<Longrightarrow> tkey (drop pos key) \<Longrightarrow>
   \<exists>n' d. tryGet t n key pos = Some (Inr (m (drop pos key), n', d)) \<and> rep (loaded t) n' m \<and> same_shape (loaded t) n n'"
proof (induction arbitrary: pos rule: rep.induct)
  case rep_nil
  then show ?case using rep.rep_nil by (auto simp: tryGet_nil same_shape_refl)
next
  case (rep_leaf k v f)
  have old: "rep (loaded t) (ShortNode k (ValueNode v) f) [k \<mapsto> v]" using rep_leaf.hyps by (rule rep.rep_leaf)
  have "drop pos key = k" if "k = take (length k) (drop pos key)"
    using that rep_leaf tkey_prefix[of k "drop (length k) (drop pos key)"] append_take_drop_id[of "length k" "drop pos key"] by simp
  moreover have "length k \<le> length key - pos" if "drop pos key = k" using that by (metis length_drop order_refl)
  ultimately have "tryGet t (ShortNode k (ValueNode v) f) key pos =
      Some (Inr ([k \<mapsto> v] (drop pos key), ShortNode k (ValueNode v) f, False))"
    by (subst tryGet.simps) (auto simp: tryGet_value)
  then show ?case using old same_shape_refl by blast
next
  case (rep_ext k c m f)
  have old: "rep (loaded t) (ShortNode k c f) (shift k m)" using rep_ext.hyps by (intro rep.rep_ext)
  show ?case
  proof (cases "take (length k) (drop pos key) = k")
    case True
    have len: "length k \<le> length key - pos" using arg_cong[OF True, of length] by simp
    have dr: "drop pos key = k @ drop (pos + length k) key"
      using append_take_drop_id[of "length k" "drop pos key"] True by (simp add: add.commute)
    then have "tkey (drop (pos + length k) key)" using rep_ext.prems rep_ext.hyps(2) by (simp add: tkey_append)
    then obtain n' d where n': "tryGet t c key (pos + length k) = Some (Inr (m (drop (pos + length k) key), n', d))"
        "rep (loaded t) n' m" "same_shape (loaded t) c n'"
      using rep_ext.IH by blast
    have "rep (loaded t) (ShortNode k n' g) (shift k m)" for g
      using rep_ext.hyps n' by (intro rep.rep_ext) (auto simp: same_shape_def)
    moreover have "shift k m (drop pos key) = m (drop (pos + length k) key)" by (subst dr) simp
    moreover have "tryGet t (ShortNode k c f) key pos =
        Some (Inr (m (drop (pos + length k) key), if d then ShortNode k n' (f\<lparr>nf_gen := t_cachegen t\<rparr>) else ShortNode k c f, d))"
      using n'(1) len True by (subst tryGet.simps) simp
    ultimately show ?thesis using old by (auto simp: same_shape_def is_branch_def)
  next
    case False
    then have "shift k m (drop pos key) = None" by (simp add: shift_def)
    then show ?thesis using False old by (subst tryGet.simps) (auto simp: same_shape_refl)
  qed
next
  case (rep_full cs ms f)
  obtain x ks where k: "drop pos key = x # ks" using rep_full.prems by (cases "drop pos key") auto
  have sl: "\<forall>i<17. slot (loaded t) i (cs ! i) (ms i)" using rep_full slots_iff by blast
  show ?case
  proof (cases "x = 16")
    case True
    then have "ks = []" using rep_full.prems k by simp
    moreover have "value_slot (cs ! 16) (ms 16)" by (rule rep_full.hyps(3))
    ultimately have "tryGet t (cs ! 16) key (pos + 1) = Some (Inr (ms 16 ks, cs ! 16, False))" "slot (loaded t) 16 (cs ! 16) (ms 16)"
      by (auto simp: value_slot_def slot_def tryGet_value tryGet_nil)
    then show ?thesis using True by (intro tryGet_full[OF rep_full.hyps(1,2) sl k, where d = False]) simp_all
  next
    case False
    then have x: "unat x < 16" "tkey ks" using rep_full.prems k by (auto simp: word_less_nat_alt split: if_splits)
    have ks: "drop (pos + 1) key = ks" using k by (metis Suc_eq_plus1 drop_Suc drop_tl list.sel(3))
    then obtain n' d where "tryGet t (cs ! unat x) key (pos + 1) = Some (Inr (ms (unat x) ks, n', d))"
        "rep (loaded t) n' (ms (unat x))" "same_shape (loaded t) (cs ! unat x) n'"
      using rep_full.IH x by metis
    then show ?thesis using x by (intro tryGet_full[OF rep_full.hyps(1,2) sl k]) (auto simp: slot_def same_shape_def)
  qed
next
  case (rep_hash h n m)
  then obtain n' d where n': "tryGet t n key pos = Some (Inr (m (drop pos key), n', d))" "rep (loaded t) n' m"
      "same_shape (loaded t) n n'" by blast
  have "resolveHash t h (take pos key) = Inr n" using rep_hash.hyps(1) resolveHash_loaded by blast
  then have "tryGet t (HashNode h) key pos = Some (Inr (m (drop pos key), n', True))"
    using n'(1) by (subst tryGet.simps) simp
  moreover have "same_shape (loaded t) (HashNode h) n'"
    using n'(3) rep_hash.hyps by (auto simp: same_shape_def is_branch_def)
  ultimately show ?case using n'(2) by blast
qed

end
