(* ===== verification/Trie_Updates.thy ===== *)
theory Trie_Updates
  imports Trie_Maps
begin

text \<open>
  Insertion into and deletion from a trie that represents a map: both return without an error, represent the
  updated map, and keep the canonical form.
\<close>

lemma shift_Nil [simp]: "shift [] m = m"
  by (simp add: shift_def)

lemma shift_empty [simp]: "shift k Map.empty = Map.empty"
  by (rule ext) (simp add: shift_def)

lemma shift_upd: "shift k (m(r := v)) = (shift k m)(k @ r := v)"
proof
  fix x
  show "shift k (m(r := v)) x = ((shift k m)(k @ r := v)) x"
    by (cases "\<exists>y. x = k @ y") (auto simp: shift_outside split: if_splits)
qed

section \<open>Insertion\<close>

lemma insert_nil:
  "trie_insert t NilNode p ks c = Some (Inr (True, if ks = [] then c else ShortNode ks c (newFlag t)))"
  by (subst trie_insert.simps) simp

text \<open>The part of a short node after a nibble, as the child of a branch.\<close>

lemma rep_short_tail:
  assumes "rep R (ShortNode (cp @ y # r) c f) m" "nibbles cp"
  shows "unat y < 17 \<and> slot R (unat y) (if r = [] then c else ShortNode r c g) (\<lambda>ks. m (cp @ y # ks)) \<and>
    (\<forall>k. m k \<noteq> None \<longrightarrow> (\<exists>ks. k = cp @ y # ks)) \<and> c \<noteq> NilNode"
  using assms(1)
proof (cases rule: rep.cases)
  case (rep_leaf v)
  have y: "if y = 16 then r = [] else y < 16 \<and> tkey r" using rep_leaf(3) tkey_append[OF assms(2)] by simp
  have m: "(\<lambda>ks. m (cp @ y # ks)) = [r \<mapsto> v]" using rep_leaf(2) by auto
  have "slot R (unat y) (if r = [] then c else ShortNode r c g) [r \<mapsto> v]"
    using y rep_leaf by (auto simp: slot_def value_slot_def word_less_nat_alt intro: rep.rep_leaf split: if_splits)
  moreover have "unat y < 17" using y by (auto simp: word_less_nat_alt split: if_splits)
  ultimately show ?thesis using rep_leaf m by auto
next
  case (rep_ext m')
  have y: "unat y < 16" "nibbles r" using rep_ext(3) by (simp_all add: word_less_nat_alt)
  have m: "(\<lambda>ks. m (cp @ y # ks)) = shift r m'"
  proof
    fix ks
    show "m (cp @ y # ks) = shift r m' ks" using rep_ext(1) shift_shift[of "cp @ [y]" r m'] shift_append[of "cp @ [y]" "shift r m'" ks] by simp
  qed
  have "rep R (if r = [] then c else ShortNode r c g) (shift r m')"
    using rep_ext(4,5) y rep.rep_ext[of r R c m' g] by (cases "r = []") (simp_all add: shift_def)
  moreover have "\<exists>ks. k = cp @ y # ks" if "m k \<noteq> None" for k
    using that shift_outside[of k "cp @ y # r" m'] rep_ext(1) by fastforce
  ultimately show ?thesis using rep_ext y m by (auto simp: slot_def is_branch_def)
qed

lemma rep_two_way:
  assumes "slot R i c m" "slot R j d m'" "i < 17" "j < 17" "i \<noteq> j" "c \<noteq> NilNode" "d \<noteq> NilNode"
  shows "rep R (FullNode ((replicate 17 NilNode)[i := c, j := d]) f) (branch ((\<lambda>_. Map.empty)(i := m, j := m')))"
proof (rule rep_full_slots)
  let ?e = "(replicate 17 NilNode) :: node list"
  have "entries ?e = 0" by (simp add: entries_def)
  moreover have "?e ! i = NilNode" "?e[i := c] ! j = NilNode" using assms by simp_all
  ultimately show "2 \<le> entries ((replicate 17 NilNode)[i := c, j := d])"
    using entries_update[of i ?e c] entries_update[of j "?e[i := c]" d] assms by simp
  show "\<forall>k<17. slot R k ((replicate 17 NilNode)[i := c, j := d] ! k) (((\<lambda>_. Map.empty)(i := m, j := m')) k)"
    using assms by (auto simp: nth_list_update slot_nil)
qed simp

text \<open>Where the key parts from that of a short node, a branch replaces it.\<close>

lemma insert_parts:
  assumes short: "rep R (ShortNode (cp @ y # nr) c f) m" and k: "tkey (cp @ x # kr)" and cp: "nibbles cp" and xy: "x \<noteq> y"
    and v: "v \<noteq> []"
  shows "\<exists>n'. trie_insert t (ShortNode (cp @ y # nr) c f) p (cp @ x # kr) (ValueNode v) = Some (Inr (True, n')) \<and>
    rep R n' (m(cp @ x # kr \<mapsto> v)) \<and> n' \<noteq> NilNode"
proof -
  let ?c1 = "if nr = [] then c else ShortNode nr c (newFlag t)"
  let ?c2 = "if kr = [] then ValueNode v else ShortNode kr (ValueNode v) (newFlag t)"
  have c1: "unat y < 17" "slot R (unat y) ?c1 (\<lambda>ks. m (cp @ y # ks))" "\<And>k. m k \<noteq> None \<Longrightarrow> \<exists>ks. k = cp @ y # ks" "c \<noteq> NilNode"
    using rep_short_tail[OF short cp] by auto
  have x: "if x = 16 then kr = [] else x < 16 \<and> tkey kr" using k tkey_append[OF cp] by simp
  then have c2: "unat x < 17" "slot R (unat x) ?c2 [kr \<mapsto> v]"
    using v by (auto simp: slot_def value_slot_def word_less_nat_alt intro: rep.rep_leaf split: if_splits)
  define B where "B = FullNode ((replicate 17 NilNode)[unat y := ?c1, unat x := ?c2]) (newFlag t)"
  define mB where "mB = branch ((\<lambda>_. Map.empty)(unat y := (\<lambda>ks. m (cp @ y # ks)), unat x := [kr \<mapsto> v]))"
  have B: "rep R B mB"
    unfolding B_def mB_def using c1(4) xy by (intro rep_two_way c1 c2) (auto simp: word_unat_eq_iff)
  have mB: "mB (z # zs) = (if z = x then [kr \<mapsto> v] zs else if z = y then m (cp @ y # zs) else None)" for z zs
    using c1(1) c2(1) by (auto simp: mB_def branch_def simp flip: word_unat_eq_iff)
  have out: "m (cp @ z # zs) = None" if "z \<noteq> y" for z zs
    using that c1(3)[of "cp @ z # zs"] by (cases "m (cp @ z # zs)") auto
  have m: "shift cp mB = m(cp @ x # kr \<mapsto> v)"
  proof
    fix ks
    show "shift cp mB ks = (m(cp @ x # kr \<mapsto> v)) ks"
    proof (cases "\<exists>z zs. ks = cp @ z # zs")
      case True
      then obtain z zs where z: "ks = cp @ z # zs" by blast
      have "mB (z # zs) = (m(cp @ x # kr \<mapsto> v)) (cp @ z # zs)"
        using out[of z zs] mB[of z zs] xy by auto
      then show ?thesis using z by simp
    next
      case False
      then have "m ks = None" using c1(3)[of ks] by (cases "m ks") auto
      moreover have "shift cp mB ks = None"
        using False by (cases "\<exists>zs. ks = cp @ zs") (auto simp: mB_def shift_outside, metis branch_simps(1) neq_Nil_conv)
      ultimately show ?thesis using False by auto
    qed
  qed
  have "rep R (if cp = [] then B else ShortNode cp B (newFlag t)) (shift cp mB)"
    using rep.rep_ext[OF _ cp B] B by (simp add: is_branch_def B_def)
  moreover have "trie_insert t (ShortNode (cp @ y # nr) c f) p (cp @ x # kr) (ValueNode v) =
      Some (Inr (True, if cp = [] then B else ShortNode cp B (newFlag t)))"
    using c1(1) c2(1) xy by (subst trie_insert.simps) (simp add: prefixLen_diverge insert_nil Let_def B_def nth_append)
  moreover have "(if cp = [] then B else ShortNode cp B (newFlag t)) \<noteq> NilNode" by (simp add: B_def)
  ultimately show ?thesis unfolding m by blast
qed

lemma insert_full:
  assumes "length cs = 17" "2 \<le> entries cs" "\<forall>i<17. slot R i (cs ! i) (ms i)" "unat x < 17"
    "trie_insert t (cs ! unat x) (p @ [x]) ks c = Some (Inr (d, n'))" "slot R (unat x) n' ((ms (unat x))(ks \<mapsto> v))"
    "n' \<noteq> NilNode" "\<not> d \<Longrightarrow> ms (unat x) ks = Some v"
  shows "\<exists>d n''. trie_insert t (FullNode cs f) p (x # ks) c = Some (Inr (d, n'')) \<and>
    rep R n'' ((branch ms)(x # ks \<mapsto> v)) \<and> n'' \<noteq> NilNode \<and> is_branch R n'' \<and> (\<not> d \<longrightarrow> branch ms (x # ks) = Some v)"
proof -
  have "2 \<le> entries (cs[unat x := n'])" using entries_update[of "unat x" cs n'] assms(1,2,4,7) by (simp split: if_splits)
  then have upd: "rep R (FullNode (cs[unat x := n']) g) ((branch ms)(x # ks \<mapsto> v))" for g
    using rep_full_update[of cs "unat x" n' R ms "(ms (unat x))(ks \<mapsto> v)" g] assms by (simp add: branch_upd)
  have old: "rep R (FullNode cs f) ((branch ms)(x # ks \<mapsto> v))" if "\<not> d"
    using rep_full_slots[OF assms(1-3), of f] that assms(4,8) by (simp add: fun_upd_idem)
  have "trie_insert t (FullNode cs f) p (x # ks) c = Some (Inr (d, if d then FullNode (cs[unat x := n']) (newFlag t) else FullNode cs f))"
    using assms(1,4,5) by (subst trie_insert.simps) simp
  then show ?thesis using upd old assms(4,8) by auto
qed

lemma insert_rep:
  "rep (loaded t) n m \<Longrightarrow> tkey k \<Longrightarrow> v \<noteq> [] \<Longrightarrow>
   \<exists>d n'. trie_insert t n p k (ValueNode v) = Some (Inr (d, n')) \<and> rep (loaded t) n' (m(k \<mapsto> v)) \<and> n' \<noteq> NilNode \<and>
     (is_branch (loaded t) n \<longrightarrow> is_branch (loaded t) n') \<and> (\<not> d \<longrightarrow> m k = Some v)"
proof (induction arbitrary: k p rule: rep.induct)
  case rep_nil
  then have "k \<noteq> []" by auto
  moreover have "rep (loaded t) (ShortNode k (ValueNode v) (newFlag t)) [k \<mapsto> v]" using rep_nil by (intro rep.rep_leaf)
  ultimately show ?case
    by (intro exI[of _ True] exI[of _ "ShortNode k (ValueNode v) (newFlag t)"]) (simp add: insert_nil del: fun_upd_apply)
next
  case (rep_leaf k0 v0 f)
  have old: "rep (loaded t) (ShortNode k0 (ValueNode v0) f) [k0 \<mapsto> v0]" using rep_leaf.hyps by (rule rep.rep_leaf)
  have "tkey k0 \<or> nibbles k0" using rep_leaf.hyps(1) ..
  with rep_leaf.prems(1) show ?case
  proof (cases rule: key_cases)
    case (inside r)
    then have k: "k = k0" using rep_leaf tkey_prefix by auto
    have "trie_insert t (ValueNode v0) q [] (ValueNode v) = Some (Inr (v0 \<noteq> v, ValueNode v))" for q
      by (subst trie_insert.simps) simp
    moreover have "k0 \<noteq> []" using rep_leaf.hyps by auto
    moreover have "prefixLen k0 k0 = length k0" using prefixLen_append[of k0 "[]"] by simp
    ultimately have "trie_insert t (ShortNode k0 (ValueNode v0) f) p k (ValueNode v) =
        Some (Inr (v0 \<noteq> v, if v0 \<noteq> v then ShortNode k0 (ValueNode v) (newFlag t) else ShortNode k0 (ValueNode v0) f))"
      using k by (subst trie_insert.simps) (simp add: Let_def)
    moreover have "rep (loaded t) (ShortNode k0 (ValueNode v) (newFlag t)) [k0 \<mapsto> v]"
      using rep_leaf by (intro rep.rep_leaf)
    ultimately show ?thesis using k old by (cases "v0 = v") (auto simp del: fun_upd_apply simp: fun_upd_same)
  next
    case (parts cp x kr y nr)
    have "\<exists>n'. trie_insert t (ShortNode k0 (ValueNode v0) f) p k (ValueNode v) = Some (Inr (True, n')) \<and>
        rep (loaded t) n' ([k0 \<mapsto> v0](k \<mapsto> v)) \<and> n' \<noteq> NilNode"
      using insert_parts[OF old[unfolded parts(2)] _ parts(5,3) rep_leaf.prems(2)] rep_leaf.prems(1) unfolding parts(1,2) .
    then show ?thesis by (metis is_branch_simps(2))
  qed
next
  case (rep_ext k0 c m f)
  have old: "rep (loaded t) (ShortNode k0 c f) (shift k0 m)" using rep_ext.hyps by (intro rep.rep_ext)
  have "tkey k0 \<or> nibbles k0" using rep_ext.hyps(2) ..
  with rep_ext.prems(1) show ?case
  proof (cases rule: key_cases)
    case (inside r)
    then have "tkey r" using rep_ext tkey_append by auto
    then obtain d n' where n': "trie_insert t c (p @ k0) r (ValueNode v) = Some (Inr (d, n'))"
        "rep (loaded t) n' (m(r \<mapsto> v))" "is_branch (loaded t) n'" "\<not> d \<longrightarrow> m r = Some v"
      using rep_ext by blast
    have m: "shift k0 (m(r \<mapsto> v)) = (shift k0 m)(k \<mapsto> v)" using inside(1) by (simp add: shift_upd)
    have new: "rep (loaded t) (ShortNode k0 n' g) ((shift k0 m)(k \<mapsto> v))" for g
      unfolding m[symmetric] using rep_ext.hyps n' by (intro rep.rep_ext)
    have ins: "trie_insert t (ShortNode k0 c f) p k (ValueNode v) =
        Some (Inr (d, if d then ShortNode k0 n' (newFlag t) else ShortNode k0 c f))"
      using inside n'(1) rep_ext.hyps(1) by (subst trie_insert.simps) (simp add: Let_def)
    have same: "shift k0 m k = Some v" if "\<not> d" using that n'(4) inside(1) by simp
    then have "rep (loaded t) (ShortNode k0 c f) ((shift k0 m)(k \<mapsto> v))" if "\<not> d" using that old by (simp add: fun_upd_idem)
    then have "rep (loaded t) (if d then ShortNode k0 n' (newFlag t) else ShortNode k0 c f) ((shift k0 m)(k \<mapsto> v))"
      using new[of "newFlag t"] by (cases d) simp_all
    then show ?thesis
      by (intro exI[of _ d] exI[of _ "if d then ShortNode k0 n' (newFlag t) else ShortNode k0 c f"])
        (use ins same in \<open>simp del: fun_upd_apply\<close>)
  next
    case (parts cp x kr y nr)
    have "\<exists>n'. trie_insert t (ShortNode k0 c f) p k (ValueNode v) = Some (Inr (True, n')) \<and>
        rep (loaded t) n' ((shift k0 m)(k \<mapsto> v)) \<and> n' \<noteq> NilNode"
      using insert_parts[OF old[unfolded parts(2)] _ parts(5,3) rep_ext.prems(2)] rep_ext.prems(1) unfolding parts(1,2) .
    then show ?thesis by (metis is_branch_simps(2))
  qed
next
  case (rep_full cs ms f)
  obtain x ks where k: "k = x # ks" using rep_full.prems by (cases k) auto
  have sl: "\<forall>i<17. slot (loaded t) i (cs ! i) (ms i)" using rep_full slots_iff by blast
  show ?case
  proof (cases "x = 16")
    case True
    then have ks: "ks = []" using rep_full.prems k by simp
    have vs: "value_slot (cs ! 16) (ms 16)" by (rule rep_full.hyps(3))
    have "trie_insert t (cs ! 16) q [] (ValueNode v) = Some (Inr (cs ! 16 \<noteq> ValueNode v, ValueNode v))" for q
      using vs by (subst trie_insert.simps) (auto simp: value_slot_def)
    moreover have "slot (loaded t) 16 (ValueNode v) ((ms 16)([] \<mapsto> v))"
      using vs rep_full.prems by (auto simp: slot_def value_slot_def fun_upd_def fun_eq_iff)
    moreover have "ms 16 [] = Some v" if "cs ! 16 = ValueNode v" using that vs by (auto simp: value_slot_def)
    ultimately show ?thesis unfolding k ks
      using True insert_full[OF rep_full.hyps(1,2) sl, of x t p "[]" "ValueNode v" "cs ! 16 \<noteq> ValueNode v" "ValueNode v" v f]
      by (simp del: fun_upd_apply)
  next
    case False
    then have x: "unat x < 16" "tkey ks" using rep_full.prems k by (auto simp: word_less_nat_alt split: if_splits)
    then obtain d n' where n': "trie_insert t (cs ! unat x) (p @ [x]) ks (ValueNode v) = Some (Inr (d, n'))"
        "rep (loaded t) n' ((ms (unat x))(ks \<mapsto> v))" "n' \<noteq> NilNode" "\<not> d \<longrightarrow> ms (unat x) ks = Some v"
      using rep_full.IH rep_full.prems(2) by blast
    then show ?thesis unfolding k
      using insert_full[OF rep_full.hyps(1,2) sl, of x t p ks "ValueNode v" d n' v f] x by (simp add: slot_def del: fun_upd_apply)
  qed
next
  case (rep_hash h n m)
  obtain d n' where n': "trie_insert t n p k (ValueNode v) = Some (Inr (d, n'))" "rep (loaded t) n' (m(k \<mapsto> v))" "n' \<noteq> NilNode"
      "is_branch (loaded t) n \<longrightarrow> is_branch (loaded t) n'" "\<not> d \<longrightarrow> m k = Some v"
    using rep_hash.IH[OF rep_hash.prems] by blast
  have "resolveHash t h p = Inr n" using rep_hash.hyps(1) resolveHash_loaded by blast
  moreover have "k \<noteq> []" using rep_hash.prems by auto
  ultimately have "trie_insert t (HashNode h) p k (ValueNode v) = Some (Inr (d, if d then n' else n))"
    using n'(1) by (subst trie_insert.simps) simp
  moreover have "rep (loaded t) n (m(k \<mapsto> v))" if "\<not> d" using that n'(5) rep_hash.hyps(2) by (simp add: fun_upd_idem)
  moreover have "is_branch (loaded t) (HashNode h) \<longrightarrow> is_branch (loaded t) n"
    using rep_hash.hyps(1) by (auto simp: is_branch_def)
  ultimately show ?case using n' rep_hash.hyps(3)
    by (intro exI[of _ d] exI[of _ "if d then n' else n"]) (simp del: fun_upd_apply)
qed

section \<open>Deletion\<close>

text \<open>The loop over the children finds the only entry.\<close>

lemma single_child_many:
  "i \<ge> 0 \<Longrightarrow> single_child i pos cs = (if pos = - 1 then
      (if entries cs = 0 then - 1 else if entries cs = 1 then i + int (length (takeWhile (\<lambda>c. c = NilNode) cs)) else - 2)
    else if entries cs = 0 then pos else - 2)"
proof (induction cs arbitrary: i pos)
  case (Cons c cs)
  have "i + 1 \<ge> 0" using Cons.prems by simp
  then show ?case using Cons.IH[of "i + 1"] Cons.prems by (simp add: entries_Cons)
qed (simp add: entries_def)

lemma only_entry:
  assumes "entries cs = 1"
  obtains i where "i < length cs" "single_child 0 (- 1) cs = int i" "cs ! i \<noteq> NilNode"
    "\<And>j. j < length cs \<Longrightarrow> j \<noteq> i \<Longrightarrow> cs ! j = NilNode"
proof -
  define i where "i = length (takeWhile (\<lambda>c. c = NilNode) cs)"
  have ne: "\<exists>c\<in>set cs. c \<noteq> NilNode"
  proof (rule ccontr)
    assume "\<not> ?thesis"
    then have "filter (\<lambda>c. c \<noteq> NilNode) cs = []" by (simp add: filter_empty_conv)
    then show False using assms by (simp add: entries_def)
  qed
  have "i \<noteq> length cs"
  proof
    assume "i = length cs"
    then have "takeWhile (\<lambda>c. c = NilNode) cs = cs" unfolding i_def by (metis order_refl takeWhile_eq_take take_all)
    then show False using ne takeWhile_eq_all_conv[of "\<lambda>c. c = NilNode" cs] by blast
  qed
  then have i: "i < length cs" using length_takeWhile_le[of "\<lambda>c. c = NilNode" cs] by (simp add: i_def)
  have nil: "cs ! i \<noteq> NilNode" using i nth_length_takeWhile[of "\<lambda>c. c = NilNode" cs] by (simp add: i_def)
  have "cs ! j = NilNode" if j: "j < length cs" "j \<noteq> i" for j
  proof (rule ccontr)
    assume "cs ! j \<noteq> NilNode"
    then have "{i, j} \<subseteq> {k. k < length cs \<and> cs ! k \<noteq> NilNode}" using i nil j by auto
    then have "card {i, j} \<le> entries cs" unfolding entries_def length_filter_conv_card by (intro card_mono) auto
    then show False using assms j by simp
  qed
  moreover have "single_child 0 (- 1) cs = int i" using single_child_many[of 0 "- 1" cs] assms by (simp add: i_def)
  ultimately show thesis using that i nil by blast
qed

text \<open>A short node takes the key of the only entry in front of its own.\<close>

lemma rep_short_prepend:
  assumes "rep R (ShortNode ck cv f) m" "nibbles k"
  shows "rep R (ShortNode (k @ ck) cv g) (shift k m)"
  using assms(1)
proof (cases rule: rep.cases)
  case (rep_leaf v)
  have "shift k [ck \<mapsto> v] = [k @ ck \<mapsto> v]" unfolding shift_upd shift_empty ..
  moreover have "tkey (k @ ck)" using rep_leaf(3) assms(2) by (simp add: tkey_append)
  ultimately show ?thesis using rep_leaf rep.rep_leaf[of "k @ ck" v R g] by simp
next
  case (rep_ext m')
  then show ?thesis using assms(2) rep.rep_ext[of "k @ ck" R cv m' g] by (simp add: shift_shift)
qed

text \<open>Below a prefix: what the deletion in the child gives is put together again.\<close>

definition below :: "Trie \<Rightarrow> byte list \<Rightarrow> node \<Rightarrow> node" where
  "below t k c = (case c of ShortNode ck cv _ \<Rightarrow> ShortNode (k @ ck) cv (newFlag t) | _ \<Rightarrow> ShortNode k c (newFlag t))"

lemma rep_below:
  assumes "rep R c m" "k \<noteq> []" "nibbles k" "c \<noteq> NilNode" "\<And>h. c \<noteq> HashNode h"
  shows "rep R (below t k c) (shift k m)"
proof (cases c)
  case (ShortNode ck cv f)
  then show ?thesis using assms rep_short_prepend by (simp add: below_def)
next
  case (FullNode cs f)
  then show ?thesis using assms by (auto simp: below_def intro: rep.rep_ext)
qed (use assms rep_not_value in auto)

lemma branch_single:
  assumes "\<And>j. j < 17 \<Longrightarrow> j \<noteq> i \<Longrightarrow> ms j = Map.empty" "i < 17"
  shows "branch ms = shift [of_nat i] (ms i)"
proof
  fix x
  have "unat (of_nat i :: byte) = i" using assms(2) by (simp add: unat_of_nat)
  then show "branch ms x = shift [of_nat i] (ms i) x"
    using assms by (cases x) (auto simp: branch_def shift_def word_unat_eq_iff)
qed

text \<open>A full node of which one entry is left becomes a short node.\<close>

lemma reduce_rep:
  assumes "length cs = 17" "entries cs = 1" "\<forall>i<17. slot (loaded t) i (cs ! i) (ms i)"
  shows "\<exists>n'. reduce_full t p cs = Inr n' \<and> rep (loaded t) n' (branch ms) \<and> (\<forall>h. n' \<noteq> HashNode h)"
proof -
  obtain i where i: "i < 17" "single_child 0 (- 1) cs = int i" "cs ! i \<noteq> NilNode" "\<And>j. j < 17 \<Longrightarrow> j \<noteq> i \<Longrightarrow> cs ! j = NilNode"
    using only_entry[OF assms(2)] assms(1) by metis
  have "ms j = Map.empty" if "j < 17" "j \<noteq> i" for j using i(4)[OF that] assms(3) that slot_nil by metis
  then have m: "branch ms = shift [of_nat i] (ms i)" using i(1) by (rule branch_single)
  have sl: "slot (loaded t) i (cs ! i) (ms i)" using assms(3) i(1) by blast
  show ?thesis
  proof (cases "i = 16")
    case True
    then obtain v where v: "v \<noteq> []" "cs ! i = ValueNode v" "ms i = [[] \<mapsto> v]" using sl i(3) by (auto simp: slot_def value_slot_def)
    have "shift [16] [[] \<mapsto> v] = [[16] \<mapsto> v]" unfolding shift_upd shift_empty by simp
    then have "rep (loaded t) (ShortNode [16] (ValueNode v) (newFlag t)) (branch ms)"
      using v(1) rep.rep_leaf[of "[16]" v "loaded t" "newFlag t"] v(3) unfolding m True by simp
    then show ?thesis using i(2) v(2) True by (auto simp: reduce_full_def Let_def)
  next
    case False
    then have r: "rep (loaded t) (cs ! i) (ms i)" and lt: "i < 16" using sl i(1) by (auto simp: slot_def split: if_splits)
    have nib: "nibbles [of_nat i]" using lt by (simp add: word_less_nat_alt unat_of_nat)
    obtain cn where cn: "trie_resolve t (cs ! i) p = Inr cn" "rep (loaded t) cn (ms i)" "cn \<noteq> NilNode" "\<And>h. cn \<noteq> HashNode h"
      "cn = cs ! i \<or> (\<exists>h. cs ! i = HashNode h \<and> loaded t h = Some cn)"
    proof (cases "\<exists>h. cs ! i = HashNode h")
      case True
      then obtain h where h: "cs ! i = HashNode h" by blast
      then obtain cn where "loaded t h = Some cn" "rep (loaded t) cn (ms i)" "cn \<noteq> NilNode" "\<And>h. cn \<noteq> HashNode h"
        using r by (auto elim: rep_hashE)
      then show ?thesis using h resolveHash_loaded that[of cn] by (auto simp: trie_resolve_def)
    next
      case False
      then have "trie_resolve t (cs ! i) p = Inr (cs ! i)" by (cases "cs ! i") (auto simp: trie_resolve_def)
      then show ?thesis using that[of "cs ! i"] r i(3) False by auto
    qed
    define n' where "n' = (case cn of ShortNode cKey cVal _ \<Rightarrow> ShortNode (of_nat i # cKey) cVal (newFlag t)
      | _ \<Rightarrow> ShortNode [of_nat i] (cs ! i) (newFlag t))"
    have "rep (loaded t) n' (branch ms)"
    proof (cases cn)
      case (ShortNode ck cv f)
      then show ?thesis using rep_short_prepend[OF _ nib, of "loaded t" ck cv f "ms i" "newFlag t"] cn(2) by (simp add: n'_def m)
    next
      case (FullNode cs' f)
      then have "is_branch (loaded t) (cs ! i)" using cn(5) unfolding is_branch_def by metis
      then show ?thesis using FullNode r nib rep.rep_ext[of "[of_nat i]" "loaded t" "cs ! i" "ms i" "newFlag t"] by (simp add: n'_def m)
    qed (use cn rep_not_value in auto)
    moreover have "\<forall>h. n' \<noteq> HashNode h" by (simp add: n'_def split: node.split)
    ultimately show ?thesis using i(2) cn(1) False by (cases cn) (simp_all add: reduce_full_def Let_def n'_def)
  qed
qed

lemma delete_full:
  assumes "length cs = 17" "2 \<le> entries cs" "\<forall>i<17. slot (loaded t) i (cs ! i) (ms i)" "unat x < 17"
    "trie_delete t (cs ! unat x) (p @ [x]) ks = Some (Inr (d, n'))"
    "d \<longrightarrow> slot (loaded t) (unat x) n' ((ms (unat x))(ks := None))" "d \<longleftrightarrow> ms (unat x) ks \<noteq> None"
  shows "\<exists>n''. trie_delete t (FullNode cs f) p (x # ks) = Some (Inr (d, n'')) \<and>
    rep (loaded t) n'' ((branch ms)(x # ks := None)) \<and> (d \<longrightarrow> (\<forall>h. n'' \<noteq> HashNode h))"
proof (cases d)
  case False
  then have "branch ms (x # ks) = None" using assms(4,7) by simp
  then have "rep (loaded t) (FullNode cs f) ((branch ms)(x # ks := None))"
    using rep_full_slots[OF assms(1-3), of f] by (simp add: fun_upd_idem)
  then show ?thesis using assms(1,4,5) False by (subst trie_delete.simps) (simp del: fun_upd_apply)
next
  case True
  define cs' where "cs' = cs[unat x := n']"
  define ms' where "ms' = ms(unat x := (ms (unat x))(ks := None))"
  have sl: "\<forall>i<17. slot (loaded t) i (cs' ! i) (ms' i)"
    using assms(1,3,4,6) True by (auto simp: cs'_def ms'_def nth_list_update)
  have m: "branch ms' = (branch ms)(x # ks := None)" unfolding ms'_def by (rule branch_upd[OF assms(4)])
  have len: "length cs' = 17" using assms(1) by (simp add: cs'_def)
  have "cs ! unat x \<noteq> NilNode" using assms(3,4,7) True slot_nil by fastforce
  then have e: "1 \<le> entries cs'" using entries_update[of "unat x" cs n'] assms(1,2,4) by (simp add: cs'_def split: if_splits)
  have "\<exists>n''. reduce_full t p cs' = Inr n'' \<and> rep (loaded t) n'' (branch ms') \<and> (\<forall>h. n'' \<noteq> HashNode h)"
  proof (cases "entries cs' = 1")
    case True
    then show ?thesis using reduce_rep[OF len _ sl] by blast
  next
    case False
    then have "reduce_full t p cs' = Inr (FullNode cs' (newFlag t))"
      using single_child_many[of 0 "- 1" cs'] e by (simp add: reduce_full_def)
    moreover have "rep (loaded t) (FullNode cs' (newFlag t)) (branch ms')"
      using False e by (intro rep_full_slots len sl) simp
    ultimately show ?thesis by blast
  qed
  then obtain n'' where n'': "reduce_full t p cs' = Inr n''" "rep (loaded t) n'' (branch ms')" "\<forall>h. n'' \<noteq> HashNode h" by blast
  have "trie_delete t (FullNode cs f) p (x # ks) = Some (Inr (d, n''))"
    using assms(1,4,5) True n''(1) by (subst trie_delete.simps) (simp add: cs'_def)
  then show ?thesis using n'' True unfolding m by blast
qed

lemma delete_rep:
  "rep (loaded t) n m \<Longrightarrow> tkey k \<Longrightarrow>
   \<exists>d n'. trie_delete t n p k = Some (Inr (d, n')) \<and> rep (loaded t) n' (m(k := None)) \<and> (d \<longleftrightarrow> m k \<noteq> None) \<and>
     (d \<longrightarrow> (\<forall>h. n' \<noteq> HashNode h))"
proof (induction arbitrary: k p rule: rep.induct)
  case rep_nil
  have "trie_delete t NilNode p k = Some (Inr (False, NilNode))" by (subst trie_delete.simps) simp
  moreover have "rep (loaded t) NilNode (Map.empty(k := None))" using rep.rep_nil[of "loaded t"] by (simp add: fun_upd_idem)
  ultimately show ?case by blast
next
  case (rep_leaf k0 v0 f)
  have old: "rep (loaded t) (ShortNode k0 (ValueNode v0) f) [k0 \<mapsto> v0]" using rep_leaf.hyps by (rule rep.rep_leaf)
  have "tkey k0 \<or> nibbles k0" using rep_leaf.hyps(1) ..
  with rep_leaf.prems(1) show ?case
  proof (cases rule: key_cases)
    case (inside r)
    then have k: "k = k0" using rep_leaf tkey_prefix by auto
    then have "trie_delete t (ShortNode k0 (ValueNode v0) f) p k = Some (Inr (True, NilNode))"
      using inside by (subst trie_delete.simps) simp
    moreover have "[k0 \<mapsto> v0](k := None) = Map.empty" using k by auto
    then have "rep (loaded t) NilNode ([k0 \<mapsto> v0](k := None))" using rep.rep_nil by metis
    moreover have "[k0 \<mapsto> v0] k \<noteq> None" using k by simp
    ultimately show ?thesis by blast
  next
    case (parts cp x kr y nr)
    then have "trie_delete t (ShortNode k0 (ValueNode v0) f) p k = Some (Inr (False, ShortNode k0 (ValueNode v0) f))"
      by (subst trie_delete.simps) simp
    moreover have none: "[k0 \<mapsto> v0] k = None" using parts by simp
    moreover have "rep (loaded t) (ShortNode k0 (ValueNode v0) f) ([k0 \<mapsto> v0](k := None))"
    proof -
      have eq: "[k0 \<mapsto> v0](k := None) = [k0 \<mapsto> v0]" using none by (rule fun_upd_idem)
      show ?thesis unfolding eq by (rule old)
    qed
    ultimately show ?thesis by blast
  qed
next
  case (rep_ext k0 c m f)
  have old: "rep (loaded t) (ShortNode k0 c f) (shift k0 m)" using rep_ext.hyps by (intro rep.rep_ext)
  have "tkey k0 \<or> nibbles k0" using rep_ext.hyps(2) ..
  with rep_ext.prems(1) show ?case
  proof (cases rule: key_cases)
    case (inside r)
    then have r: "tkey r" "r \<noteq> []" using rep_ext tkey_append by auto
    then obtain d n' where n': "trie_delete t c (p @ k0) r = Some (Inr (d, n'))" "rep (loaded t) n' (m(r := None))"
        "d \<longleftrightarrow> m r \<noteq> None" "d \<longrightarrow> (\<forall>h. n' \<noteq> HashNode h)"
      using rep_ext.IH by blast
    have ne: "n' \<noteq> NilNode"
    proof
      assume "n' = NilNode"
      then have "m(r := None) = Map.empty" using n'(2) rep_nilE by metis
      then have "(m(r := None)) z = None" for z by simp
      moreover obtain x xs y ys where "m (x # xs) \<noteq> None" "m (y # ys) \<noteq> None" "x \<noteq> y"
        using branch_parts[OF rep_ext.hyps(3,4)] .
      ultimately show False by (metis fun_upd_apply list.inject)
    qed
    define n'' where "n'' = (if d then below t k0 n' else ShortNode k0 c f)"
    have del: "trie_delete t (ShortNode k0 c f) p k = Some (Inr (d, n''))"
      using inside r(2) n'(1) by (subst trie_delete.simps) (simp add: n''_def below_def)
    have m: "shift k0 (m(r := None)) = (shift k0 m)(k := None)" using inside(1) by (simp add: shift_upd)
    have "rep (loaded t) n'' ((shift k0 m)(k := None))"
    proof (cases d)
      case True
      then show ?thesis unfolding m[symmetric] n''_def using rep_below[OF n'(2) rep_ext.hyps(1,2) ne, of t] n'(4) by simp
    next
      case False
      then have "shift k0 m k = None" using n'(3) inside(1) by simp
      then show ?thesis using old False by (simp add: n''_def fun_upd_idem)
    qed
    moreover have "d \<longleftrightarrow> shift k0 m k \<noteq> None" using n'(3) inside(1) by simp
    moreover have "\<forall>h. n'' \<noteq> HashNode h" by (simp add: n''_def below_def split: node.split)
    ultimately show ?thesis using del by blast
  next
    case (parts cp x kr y nr)
    then have del: "trie_delete t (ShortNode k0 c f) p k = Some (Inr (False, ShortNode k0 c f))"
      by (subst trie_delete.simps) simp
    have none: "shift k0 m k = None" using parts(1-3) by (intro shift_outside) auto
    then have "rep (loaded t) (ShortNode k0 c f) ((shift k0 m)(k := None))" using old by (simp add: fun_upd_idem)
    then show ?thesis using del none by blast
  qed
next
  case (rep_full cs ms f)
  obtain x ks where k: "k = x # ks" using rep_full.prems by (cases k) auto
  have sl: "\<forall>i<17. slot (loaded t) i (cs ! i) (ms i)" using rep_full slots_iff by blast
  have fin: ?case if x: "unat x < 17" and del: "trie_delete t (cs ! unat x) (p @ [x]) ks = Some (Inr (d, n'))"
      "d \<longrightarrow> slot (loaded t) (unat x) n' ((ms (unat x))(ks := None))" "d \<longleftrightarrow> ms (unat x) ks \<noteq> None" for d n'
  proof -
    have "d \<longleftrightarrow> branch ms (x # ks) \<noteq> None" using del(3) x by simp
    then show ?thesis using delete_full[OF rep_full.hyps(1,2) sl x del, of f] unfolding k by blast
  qed
  show ?case
  proof (cases "x = 16")
    case True
    then have ks: "ks = []" using rep_full.prems k by simp
    have vs: "value_slot (cs ! 16) (ms 16)" by (rule rep_full.hyps(3))
    have "trie_delete t (cs ! 16) (p @ [x]) [] = Some (Inr (cs ! 16 \<noteq> NilNode, NilNode))"
      using vs by (subst trie_delete.simps) (auto simp: value_slot_def)
    moreover have "slot (loaded t) 16 NilNode ((ms 16)([] := None))" using vs by (auto simp: slot_nil value_slot_def)
    moreover have "cs ! 16 \<noteq> NilNode \<longleftrightarrow> ms 16 [] \<noteq> None" using vs by (auto simp: value_slot_def)
    ultimately show ?thesis using fin[of "cs ! 16 \<noteq> NilNode" NilNode] True ks by simp
  next
    case False
    then have x: "unat x < 16" "tkey ks" using rep_full.prems k by (auto simp: word_less_nat_alt split: if_splits)
    then obtain d n' where "trie_delete t (cs ! unat x) (p @ [x]) ks = Some (Inr (d, n'))"
        "rep (loaded t) n' ((ms (unat x))(ks := None))" "d \<longleftrightarrow> ms (unat x) ks \<noteq> None"
      using rep_full.IH by blast
    then show ?thesis using fin[of d n'] x by (simp add: slot_def del: fun_upd_apply)
  qed
next
  case (rep_hash h n m)
  obtain d n' where n': "trie_delete t n p k = Some (Inr (d, n'))" "rep (loaded t) n' (m(k := None))" "d \<longleftrightarrow> m k \<noteq> None"
      "d \<longrightarrow> (\<forall>h. n' \<noteq> HashNode h)"
    using rep_hash.IH[OF rep_hash.prems] by blast
  have "resolveHash t h p = Inr n" using rep_hash.hyps(1) resolveHash_loaded by blast
  then have "trie_delete t (HashNode h) p k = Some (Inr (d, if d then n' else n))"
    using n'(1) by (subst trie_delete.simps) simp
  moreover have "rep (loaded t) n (m(k := None))" if "\<not> d" using that n'(3) rep_hash.hyps(2) by (simp add: fun_upd_idem)
  ultimately show ?case using n' by (intro exI[of _ d] exI[of _ "if d then n' else n"]) (simp del: fun_upd_apply)
qed

end
