(* ===== verification/Trie_Canonical.thy ===== *)
theory Trie_Canonical
  imports Trie_Updates
begin

text \<open>
  The trie as a store: the interface of a map with values that are not void, what its clients may
  conclude of a sequence of operations, and the trie as its implementation. Then the canonical form: the
  map alone determines the nodes of the trie, however they were built and whatever of them is loaded, so that the
  hash of the root is a hash of the contents.
\<close>

section \<open>Stores\<close>

datatype ('k, 'v) store_op = Get 'k | Update 'k 'v | Delete 'k

fun run_store ::
  "('k \<Rightarrow> 's \<Rightarrow> ('v option \<times> 's) option) \<Rightarrow> ('k \<Rightarrow> 'v \<Rightarrow> 's \<Rightarrow> 's option) \<Rightarrow> ('k \<Rightarrow> 's \<Rightarrow> 's option) \<Rightarrow>
   ('k, 'v) store_op list \<Rightarrow> 's \<Rightarrow> ('v option list \<times> 's) option" where
  "run_store get upd del [] s = Some ([], s)"
| "run_store get upd del (Get k # ops) s = do {
     (v, s1) \<leftarrow> get k s; (vs, s2) \<leftarrow> run_store get upd del ops s1; Some (v # vs, s2) }"
| "run_store get upd del (Update k v # ops) s = do { s1 \<leftarrow> upd k v s; run_store get upd del ops s1 }"
| "run_store get upd del (Delete k # ops) s = do { s1 \<leftarrow> del k s; run_store get upd del ops s1 }"

fun run_map :: "('v \<Rightarrow> bool) \<Rightarrow> ('k, 'v) store_op list \<Rightarrow> ('k \<rightharpoonup> 'v) \<Rightarrow> 'v option list \<times> ('k \<rightharpoonup> 'v)" where
  "run_map void [] m = ([], m)"
| "run_map void (Get k # ops) m = (let (vs, m') = run_map void ops m in (m k # vs, m'))"
| "run_map void (Update k v # ops) m = run_map void ops (m(k := if void v then None else Some v))"
| "run_map void (Delete k # ops) m = run_map void ops (m(k := None))"

locale map_store =
  fixes rel :: "'s \<Rightarrow> ('k \<rightharpoonup> 'v) \<Rightarrow> bool"
    and void :: "'v \<Rightarrow> bool"
    and get :: "'k \<Rightarrow> 's \<Rightarrow> ('v option \<times> 's) option"
    and upd :: "'k \<Rightarrow> 'v \<Rightarrow> 's \<Rightarrow> 's option"
    and del :: "'k \<Rightarrow> 's \<Rightarrow> 's option"
  assumes get_refines: "rel s m \<Longrightarrow> \<exists>s'. get k s = Some (m k, s') \<and> rel s' m"
    and upd_refines: "rel s m \<Longrightarrow> \<exists>s'. upd k v s = Some s' \<and> rel s' (m(k := if void v then None else Some v))"
    and del_refines: "rel s m \<Longrightarrow> \<exists>s'. del k s = Some s' \<and> rel s' (m(k := None))"
begin

lemma run_refines:
  "rel s m \<Longrightarrow> \<exists>s'. run_store get upd del ops s = Some (fst (run_map void ops m), s') \<and> rel s' (snd (run_map void ops m))"
proof (induction ops arbitrary: s m)
  case (Cons op ops)
  show ?case
  proof (cases op)
    case (Get k)
    then show ?thesis using get_refines[OF Cons.prems, of k] Cons.IH by (fastforce simp: case_prod_beta)
  next
    case (Update k v)
    then show ?thesis using upd_refines[OF Cons.prems, of k v] Cons.IH by fastforce
  next
    case (Delete k)
    then show ?thesis using del_refines[OF Cons.prems, of k] Cons.IH by fastforce
  qed
qed simp

end

section \<open>The trie as a store\<close>

definition trie_map :: "Trie \<Rightarrow> (byte list \<rightharpoonup> byte list) \<Rightarrow> bool" where
  "trie_map t m \<longleftrightarrow> (\<exists>hm. rep (loaded t) (t_root t) hm \<and> dom hm \<subseteq> range keybytesToHex \<and> m = hm \<circ> keybytesToHex)"

definition trie_rel :: "(byte list \<rightharpoonup> byte list) option \<Rightarrow> Trie \<Rightarrow> (byte list \<rightharpoonup> byte list) \<Rightarrow> bool" where
  "trie_rel db t m \<longleftrightarrow> t_db t = db \<and> trie_map t m"

text \<open>The operations of the trie as those of a store: an error or a panic is \<open>None\<close>.\<close>

definition trie_get :: "byte list \<Rightarrow> Trie \<Rightarrow> (byte list option \<times> Trie) option" where
  "trie_get k t = (case TryGet k t of Some (Inr v, t') \<Rightarrow> Some (v, t') | _ \<Rightarrow> None)"

definition no_error :: "(trie_error option \<times> Trie) option \<Rightarrow> Trie option" where
  "no_error r = (case r of Some (None, t) \<Rightarrow> Some t | _ \<Rightarrow> None)"

definition trie_run :: "(byte list, byte list) store_op list \<Rightarrow> Trie \<Rightarrow> (byte list option list \<times> Trie) option" where
  "trie_run = run_store trie_get (\<lambda>k v t. no_error (TryUpdate k v t)) (\<lambda>k t. no_error (TryDelete k t))"

lemma keybytesToHex_inj: "keybytesToHex a = keybytesToHex b \<longleftrightarrow> a = b"
  using hex_keybytes_round_trip by (metis option.inject)

lemma trie_relE:
  assumes "trie_rel db t m"
  obtains hm where "rep (loaded t) (t_root t) hm" "dom hm \<subseteq> range keybytesToHex" "m = hm \<circ> keybytesToHex"
  using assms by (auto simp: trie_rel_def trie_map_def)

lemma trie_map_upd:
  assumes "rep (loaded t) n (hm(keybytesToHex k := v))" "dom hm \<subseteq> range keybytesToHex" "m = hm \<circ> keybytesToHex"
  shows "trie_map (t\<lparr>t_root := n\<rparr>) (m(k := v))"
  unfolding trie_map_def
proof (intro exI conjI)
  show "rep (loaded (t\<lparr>t_root := n\<rparr>)) (t_root (t\<lparr>t_root := n\<rparr>)) (hm(keybytesToHex k := v))" using assms(1) by simp
  show "dom (hm(keybytesToHex k := v)) \<subseteq> range keybytesToHex" using assms(2) by auto
  show "m(k := v) = hm(keybytesToHex k := v) \<circ> keybytesToHex" using assms(3) by (auto simp: fun_eq_iff keybytesToHex_inj)
qed

lemma trie_get_refines:
  assumes "trie_rel db t m"
  shows "\<exists>t'. trie_get k t = Some (m k, t') \<and> trie_rel db t' m"
proof -
  obtain hm where hm: "rep (loaded t) (t_root t) hm" "dom hm \<subseteq> range keybytesToHex" "m = hm \<circ> keybytesToHex"
    using trie_relE[OF assms(1)] .
  obtain n' d where n': "tryGet t (t_root t) (keybytesToHex k) 0 = Some (Inr (m k, n', d))" "rep (loaded t) n' hm"
    using tryGet_rep[OF hm(1), of 0 "keybytesToHex k"] tkey_keybytes[of k] hm(3) by auto
  have "trie_get k t = Some (m k, if d then t\<lparr>t_root := n'\<rparr> else t)" by (simp add: trie_get_def TryGet_def n'(1))
  moreover have "trie_map (t\<lparr>t_root := n'\<rparr>) m" unfolding trie_map_def using n'(2) hm(2,3) by auto
  ultimately show ?thesis using assms by (auto simp: trie_rel_def)
qed

lemma trie_delete_refines:
  assumes "trie_rel db t m"
  shows "\<exists>t'. store_root t (trie_delete t (t_root t) [] (keybytesToHex k)) = Some (None, t') \<and> trie_rel db t' (m(k := None))"
proof -
  obtain hm where hm: "rep (loaded t) (t_root t) hm" "dom hm \<subseteq> range keybytesToHex" "m = hm \<circ> keybytesToHex"
    using trie_relE[OF assms(1)] .
  obtain d n' where n': "trie_delete t (t_root t) [] (keybytesToHex k) = Some (Inr (d, n'))"
      "rep (loaded t) n' (hm(keybytesToHex k := None))"
    using delete_rep[OF hm(1) tkey_keybytes] by blast
  show ?thesis using n'(1) trie_map_upd[OF n'(2) hm(2,3)] assms by (auto simp: store_root_def trie_rel_def)
qed

lemma trie_insert_refines:
  assumes "trie_rel db t m" "v \<noteq> []"
  shows "\<exists>t'. store_root t (trie_insert t (t_root t) [] (keybytesToHex k) (ValueNode v)) = Some (None, t') \<and> trie_rel db t' (m(k \<mapsto> v))"
proof -
  obtain hm where hm: "rep (loaded t) (t_root t) hm" "dom hm \<subseteq> range keybytesToHex" "m = hm \<circ> keybytesToHex"
    using trie_relE[OF assms(1)] .
  obtain d n' where n': "trie_insert t (t_root t) [] (keybytesToHex k) (ValueNode v) = Some (Inr (d, n'))"
      "rep (loaded t) n' (hm(keybytesToHex k \<mapsto> v))"
    using insert_rep[OF hm(1) tkey_keybytes assms(2)] by blast
  show ?thesis using n'(1) trie_map_upd[OF n'(2) hm(2,3)] assms by (auto simp: store_root_def trie_rel_def)
qed

interpretation trie_store: map_store "trie_rel db" "\<lambda>v. v = []" trie_get "\<lambda>k v t. no_error (TryUpdate k v t)" "\<lambda>k t. no_error (TryDelete k t)"
  for db
proof
  fix t m k v
  assume r: "trie_rel db t m"
  show "\<exists>t'. trie_get k t = Some (m k, t') \<and> trie_rel db t' m" using r by (rule trie_get_refines)
  show "\<exists>t'. no_error (TryDelete k t) = Some t' \<and> trie_rel db t' (m(k := None))"
    using trie_delete_refines[OF r, of k] by (auto simp: TryDelete_def no_error_def)
  show "\<exists>t'. no_error (TryUpdate k v t) = Some t' \<and> trie_rel db t' (m(k := if v = [] then None else Some v))"
    using trie_delete_refines[OF r, of k] trie_insert_refines[OF r, of v k] by (auto simp: TryUpdate_def Let_def no_error_def)
qed

text \<open>C38: the trie refines a map. On a trie that represents a map over its database, loaded or not, any
  sequence of lookups, updates and deletions returns without an error or a panic; the lookups give what the
  map gives, where an update with an empty value deletes; and the trie then represents the updated
  map over the same database.\<close>

theorem trie_refines_map:
  assumes "trie_map t m"
  shows "\<exists>t'. trie_run ops t = Some (fst (run_map (\<lambda>v. v = []) ops m), t') \<and>
    trie_map t' (snd (run_map (\<lambda>v. v = []) ops m)) \<and> t_db t' = t_db t"
  using trie_store.run_refines[of "t_db t" t m ops] assms by (auto simp: trie_run_def trie_rel_def)

definition empty_trie :: Trie where
  "empty_trie = \<lparr>t_root = NilNode, t_db = None, t_originalRoot = zeroHash, t_cachegen = 0, t_cachelimit = 0\<rparr>"

lemma empty_trie_map: "trie_map empty_trie Map.empty"
  by (auto simp: trie_map_def empty_trie_def intro!: exI[of _ Map.empty] rep_nil)

theorem trie_refines_map_witness:
  "\<exists>t'. trie_run [Update [1, 2] [7], Update [1, 3] [8], Get [1, 2], Update [1, 2] [], Get [1, 2], Get [1, 3]] empty_trie =
     Some ([Some [7], None, Some [8]], t')"
  using trie_refines_map[OF empty_trie_map,
    of "[Update [1, 2] [7], Update [1, 3] [8], Get [1, 2], Update [1, 2] [], Get [1, 2], Get [1, 3]]"]
  by auto

section \<open>The canonical form\<close>

definition blank :: nodeFlag where
  "blank = \<lparr>nf_hash = None, nf_gen = 0, nf_dirty = False\<rparr>"

fun strip :: "node \<Rightarrow> node" where
  "strip (FullNode cs f) = FullNode (map strip cs) blank"
| "strip (ShortNode k c f) = ShortNode k (strip c) blank"
| "strip n = n"

text \<open>The node with everything below it loaded, without the flags of the cache.\<close>

inductive expands :: "(byte list \<Rightarrow> node option) \<Rightarrow> node \<Rightarrow> node \<Rightarrow> bool" for R where
  exp_nil: "expands R NilNode NilNode"
| exp_value: "expands R (ValueNode v) (ValueNode v)"
| exp_short: "expands R c x \<Longrightarrow> expands R (ShortNode k c f) (ShortNode k x blank)"
| exp_full: "length xs = length cs \<Longrightarrow> (\<forall>i<length cs. expands R (cs ! i) (xs ! i)) \<Longrightarrow> expands R (FullNode cs f) (FullNode xs blank)"
| exp_hash: "R h = Some n \<Longrightarrow> expands R n x \<Longrightarrow> expands R (HashNode h) x"

lemma expands_strip: "expands R n x \<Longrightarrow> strip x = x"
proof (induction rule: expands.induct)
  case (exp_full xs cs f)
  then show ?case by (simp add: list_eq_iff_nth_eq)
qed simp_all

text \<open>The shape of a trie in memory, as a check on its nodes.\<close>

function canonical :: "node \<Rightarrow> bool" where
  "canonical NilNode = True"
| "canonical (FullNode cs f) = (length cs = 17 \<and> 2 \<le> entries cs \<and> (\<forall>c\<in>set (take 16 cs). canonical c) \<and>
     (case cs ! 16 of NilNode \<Rightarrow> True | ValueNode v \<Rightarrow> v \<noteq> [] | _ \<Rightarrow> False))"
| "canonical (ShortNode k c f) =
     (case c of ValueNode v \<Rightarrow> tkey k \<and> v \<noteq> [] | FullNode cs g \<Rightarrow> k \<noteq> [] \<and> nibbles k \<and> canonical c | _ \<Rightarrow> False)"
| "canonical (HashNode h) = False"
| "canonical (ValueNode v) = False"
  by pat_completeness auto
termination
proof (relation "measure size")
  fix cs :: "node list" and f c
  assume "c \<in> set (take 16 cs)"
  then have "c \<in> set cs" by (rule in_set_takeD)
  then have "size c \<le> size_list size cs" by (rule size_list_estimation') simp
  then show "(c, FullNode cs f) \<in> measure size" by simp
qed auto

abbreviation in_memory :: "byte list \<Rightarrow> node option" where
  "in_memory \<equiv> (\<lambda>_. None)"

lemma canonical_rep: "rep in_memory n m \<Longrightarrow> canonical n"
proof (induction rule: rep.induct)
  case (rep_full cs ms f)
  have "canonical c" if "c \<in> set (take 16 cs)" for c
    using that rep_full.IH rep_full.hyps(1) by (auto simp: in_set_conv_nth)
  then show ?case using rep_full.hyps by (auto simp: value_slot_def)
next
  case (rep_ext k c m f)
  then obtain cs g where "c = FullNode cs g" by (auto simp: is_branch_def)
  then show ?case using rep_ext by simp
qed simp_all

text \<open>Every representation expands to one in memory.\<close>

lemma rep_expands:
  "rep R n m \<Longrightarrow> \<exists>x. expands R n x \<and> rep in_memory x m \<and> (n = NilNode \<longleftrightarrow> x = NilNode) \<and> (is_branch R n \<longrightarrow> is_branch in_memory x)"
proof (induction rule: rep.induct)
  case rep_nil
  show ?case by (intro exI[of _ NilNode]) (simp add: exp_nil rep.rep_nil)
next
  case (rep_leaf k v f)
  then have "expands R (ShortNode k (ValueNode v) f) (ShortNode k (ValueNode v) blank)"
    "rep in_memory (ShortNode k (ValueNode v) blank) [k \<mapsto> v]"
    by (intro exp_short exp_value, intro rep.rep_leaf)
  then show ?case by (intro exI[of _ "ShortNode k (ValueNode v) blank"]) (simp del: fun_upd_apply)
next
  case (rep_ext k c m f)
  then obtain x where "expands R c x" "rep in_memory x m" "is_branch in_memory x" by blast
  then have "expands R (ShortNode k c f) (ShortNode k x blank)" "rep in_memory (ShortNode k x blank) (shift k m)"
    using exp_short[of R c x k f] rep.rep_ext[OF rep_ext.hyps(1,2), of in_memory x m blank] by blast+
  then show ?case by (intro exI[of _ "ShortNode k x blank"]) simp
next
  case (rep_full cs ms f)
  define x where "x i = (if i < 16 then (SOME x. expands R (cs ! i) x \<and> rep in_memory x (ms i) \<and> (cs ! i = NilNode \<longleftrightarrow> x = NilNode)) else cs ! i)" for i
  have x: "expands R (cs ! i) (x i) \<and> slot in_memory i (x i) (ms i) \<and> (cs ! i = NilNode \<longleftrightarrow> x i = NilNode)" if "i < 17" for i
  proof (cases "i < 16")
    case True
    then have "expands R (cs ! i) (x i) \<and> rep in_memory (x i) (ms i) \<and> (cs ! i = NilNode \<longleftrightarrow> x i = NilNode)"
      unfolding x_def using rep_full.IH by (simp only: if_True) (rule someI_ex, blast)
    then show ?thesis using True by (simp add: slot_def)
  next
    case False
    then have "i = 16" using that by simp
    then show ?thesis using rep_full.hyps(3) by (auto simp: x_def slot_def value_slot_def intro: exp_nil exp_value)
  qed
  define xs where "xs = map x [0..<17]"
  have "entries xs = entries cs" 
    unfolding entries_def length_filter_conv_card xs_def using x rep_full.hyps(1) by (intro arg_cong[where f = card]) auto
  then have "rep in_memory (FullNode xs blank) (branch ms)"
    using x rep_full.hyps(2) by (intro rep_full_slots) (auto simp: xs_def)
  moreover have "expands R (FullNode cs f) (FullNode xs blank)"
    using x rep_full.hyps(1) by (intro exp_full) (auto simp: xs_def)
  ultimately show ?case by (intro exI[of _ "FullNode xs blank"]) simp
next
  case (rep_hash h n m)
  then obtain x where "expands R n x" "rep in_memory x m" "x \<noteq> NilNode" "is_branch R n \<longrightarrow> is_branch in_memory x" by blast
  moreover have "is_branch R (HashNode h) \<longrightarrow> is_branch R n" using rep_hash.hyps(1) by (auto simp: is_branch_def)
  ultimately show ?case using exp_hash[of R h n x] rep_hash.hyps(1) by blast
qed

text \<open>The map tells the kind of the node: by the number of keys, and whether they share their first nibble.\<close>

definition one_key :: "(byte list \<rightharpoonup> 'v) \<Rightarrow> bool" where
  "one_key m \<longleftrightarrow> (\<exists>k v. m = [k \<mapsto> v])"

definition parting :: "(byte list \<rightharpoonup> 'v) \<Rightarrow> bool" where
  "parting m \<longleftrightarrow> (\<exists>x xs y ys. m (x # xs) \<noteq> None \<and> m (y # ys) \<noteq> None \<and> x \<noteq> y)"

lemma parting_branch: "rep R c m \<Longrightarrow> is_branch R c \<Longrightarrow> parting m"
  unfolding parting_def using branch_parts by metis

lemma parting_not_one: "parting m \<Longrightarrow> \<not> one_key (shift k m)"
proof
  assume "parting m" "one_key (shift k m)"
  then obtain x xs y ys l v where p: "m (x # xs) \<noteq> None" "m (y # ys) \<noteq> None" "x \<noteq> y" and o: "shift k m = [l \<mapsto> v]"
    unfolding parting_def one_key_def by blast
  have "shift k m (k @ x # xs) \<noteq> None" "shift k m (k @ y # ys) \<noteq> None" using p by simp_all
  then have "k @ x # xs = l" "k @ y # ys = l" unfolding o by (auto split: if_splits)
  then show False using p(3) by auto
qed

lemma shift_not_parting: "k \<noteq> [] \<Longrightarrow> \<not> parting (shift k m)"
proof
  assume k: "k \<noteq> []" and "parting (shift k m)"
  then obtain x xs y ys where p: "shift k m (x # xs) \<noteq> None" "shift k m (y # ys) \<noteq> None" "x \<noteq> y" unfolding parting_def by blast
  then obtain us vs where "x # xs = k @ us" "y # ys = k @ vs" by (metis shift_outside)
  then show False using k p(3) by (cases k) auto
qed

lemma shift_eq_prefix:
  assumes "shift k m = shift l m'" "parting m"
  shows "length l \<le> length k"
proof (rule ccontr)
  assume "\<not> length l \<le> length k"
  obtain x xs y ys where p: "m (x # xs) \<noteq> None" "m (y # ys) \<noteq> None" "x \<noteq> y" using assms(2) unfolding parting_def by blast
  have "shift l m' (k @ x # xs) \<noteq> None" "shift l m' (k @ y # ys) \<noteq> None" using p by (simp_all flip: assms(1))
  then obtain us vs where "k @ x # xs = l @ us" "k @ y # ys = l @ vs" by (metis shift_outside)
  then have "(l @ us) ! length k = x" "(l @ vs) ! length k = y" by (metis nth_append_length)+
  then show False using p(3) \<open>\<not> length l \<le> length k\<close> by (simp add: nth_append)
qed

lemma shift_eq:
  assumes "shift k m = shift l m'" "parting m" "parting m'"
  shows "k = l \<and> m = m'"
proof -
  have len: "length k = length l" using shift_eq_prefix[OF assms(1,2)] shift_eq_prefix[OF assms(1)[symmetric] assms(3)] by simp
  obtain x xs where "m (x # xs) \<noteq> None" using assms(2) unfolding parting_def by blast
  then have "shift l m' (k @ x # xs) \<noteq> None" by (simp flip: assms(1))
  then obtain us where "k @ x # xs = l @ us" by (metis shift_outside)
  then have "k = l" using len by simp
  moreover have "m ks = m' ks" for ks using fun_cong[OF assms(1), of "k @ ks"] \<open>k = l\<close> by simp
  ultimately show ?thesis by blast
qed

lemma parting_facts: "parting m \<Longrightarrow> \<not> one_key m" "\<not> parting Map.empty" "\<not> one_key Map.empty" "one_key [k \<mapsto> v]"
  using parting_not_one[of m "[]"] by (auto simp: parting_def one_key_def fun_eq_iff)

lemma shift_not_empty: "parting m \<Longrightarrow> shift k m \<noteq> Map.empty"
  unfolding parting_def by (metis shift_append)

lemma rep_kinds [consumes 1]:
  assumes "rep in_memory n m"
  obtains (nil) "n = NilNode" "m = Map.empty"
  | (leaf) k v f where "n = ShortNode k (ValueNode v) f" "m = [k \<mapsto> v]" "one_key m"
  | (ext) k c f m' where "n = ShortNode k c f" "m = shift k m'" "rep in_memory c m'" "parting m'"
      "m \<noteq> Map.empty" "\<not> one_key m" "\<not> parting m"
  | (full) cs f where "n = FullNode cs f" "parting m"
  using assms
proof (cases rule: rep.cases)
  case rep_nil
  then show ?thesis by (intro nil) auto
next
  case (rep_leaf k v f)
  then show ?thesis using parting_facts(4) by (intro leaf) auto
next
  case (rep_ext k c m' f)
  have "parting m'" using parting_branch[OF rep_ext(5,6)] .
  then show ?thesis
    using ext[OF rep_ext(1,2,5)] rep_ext(2,3) shift_not_empty parting_not_one shift_not_parting by metis
next
  case (rep_full cs ms f)
  have "parting m" using parting_branch[OF assms] rep_full(1) by simp
  then show ?thesis using full[OF rep_full(1)] by blast
qed simp

lemma canonical_unique:
  "rep in_memory x m \<Longrightarrow> rep in_memory y m \<Longrightarrow> strip x = strip y"
proof (induction x arbitrary: y m rule: strip.induct)
  case (1 cs f)
  have part: "parting m" using "1.prems"(1) by (cases rule: rep_kinds) auto
  obtain ms where ms: "m = branch ms" "length cs = 17" "\<forall>i<17. slot in_memory i (cs ! i) (ms i)"
    using rep_full_slotsD[OF "1.prems"(1)] by metis
  obtain ds g where y: "y = FullNode ds g" using "1.prems"(2)
  proof (cases rule: rep_kinds)
    case (full ds g)
    then show ?thesis using that by blast
  qed (use part parting_facts(1)[OF part] parting_facts(2) in blast)+
  obtain ns where ns: "m = branch ns" "length ds = 17" "\<forall>i<17. slot in_memory i (ds ! i) (ns i)"
    using rep_full_slotsD[OF "1.prems"(2)[unfolded y]] by metis
  have "strip (cs ! i) = strip (ds ! i)" if i: "i < 17" for i
  proof -
    have "ms i ks = ns i ks" for ks
      using fun_cong[OF ms(1)[unfolded ns(1)], of "of_nat i # ks"] i by (simp add: branch_def unat_of_nat)
    then have eq: "ms i = ns i" by (rule ext)
    show ?thesis
    proof (cases "i < 16")
      case True
      have "rep in_memory (cs ! i) (ms i)" "rep in_memory (ds ! i) (ms i)"
        using True ms(3)[rule_format, OF i] ns(3)[rule_format, OF i] eq by (simp_all add: slot_def)
      then show ?thesis using "1.IH"[of "cs ! i" "ms i" "ds ! i"] ms(2) i by simp
    next
      case False
      then have "value_slot (cs ! i) (ms i)" "value_slot (ds ! i) (ms i)" using ms(3) ns(3) i eq by (auto simp: slot_def)
      then show ?thesis by (auto simp: value_slot_def fun_eq_iff split: if_splits)
    qed
  qed
  then show ?case using y ms(2) ns(2) by (simp add: list_eq_iff_nth_eq)
next
  case (2 k c f)
  from "2.prems"(1) show ?case
  proof (cases rule: rep_kinds)
    case (leaf k' v f')
    from "2.prems"(2) show ?thesis
    proof (cases rule: rep_kinds)
      case (leaf l w g)
      have "[k' \<mapsto> v] = [l \<mapsto> w]" using leaf(2) \<open>m = [k' \<mapsto> v]\<close> by (rule trans[OF sym, rotated])
      then have "k' = l \<and> v = w" by (metis fun_upd_apply option.distinct(1) option.inject)
      then show ?thesis using leaf \<open>ShortNode k c f = ShortNode k' (ValueNode v) f'\<close> by simp
    qed (use leaf parting_facts in auto)
  next
    case (ext k' c' f' m')
    from "2.prems"(2) show ?thesis
    proof (cases rule: rep_kinds)
      case (ext l d g n')
      then have "k' = l" "m' = n'" using shift_eq[of k' m' l n'] \<open>m = shift k' m'\<close> \<open>parting m'\<close> by auto
      then show ?thesis using "2.IH"[of m' d] ext \<open>rep in_memory c' m'\<close> \<open>ShortNode k c f = ShortNode k' c' f'\<close> by simp
    qed (use ext in auto)
  qed (use "2.prems" in auto)
next
  case "3_1"
  from "3_1.prems"(1) have e: "m = Map.empty" by (cases rule: rep_kinds) auto
  from "3_1.prems"(2) show ?case by (cases rule: rep_kinds) (use e parting_facts in auto)
next
  case "3_2"
  from "3_2.prems"(1) show ?case by (cases rule: rep_kinds) auto
next
  case "3_3"
  from "3_3.prems"(1) show ?case by (cases rule: rep_kinds) auto
qed

lemma same_form:
  assumes "trie_map t m" "trie_map t' m"
  shows "\<exists>x. canonical x \<and> expands (loaded t) (t_root t) x \<and> expands (loaded t') (t_root t') x"
proof -
  obtain hm where hm: "rep (loaded t) (t_root t) hm" "dom hm \<subseteq> range keybytesToHex" "m = hm \<circ> keybytesToHex"
    using assms(1) by (auto simp: trie_map_def)
  obtain hm' where hm': "rep (loaded t') (t_root t') hm'" "dom hm' \<subseteq> range keybytesToHex" "m = hm' \<circ> keybytesToHex"
    using assms(2) by (auto simp: trie_map_def)
  have "hm k = hm' k" for k
  proof (cases "k \<in> range keybytesToHex")
    case True
    then show ?thesis using fun_cong[OF hm(3)[unfolded hm'(3)]] by auto
  next
    case False
    then show ?thesis using hm(2) hm'(2) by (metis domIff subsetD)
  qed
  then have eq: "hm = hm'" by (rule ext)
  obtain x where x: "expands (loaded t) (t_root t) x" "rep in_memory x hm" using rep_expands[OF hm(1)] by blast
  obtain y where y: "expands (loaded t') (t_root t') y" "rep in_memory y hm" using rep_expands[OF hm'(1)] eq by blast
  have "x = y" using canonical_unique[OF x(2) y(2)] expands_strip[OF x(1)] expands_strip[OF y(1)] by simp
  then show ?thesis using x y canonical_rep by blast
qed

text \<open>C39: histories with the same outcome build the same nodes. Take two tries that represent maps, over any databases and with
  any nodes loaded, and run two sequences of gets, updates and deletes on them. Both runs end without an error, the gets
  return what the maps hold, and if the two maps end up the same then the two tries expand to one
  canonical tree: every full node has 17 children of which two are not nil, short nodes end in a value or lead to
  a full node, and what an insertion split or a deletion left behind has been merged back.\<close>

theorem trie_form_canonical:
  assumes "trie_map t0 m0" "trie_map t0' m0'" "snd (run_map (\<lambda>v. v = []) ops m0) = snd (run_map (\<lambda>v. v = []) ops' m0')"
  shows "\<exists>t t' x. trie_run ops t0 = Some (fst (run_map (\<lambda>v. v = []) ops m0), t) \<and>
    trie_run ops' t0' = Some (fst (run_map (\<lambda>v. v = []) ops' m0'), t') \<and>
    canonical x \<and> expands (loaded t) (t_root t) x \<and> expands (loaded t') (t_root t') x"
proof -
  have r: "trie_rel (t_db t0) t0 m0" "trie_rel (t_db t0') t0' m0'" using assms(1,2) by (simp_all add: trie_rel_def)
  obtain t where t: "trie_run ops t0 = Some (fst (run_map (\<lambda>v. v = []) ops m0), t)"
      "trie_map t (snd (run_map (\<lambda>v. v = []) ops m0))"
    using trie_store.run_refines[OF r(1), of ops] unfolding trie_run_def trie_rel_def by blast
  obtain t' where t': "trie_run ops' t0' = Some (fst (run_map (\<lambda>v. v = []) ops' m0'), t')"
      "trie_map t' (snd (run_map (\<lambda>v. v = []) ops' m0'))"
    using trie_store.run_refines[OF r(2), of ops'] unfolding trie_run_def trie_rel_def by blast
  show ?thesis using same_form[OF t(2)[unfolded assms(3)] t'(2)] t(1) t'(1) by blast
qed

text \<open>Two histories with one outcome: three keys inserted in one order, and the two that remain in the other order.\<close>

theorem trie_form_canonical_witness:
  "\<exists>t t' x. trie_run [Update [1, 2] [7], Update [1, 3] [8], Update [9] [9], Delete [9], Get [1, 2]] empty_trie = Some ([Some [7]], t) \<and>
     trie_run [Update [1, 3] [8], Update [1, 2] [7]] empty_trie = Some ([], t') \<and>
     canonical x \<and> expands (loaded t) (t_root t) x \<and> expands (loaded t') (t_root t') x"
proof -
  let ?ops = "[Update [1, 2] [7], Update [1, 3] [8], Update [9] [9], Delete [9], Get [1, 2]] :: (byte list, byte list) store_op list"
  let ?ops' = "[Update [1, 3] [8], Update [1, 2] [7]] :: (byte list, byte list) store_op list"
  have "snd (run_map (\<lambda>v. v = []) ?ops Map.empty) = snd (run_map (\<lambda>v. v = []) ?ops' Map.empty)"
    by (auto simp: fun_eq_iff)
  from trie_form_canonical[OF empty_trie_map empty_trie_map this] show ?thesis by simp
qed

end
