(* ===== verification/Trie_Hasher.thy ===== *)
theory Trie_Hasher
  imports Trie_Canonical
begin

text \<open>
  Hashing and committing a trie: \<open>trie/hasher.go\<close>, the end of \<open>trie/trie.go\<close> and the database in memory of
  \<open>aoadb/memory_database.go\<close>. The hash is a parameter, the Keccak of a package outside the repository, and so is the writer
  of the database, which may fail. The reference is \<open>tree_item\<close>, the encoding of a node by its expanded form alone;
  decoding it gives the node back, with its large children as hashes.
\<close>

section \<open>The hasher\<close>

record hasher =
  h_sha :: "byte list \<Rightarrow> byte list"
  h_cachegen :: "16 word"
  h_cachelimit :: "16 word"

text \<open>A write returns an error or nothing, and the state of the database. No database is \<open>None\<close>.\<close>

type_synonym ('w, 'e) writer = "byte list \<Rightarrow> byte list \<Rightarrow> 'w \<Rightarrow> 'e option \<times> 'w"

text \<open>The head of \<open>hash\<close>: what the cached hash of the node settles.\<close>

definition reuse_cached :: "hasher \<Rightarrow> node \<Rightarrow> 'w option \<Rightarrow> (node \<times> node) option" where
  "reuse_cached h n db =
     (case node_cache n of
        (None, _) \<Rightarrow> None
      | (Some hash, dirty) \<Rightarrow>
          if db = None then Some (HashNode hash, n)
          else if canUnload n (h_cachegen h) (h_cachelimit h) then Some (HashNode hash, HashNode hash)
          else if \<not> dirty then Some (HashNode hash, n)
          else None)"

definition hash_of :: "node \<Rightarrow> byte list option" where
  "hash_of n = (case n of HashNode b \<Rightarrow> Some b | _ \<Rightarrow> None)"

definition is_value :: "node \<Rightarrow> bool" where
  "is_value n = (case n of ValueNode _ \<Rightarrow> True | _ \<Rightarrow> False)"

definition hasher_store ::
    "hasher \<Rightarrow> ('w, 'e) writer \<Rightarrow> node \<Rightarrow> 'w option \<Rightarrow> bool \<Rightarrow> ('e + node) \<times> 'w option" where
  "hasher_store h put n db force =
     (if n = NilNode \<or> hash_of n \<noteq> None then (Inr n, db)
      else
        (let tmp = EncodeToBytes (node_item n) in
         if length tmp < 32 \<and> \<not> force then (Inr n, db)
         else
           (let hash = (case fst (node_cache n) of None \<Rightarrow> h_sha h tmp | Some hash \<Rightarrow> hash) in
            case db of
              None \<Rightarrow> (Inr (HashNode hash), None)
            | Some w \<Rightarrow> (case put hash tmp w of (None, w') \<Rightarrow> (Inr (HashNode hash), Some w') | (Some e, w') \<Rightarrow> (Inl e, Some w')))))"

text \<open>The end of \<open>hash\<close>: the hash goes to the flags of the copy, which is clean once it is stored.\<close>

fun cache_hash :: "byte list option \<Rightarrow> bool \<Rightarrow> node \<Rightarrow> node" where
  "cache_hash h stored (ShortNode k v f) = ShortNode k v (f\<lparr>nf_hash := h, nf_dirty := nf_dirty f \<and> \<not> stored\<rparr>)"
| "cache_hash h stored (FullNode cs f) = FullNode cs (f\<lparr>nf_hash := h, nf_dirty := nf_dirty f \<and> \<not> stored\<rparr>)"
| "cache_hash h stored n = n"

definition or_empty :: "node \<Rightarrow> node" where
  "or_empty n = (if n = NilNode then ValueNode [] else n)"

text \<open>\<open>hash\<close> and \<open>hashChildren\<close>; \<open>hash_slots\<close> is the loop over the children of a full node with what follows it. The
  results are the collapsed node and the one to keep in memory. \<open>None\<close> is a panic.\<close>

fun hasher_hash :: "hasher \<Rightarrow> ('w, 'e) writer \<Rightarrow> node \<Rightarrow> 'w option \<Rightarrow> bool \<Rightarrow> (('e + node \<times> node) \<times> 'w option) option"
and hashChildren :: "hasher \<Rightarrow> ('w, 'e) writer \<Rightarrow> node \<Rightarrow> 'w option \<Rightarrow> (('e + node \<times> node) \<times> 'w option) option"
and hash_slots :: "hasher \<Rightarrow> ('w, 'e) writer \<Rightarrow> nat \<Rightarrow> node list \<Rightarrow> 'w option \<Rightarrow> (('e + node list \<times> node list) \<times> 'w option) option" where
  "hasher_hash h put n db force =
     (if n = NilNode then None
      else case reuse_cached h n db of
        Some r \<Rightarrow> Some (Inr r, db)
      | None \<Rightarrow>
          (case hashChildren h put n db of
             None \<Rightarrow> None
           | Some (Inl e, db1) \<Rightarrow> Some (Inl e, db1)
           | Some (Inr (collapsed, cached), db1) \<Rightarrow>
               (case hasher_store h put collapsed db1 force of
                  (Inl e, db2) \<Rightarrow> Some (Inl e, db2)
                | (Inr hashed, db2) \<Rightarrow> Some (Inr (hashed, cache_hash (hash_of hashed) (db \<noteq> None) cached), db2))))"
| "hashChildren h put (ShortNode key val flags) db =
     (case hexToCompact key of
        None \<Rightarrow> None
      | Some ckey \<Rightarrow>
          if is_value val then Some (Inr (ShortNode ckey val flags, ShortNode key val flags), db)
          else case hasher_hash h put val db False of
            None \<Rightarrow> None
          | Some (Inl e, db1) \<Rightarrow> Some (Inl e, db1)
          | Some (Inr (hashed, cached), db1) \<Rightarrow>
              Some (Inr (ShortNode ckey (or_empty hashed) flags, ShortNode key cached flags), db1))"
| "hashChildren h put (FullNode children flags) db =
     (case hash_slots h put 16 children db of
        None \<Rightarrow> None
      | Some (Inl e, db1) \<Rightarrow> Some (Inl e, db1)
      | Some (Inr (hashed, cached), db1) \<Rightarrow> Some (Inr (FullNode hashed flags, FullNode cached flags), db1))"
| "hashChildren h put n db = Some (Inr (n, n), db)"
| "hash_slots h put 0 (child # _) db = Some (Inr ([or_empty child], [child]), db)"
| "hash_slots h put (Suc i) (child # children) db =
     (if child = NilNode then
        (case hash_slots h put i children db of
           None \<Rightarrow> None
         | Some (Inl e, db1) \<Rightarrow> Some (Inl e, db1)
         | Some (Inr (hs, cs), db1) \<Rightarrow> Some (Inr (ValueNode [] # hs, NilNode # cs), db1))
      else case hasher_hash h put child db False of
        None \<Rightarrow> None
      | Some (Inl e, db1) \<Rightarrow> Some (Inl e, db1)
      | Some (Inr (hashed, cached), db1) \<Rightarrow>
          (case hash_slots h put i children db1 of
             None \<Rightarrow> None
           | Some (Inl e, db2) \<Rightarrow> Some (Inl e, db2)
           | Some (Inr (hs, cs), db2) \<Rightarrow> Some (Inr (hashed # hs, cached # cs), db2)))"
| "hash_slots h put i [] db = None"

section \<open>Committing\<close>

definition BytesToHash :: "byte list \<Rightarrow> byte list" where
  "BytesToHash b = (let b = (if 32 < length b then drop (length b - 32) b else b) in replicate (32 - length b) 0 @ b)"

definition hashRoot ::
    "(byte list \<Rightarrow> byte list) \<Rightarrow> byte list \<Rightarrow> ('w, 'e) writer \<Rightarrow> Trie \<Rightarrow> 'w option \<Rightarrow> (('e + node \<times> node) \<times> 'w option) option" where
  "hashRoot sha emptyRoot put t db =
     (if t_root t = NilNode then Some (Inr (HashNode emptyRoot, NilNode), db)
      else hasher_hash \<lparr>h_sha = sha, h_cachegen = t_cachegen t, h_cachelimit = t_cachelimit t\<rparr> put (t_root t) db True)"

text \<open>\<open>MemDatabase.Put\<close> and \<open>MemDatabase.Get\<close>.\<close>

definition mem_Put :: "(byte list \<rightharpoonup> byte list, unit) writer" where
  "mem_Put key value db = (None, db(key \<mapsto> value))"

definition trie_Hash :: "(byte list \<Rightarrow> byte list) \<Rightarrow> byte list \<Rightarrow> Trie \<Rightarrow> (byte list \<times> Trie) option" where
  "trie_Hash sha emptyRoot t =
     (case hashRoot sha emptyRoot mem_Put t None of
        Some (Inr (HashNode hash, cached), _) \<Rightarrow> Some (BytesToHash hash, t\<lparr>t_root := cached\<rparr>)
      | Some (Inl _, _) \<Rightarrow> Some (BytesToHash [], t)
      | _ \<Rightarrow> None)"

definition CommitTo ::
    "(byte list \<Rightarrow> byte list) \<Rightarrow> byte list \<Rightarrow> ('w, 'e) writer \<Rightarrow> Trie \<Rightarrow> 'w \<Rightarrow> (('e + byte list) \<times> Trie \<times> 'w option) option" where
  "CommitTo sha emptyRoot put t db =
     (case hashRoot sha emptyRoot put t (Some db) of
        Some (Inr (HashNode hash, cached), db1) \<Rightarrow>
          Some (Inr (BytesToHash hash), t\<lparr>t_root := cached, t_cachegen := t_cachegen t + 1\<rparr>, db1)
      | Some (Inl e, db1) \<Rightarrow> Some (Inl e, t, db1)
      | _ \<Rightarrow> None)"

text \<open>\<open>Commit\<close> writes to the database of the trie, and panics without one.\<close>

definition trie_Commit :: "(byte list \<Rightarrow> byte list) \<Rightarrow> byte list \<Rightarrow> Trie \<Rightarrow> ((unit + byte list) \<times> Trie) option" where
  "trie_Commit sha emptyRoot t =
     (case t_db t of
        None \<Rightarrow> None
      | Some db \<Rightarrow> map_option (\<lambda>(root, t', db'). (root, t'\<lparr>t_db := db'\<rparr>)) (CommitTo sha emptyRoot mem_Put t db))"

end
