(* ===== verification/Trie_Encoding.thy ===== *)
theory Trie_Encoding
  imports Trie_Hasher
begin

text \<open>
  The encoding of a trie by its expanded form: \<open>tree_item\<close> encodes a node with its children, the small ones
  embedded and the large ones by their hash, without caches, flags or a database. The decoder of \<open>trie/node.go\<close> gives the node
  back, with a hash in place of every large child.
\<close>

section \<open>Reference encoding\<close>

definition is_inner :: "node \<Rightarrow> bool" where
  "is_inner n = (case n of FullNode _ _ \<Rightarrow> True | ShortNode _ _ _ \<Rightarrow> True | _ \<Rightarrow> False)"

lemma is_inner_simps [simp]:
  "is_inner (FullNode cs f)" "is_inner (ShortNode k c f)" "\<not> is_inner NilNode" "\<not> is_inner (ValueNode v)" "\<not> is_inner (HashNode h)"
  by (simp_all add: is_inner_def)

definition ref_of :: "(byte list \<Rightarrow> byte list) \<Rightarrow> node \<Rightarrow> item \<Rightarrow> item" where
  "ref_of sha c i = (if is_inner c \<and> 32 \<le> length (rlp i) then Str (sha (rlp i)) else i)"

fun tree_item :: "(byte list \<Rightarrow> byte list) \<Rightarrow> node \<Rightarrow> item" where
  "tree_item sha NilNode = Str []"
| "tree_item sha (ValueNode v) = Str v"
| "tree_item sha (HashNode h) = Str h"
| "tree_item sha (ShortNode k c f) = Lst [Str (the (hexToCompact k)), ref_of sha c (tree_item sha c)]"
| "tree_item sha (FullNode cs f) = Lst (map (\<lambda>c. ref_of sha c (tree_item sha c)) cs)"

abbreviation ref_item :: "(byte list \<Rightarrow> byte list) \<Rightarrow> node \<Rightarrow> item" where
  "ref_item sha c \<equiv> ref_of sha c (tree_item sha c)"

definition encoding :: "(byte list \<Rightarrow> byte list) \<Rightarrow> node \<Rightarrow> byte list" where
  "encoding sha x = rlp (tree_item sha x)"

definition big :: "(byte list \<Rightarrow> byte list) \<Rightarrow> node \<Rightarrow> bool" where
  "big sha x \<longleftrightarrow> is_inner x \<and> 32 \<le> length (encoding sha x)"

lemma ref_item_eq: "ref_item sha c = (if big sha c then Str (sha (encoding sha c)) else tree_item sha c)"
  by (simp add: ref_of_def big_def encoding_def)

text \<open>The encodings of the large nodes of a tree, and of its root.\<close>

fun large :: "(byte list \<Rightarrow> byte list) \<Rightarrow> node \<Rightarrow> byte list set" where
  "large sha (FullNode cs f) = (if big sha (FullNode cs f) then {encoding sha (FullNode cs f)} else {}) \<union> (\<Union>c\<in>set cs. large sha c)"
| "large sha (ShortNode k c f) = (if big sha (ShortNode k c f) then {encoding sha (ShortNode k c f)} else {}) \<union> large sha c"
| "large sha _ = {}"

definition node_encodings :: "(byte list \<Rightarrow> byte list) \<Rightarrow> node \<Rightarrow> byte list set" where
  "node_encodings sha x = insert (encoding sha x) (large sha x)"

lemma big_large: "big sha x \<Longrightarrow> encoding sha x \<in> large sha x"
  by (cases x) (auto simp: big_def)

lemma node_encodings_child:
  "big sha c \<Longrightarrow> node_encodings sha c \<subseteq> large sha (ShortNode k c f)"
  "big sha c \<Longrightarrow> c \<in> set cs \<Longrightarrow> node_encodings sha c \<subseteq> large sha (FullNode cs f)"
  using big_large[of sha c] by (auto simp: node_encodings_def)

section \<open>Decoding\<close>

text \<open>The node that decodes from the encoding: its large children are hashes, its small ones are decoded too.\<close>

fun opened :: "(byte list \<Rightarrow> byte list) \<Rightarrow> 16 word \<Rightarrow> byte list option \<Rightarrow> node \<Rightarrow> node" where
  "opened sha gen h (ShortNode k c f) =
     ShortNode k (if big sha c then HashNode (sha (encoding sha c)) else opened sha gen None c)
       \<lparr>nf_hash = h, nf_gen = gen, nf_dirty = False\<rparr>"
| "opened sha gen h (FullNode cs f) =
     FullNode (map (\<lambda>c. if big sha c then HashNode (sha (encoding sha c)) else opened sha gen None c) cs)
       \<lparr>nf_hash = h, nf_gen = gen, nf_dirty = False\<rparr>"
| "opened sha gen h n = n"

abbreviation opened_ref :: "(byte list \<Rightarrow> byte list) \<Rightarrow> 16 word \<Rightarrow> node \<Rightarrow> node" where
  "opened_ref sha gen c \<equiv> (if big sha c then HashNode (sha (encoding sha c)) else opened sha gen None c)"

lemma decodeRef_ref:
  assumes "is_inner c \<or> c = NilNode" "length (rlp (ref_item sha c) @ r) < 2 ^ 63" "\<And>e. length (sha e) = 32"
    and emb: "is_inner c \<Longrightarrow> \<not> big sha c \<Longrightarrow> embedded (encoding sha c @ r) = Some (Inr (opened sha gen None c))"
  shows "decodeRef embedded (rlp (ref_item sha c) @ r) = Some (Inr (opened_ref sha gen c, r))"
proof -
  have str: "Split (rlp (Str s) @ r) = Inr (Kind_String, s, r)" if "length (rlp (Str s) @ r) < 2 ^ 63" "length s \<noteq> 1" for s
    using that by (subst Split_iff) (auto simp: framed_rest kind_of_def kind_ok_def)
  consider (nil) "c = NilNode" | (big) "big sha c" | (small) "is_inner c" "\<not> big sha c" using assms(1) by auto
  then show ?thesis
  proof cases
    case nil
    then show ?thesis using str[of "[]"] assms(2) by (simp add: ref_of_def big_def decodeRef_def del: rlp.simps)
  next
    case big
    then show ?thesis using str[of "sha (encoding sha c)"] assms(2) assms(3)[of "encoding sha c"] by (auto simp: ref_item_eq decodeRef_def simp del: rlp.simps)
  next
    case small
    obtain xs where xs: "tree_item sha c = Lst xs" using small(1) by (cases c) auto
    have i: "ref_item sha c = Lst xs" "encoding sha c = rlp (Lst xs)" using small(2) ref_item_eq[of sha c] xs by (simp_all add: encoding_def)
    have "Split (rlp (Lst xs) @ r) = Inr (Kind_List, concat (map rlp xs), r)"
      using assms(2) i by (subst Split_iff) (auto simp: framed_rest)
    moreover have "length (rlp (Lst xs) @ r) - length r < 32" using small i(2) by (simp add: big_def)
    ultimately show ?thesis using emb[OF small] small(2) unfolding i by (simp add: decodeRef_def Let_def del: rlp.simps)
  qed
qed

lemma decodeRefs_refs:
  assumes "\<And>e. length (sha e) = 32"
  shows "\<forall>c\<in>set cs. is_inner c \<or> c = NilNode \<Longrightarrow> length (concat (map (\<lambda>c. rlp (ref_item sha c)) cs) @ r) < 2 ^ 63 \<Longrightarrow>
    (\<And>c s. c \<in> set cs \<Longrightarrow> is_inner c \<Longrightarrow> \<not> big sha c \<Longrightarrow> length (encoding sha c @ s) < 2 ^ 63 \<Longrightarrow> embedded (encoding sha c @ s) = Some (Inr (opened sha gen None c))) \<Longrightarrow>
    decodeRefs embedded (length cs) (concat (map (\<lambda>c. rlp (ref_item sha c)) cs) @ r) = Some (Inr (map (opened_ref sha gen) cs, r))"
proof (induction cs)
  case (Cons c cs)
  let ?s = "concat (map (\<lambda>c. rlp (ref_item sha c)) cs) @ r"
  have "length (rlp (ref_item sha c) @ ?s) < 2 ^ 63" using Cons.prems(2) by simp
  moreover have "embedded (encoding sha c @ ?s) = Some (Inr (opened sha gen None c))" if "is_inner c" "\<not> big sha c"
    using Cons.prems(2,3) that by (simp add: ref_item_eq encoding_def)
  ultimately have "decodeRef embedded (rlp (ref_item sha c) @ ?s) = Some (Inr (opened_ref sha gen c, ?s))"
    using decodeRef_ref[of c sha ?s embedded gen] Cons.prems(1) assms by simp
  moreover have "decodeRefs embedded (length cs) ?s = Some (Inr (map (opened_ref sha gen) cs, r))"
    using Cons.prems by (intro Cons.IH) auto
  ultimately show ?case by simp
qed simp

lemma hexToCompact_canonical:
  assumes "tkey k \<or> nibbles k"
  obtains ck where "hexToCompact k = Some ck" "compactToHex ck = Some k"
proof -
  have "\<exists>ns t. k = ns @ t \<and> nibbles ns \<and> (t = [] \<or> t = [16])"
    using assms by (metis append_Nil2 append_butlast_last_id tkey_def)
  then show thesis using compact_round_trip that by metis
qed

lemma length_child:
  "length (rlp (ref_item sha c)) < length (encoding sha (ShortNode k c f))"
  "c \<in> set cs \<Longrightarrow> length (rlp (ref_item sha c)) < length (encoding sha (FullNode cs f))"
proof -
  have head: "0 < length (kind_head Kind_List n)" for n by (simp add: kind_head_def puthead_def Let_def)
  have less: "length (rlp i) < length (rlp (Lst is))" if "i \<in> set is" for i "is"
  proof -
    have "length (rlp i) \<le> length (concat (map rlp is))" using that by (auto simp: length_concat intro!: member_le_sum_list)
    then show ?thesis using head[of "length (concat (map rlp is))"] by (simp add: framed_def del: length_greater_0_conv)
  qed
  show "length (rlp (ref_item sha c)) < length (encoding sha (ShortNode k c f))"
    unfolding encoding_def tree_item.simps by (rule less) simp
  show "c \<in> set cs \<Longrightarrow> length (rlp (ref_item sha c)) < length (encoding sha (FullNode cs f))"
    unfolding encoding_def tree_item.simps by (rule less) simp
qed

lemma canonical_children:
  assumes "canonical (FullNode cs f)"
  obtains ds v where "cs = ds @ [v]" "length ds = 16" "\<forall>c\<in>set ds. canonical c" "v = NilNode \<or> (\<exists>w. w \<noteq> [] \<and> v = ValueNode w)"
proof -
  have len: "length cs = 17" using assms by simp
  then have cs: "cs = take 16 cs @ [cs ! 16]" using id_take_nth_drop[of 16 cs] by simp
  have "cs ! 16 = NilNode \<or> (\<exists>w. w \<noteq> [] \<and> cs ! 16 = ValueNode w)" using assms by (cases "cs ! 16") auto
  then show thesis using that[OF cs] assms len by simp
qed

lemma canonical_kinds: "canonical c \<Longrightarrow> is_inner c \<or> c = NilNode"
  by (cases c) auto

lemma decode_list:
  assumes "length (rlp (Lst is) @ r) < 2 ^ 63"
  shows "decode_node (Suc fuel) gen h (rlp (Lst is) @ r) =
    (let flag = \<lparr>nf_hash = h, nf_gen = gen, nf_dirty = False\<rparr> in
     if length is = 2 then decodeShort (decode_node fuel gen None) flag (concat (map rlp is))
     else if length is = 17 then decodeFull (decode_node fuel gen None) flag (concat (map rlp is))
     else Some (Inl (InvalidCount (length is))))"
proof -
  have "SplitList (rlp (Lst is) @ r) = Inr (concat (map rlp is), r)" using assms by (simp add: SplitList_iff framed_rest)
  moreover have "CountValues (concat (map rlp is)) = Inr (length is)" using assms by (intro CountValues_rlp) (simp add: framed_def)
  moreover have "rlp (Lst is) \<noteq> []" by (simp add: framed_def kind_head_def puthead_def Let_def)
  ultimately show ?thesis by (simp add: Let_def del: rlp.simps)
qed

lemma decode_short:
  assumes can: "canonical (ShortNode k c f)" and sha: "\<And>e. length (sha e) = 32"
    and len: "length (encoding sha (ShortNode k c f) @ r) < 2 ^ 63"
    and emb: "\<And>s. is_inner c \<Longrightarrow> \<not> big sha c \<Longrightarrow> length (encoding sha c @ s) < 2 ^ 63 \<Longrightarrow>
      decode_node fuel gen None (encoding sha c @ s) = Some (Inr (opened sha gen None c))"
  shows "decode_node (Suc fuel) gen h (encoding sha (ShortNode k c f) @ r) = Some (Inr (opened sha gen h (ShortNode k c f)))"
proof -
  have k: "tkey k \<and> (\<exists>v. c = ValueNode v) \<or> nibbles k \<and> is_inner c" using can by (cases c) auto
  then obtain ck where ck: "hexToCompact k = Some ck" "compactToHex ck = Some k" using hexToCompact_canonical by metis
  let ?is = "[Str ck, ref_item sha c]"
  have item: "encoding sha (ShortNode k c f) = rlp (Lst ?is)" by (simp add: encoding_def ck(1))
  have short: "length (rlp (Str ck) @ rlp (ref_item sha c)) < 2 ^ 63" using len unfolding item by (simp add: framed_def)
  have key: "SplitString (concat (map rlp ?is)) = Inr (ck, rlp (ref_item sha c))"
    using short by (subst SplitString_iff) (simp_all del: rlp.simps)
  show ?thesis
  proof (cases "is_inner c")
    case True
    then have "\<not> hasTerm k" using k hasTerm_nibbles by auto
    moreover have "decodeRef (decode_node fuel gen None) (rlp (ref_item sha c) @ []) = Some (Inr (opened_ref sha gen c, []))"
      using emb[of "[]"] True short by (intro decodeRef_ref sha) (simp_all add: ref_item_eq encoding_def)
    ultimately show ?thesis using decode_list[of ?is r fuel gen h] len key unfolding item
      by (simp add: Let_def decodeShort_def ck(2) del: rlp.simps)
  next
    case False
    then obtain v where v: "c = ValueNode v" "tkey k" using k by blast
    then have "hasTerm k" by (auto simp: tkey_def hasTerm_iff)
    moreover have "ref_item sha c = Str v" "\<not> big sha c" using v by (simp_all add: ref_of_def big_def)
    moreover have "SplitString (rlp (Str v)) = Inr (v, [])"
      using short \<open>ref_item sha c = Str v\<close> by (subst SplitString_iff) (simp_all del: rlp.simps)
    ultimately show ?thesis using decode_list[of ?is r fuel gen h] len key unfolding item
      by (simp add: Let_def decodeShort_def ck(2) v(1) del: rlp.simps)
  qed
qed

lemma canonical_kids: "canonical (FullNode cs f) \<Longrightarrow> c \<in> set cs \<Longrightarrow> is_inner c \<Longrightarrow> canonical c"
  by (elim canonical_children) auto

lemma decode_full:
  assumes can: "canonical (FullNode cs f)" and sha: "\<And>e. length (sha e) = 32"
    and len: "length (encoding sha (FullNode cs f) @ r) < 2 ^ 63"
    and emb: "\<And>c s. c \<in> set cs \<Longrightarrow> is_inner c \<Longrightarrow> \<not> big sha c \<Longrightarrow> length (encoding sha c @ s) < 2 ^ 63 \<Longrightarrow>
      decode_node fuel gen None (encoding sha c @ s) = Some (Inr (opened sha gen None c))"
  shows "decode_node (Suc fuel) gen h (encoding sha (FullNode cs f) @ r) = Some (Inr (opened sha gen h (FullNode cs f)))"
proof -
  obtain ds v where cs: "cs = ds @ [v]" "length ds = 16" "\<forall>c\<in>set ds. canonical c" "v = NilNode \<or> (\<exists>w. w \<noteq> [] \<and> v = ValueNode w)"
    using canonical_children[OF can] .
  let ?is = "map (ref_item sha) cs"
  obtain w where w: "ref_item sha v = Str w" "opened_ref sha gen v = (if w = [] then NilNode else ValueNode w)"
    using cs(4) by (auto simp: ref_of_def big_def)
  have item: "encoding sha (FullNode cs f) = rlp (Lst ?is)" by (simp add: encoding_def)
  have elems: "concat (map rlp ?is) = concat (map (\<lambda>c. rlp (ref_item sha c)) ds) @ rlp (Str w)"
    using w(1) unfolding cs(1) by (simp add: comp_def del: rlp.simps)
  have short: "length (concat (map (\<lambda>c. rlp (ref_item sha c)) ds) @ rlp (Str w)) < 2 ^ 63"
    using len unfolding item elems[symmetric] by (simp add: framed_def)
  have "decodeRefs (decode_node fuel gen None) (length ds) (concat (map rlp ?is)) = Some (Inr (map (opened_ref sha gen) ds, rlp (Str w)))"
    unfolding elems using cs(3) canonical_kinds emb short unfolding cs(1) by (intro decodeRefs_refs sha) auto
  moreover have "SplitString (rlp (Str w)) = Inr (w, [])" using short by (subst SplitString_iff) (simp_all del: rlp.simps)
  ultimately have "decodeFull (decode_node fuel gen None) flag (concat (map rlp ?is)) = Some (Inr (FullNode (map (opened_ref sha gen) cs) flag))" for flag
    using w(2) cs(2) unfolding cs(1) by (simp add: decodeFull_def del: rlp.simps)
  then show ?thesis using decode_list[of ?is r fuel gen h] len cs(1,2) unfolding item by (simp add: Let_def del: rlp.simps)
qed

lemma decode_opened:
  assumes sha: "\<And>e. length (sha e) = 32"
  shows "canonical x \<Longrightarrow> is_inner x \<Longrightarrow> length (encoding sha x @ r) < 2 ^ 63 \<Longrightarrow> length (encoding sha x) < fuel \<Longrightarrow>
    decode_node fuel gen h (encoding sha x @ r) = Some (Inr (opened sha gen h x))"
proof (induction fuel arbitrary: x r h)
  case (Suc fuel)
  have emb: "decode_node fuel gen None (encoding sha c @ s) = Some (Inr (opened sha gen None c))"
    if "canonical c" "is_inner c" "length (encoding sha c @ s) < 2 ^ 63" "length (encoding sha c) < length (encoding sha x)" for c s
    using that Suc.prems(4) by (intro Suc.IH) auto
  have kid: "length (encoding sha c) < length (encoding sha x)" if "\<not> big sha c" "length (rlp (ref_item sha c)) < length (encoding sha x)" for c
    using that by (simp add: ref_item_eq encoding_def)
  show ?case
  proof (cases x)
    case (ShortNode k c f)
    have "canonical c" if "is_inner c" using Suc.prems(1) that unfolding ShortNode by (cases c) auto
    then show ?thesis unfolding ShortNode
      using Suc.prems emb[of c] kid[of c] length_child(1)[of sha c k f] by (intro decode_short sha) (auto simp: ShortNode)
  next
    case (FullNode cs f)
    show ?thesis unfolding FullNode
    proof (rule decode_full)
      fix c s
      assume c: "c \<in> set cs" "is_inner c" "\<not> big sha c" "length (encoding sha c @ s) < 2 ^ 63"
      have "canonical c" using canonical_kids c Suc.prems(1) unfolding FullNode by blast
      moreover have "length (encoding sha c) < length (encoding sha x)"
        using kid[OF c(3)] length_child(2)[OF c(1)] unfolding FullNode by blast
      ultimately show "decode_node fuel gen None (encoding sha c @ s) = Some (Inr (opened sha gen None c))" using emb c by blast
    qed (use Suc.prems sha in \<open>auto simp: FullNode simp del: canonical.simps\<close>)
  qed (use Suc.prems in auto)
qed simp

lemma mustDecodeNode_encoding:
  assumes "canonical x" "is_inner x" "length (encoding sha x) < 2 ^ 63" "\<And>e. length (sha e) = 32"
  shows "mustDecodeNode h (encoding sha x) gen = Some (opened sha gen (Some h) x)"
proof -
  have "decode_node (length (encoding sha x) + 1) gen (Some h) (encoding sha x @ []) = Some (Inr (opened sha gen (Some h) x))"
    using assms by (intro decode_opened) simp_all
  then show ?thesis by (simp add: mustDecodeNode_def decodeNode_def)
qed

end
