(* ===== verification/Trie_Backed.thy ===== *)
theory Trie_Backed
  imports Trie_Encoding
begin

text \<open>
  The trie against its database. A node is backed when every hash in it, of a child that is not loaded or in the flags of its
  cache, is the hash of the tree that stands there, and the database holds the encodings of every tree
  that is referred to by a hash or marked clean. A backed node represents the tree it is backed by, and the updates of the
  trie keep it backed.
\<close>

section \<open>Backed nodes\<close>

definition stored :: "(byte list \<rightharpoonup> byte list) \<Rightarrow> (byte list \<Rightarrow> byte list) \<Rightarrow> node \<Rightarrow> bool" where
  "stored db sha x \<longleftrightarrow> (\<forall>e\<in>node_encodings sha x. db (sha e) = Some e \<and> length e < 2 ^ 63)"

text \<open>The root of a trie is hashed even if it is small; \<open>rt\<close> tells the root from the nodes below it.\<close>

definition hash_ok :: "(byte list \<rightharpoonup> byte list) \<Rightarrow> (byte list \<Rightarrow> byte list) \<Rightarrow> bool \<Rightarrow> byte list \<Rightarrow> node \<Rightarrow> bool" where
  "hash_ok db sha rt h x \<longleftrightarrow>
     canonical x \<and> is_inner x \<and> strip x = x \<and> (rt \<or> big sha x) \<and> h = sha (encoding sha x) \<and> stored db sha x"

definition flag_ok :: "(byte list \<rightharpoonup> byte list) \<Rightarrow> (byte list \<Rightarrow> byte list) \<Rightarrow> bool \<Rightarrow> nodeFlag \<Rightarrow> node \<Rightarrow> bool" where
  "flag_ok db sha rt f x \<longleftrightarrow>
     (case nf_hash f of
        None \<Rightarrow> nf_dirty f \<or> \<not> rt \<and> \<not> big sha x
      | Some h \<Rightarrow> (rt \<or> big sha x) \<and> h = sha (encoding sha x) \<and> (nf_dirty f \<or> canonical x \<and> stored db sha x))"

inductive backed :: "(byte list \<rightharpoonup> byte list) \<Rightarrow> (byte list \<Rightarrow> byte list) \<Rightarrow> bool \<Rightarrow> node \<Rightarrow> node \<Rightarrow> bool" for db sha where
  backed_nil: "backed db sha rt NilNode NilNode"
| backed_value: "backed db sha rt (ValueNode v) (ValueNode v)"
| backed_short: "backed db sha False c x \<Longrightarrow> flag_ok db sha rt f (ShortNode k x blank) \<Longrightarrow>
    backed db sha rt (ShortNode k c f) (ShortNode k x blank)"
| backed_full: "length xs = length cs \<Longrightarrow> (\<forall>i<length cs. backed db sha False (cs ! i) (xs ! i)) \<Longrightarrow> flag_ok db sha rt f (FullNode xs blank) \<Longrightarrow>
    backed db sha rt (FullNode cs f) (FullNode xs blank)"
| backed_hash: "hash_ok db sha rt h x \<Longrightarrow> backed db sha rt (HashNode h) x"

inductive_cases backed_nilE: "backed db sha rt NilNode x"
inductive_cases backed_valueE: "backed db sha rt (ValueNode v) x"
inductive_cases backed_shortE: "backed db sha rt (ShortNode k c f) x"
inductive_cases backed_fullE: "backed db sha rt (FullNode cs f) x"
inductive_cases backed_hashE: "backed db sha rt (HashNode h) x"

lemma backed_full_all2: "list_all2 (backed db sha False) cs xs \<Longrightarrow> flag_ok db sha rt f (FullNode xs blank) \<Longrightarrow>
    backed db sha rt (FullNode cs f) (FullNode xs blank)"
  by (intro backed_full) (auto simp: list_all2_conv_all_nth)

lemma backed_strip: "backed db sha rt n x \<Longrightarrow> strip x = x"
proof (induction rule: backed.induct)
  case (backed_full xs cs rt f)
  then show ?case by (simp add: list_eq_iff_nth_eq)
qed (auto simp: hash_ok_def)

lemma new_flag_ok [simp]: "flag_ok db sha rt (newFlag t) x"
  by (simp add: flag_ok_def newFlag_def)

lemma flag_ok_gen [simp]: "flag_ok db sha rt (f\<lparr>nf_gen := g\<rparr>) x = flag_ok db sha rt f x"
  by (simp add: flag_ok_def split: option.split)

section \<open>Loading\<close>

lemma is_value_simps [simp]: "is_value (ValueNode v)" "\<not> is_value (FullNode cs f)" "\<not> is_value (ShortNode k c f)" "\<not> is_value NilNode" "\<not> is_value (HashNode h)"
  by (simp_all add: is_value_def)

text \<open>The tree below small nodes: their large children are stored.\<close>

definition stored_below :: "(byte list \<rightharpoonup> byte list) \<Rightarrow> (byte list \<Rightarrow> byte list) \<Rightarrow> node \<Rightarrow> bool" where
  "stored_below db sha x \<longleftrightarrow> (\<forall>e\<in>large sha x. db (sha e) = Some e \<and> length e < 2 ^ 63)"

lemma stored_big: "big sha x \<Longrightarrow> stored db sha x \<longleftrightarrow> stored_below db sha x"
  using big_large[of sha x] by (auto simp: stored_def stored_below_def node_encodings_def)

lemma stored_below_child:
  "stored_below db sha (ShortNode k c f) \<Longrightarrow> stored_below db sha c"
  "stored_below db sha (FullNode cs f) \<Longrightarrow> c \<in> set cs \<Longrightarrow> stored_below db sha c"
  "stored db sha x \<Longrightarrow> stored_below db sha x"
  by (auto simp: stored_def stored_below_def node_encodings_def)

lemma opened_ref_backed:
  assumes "canonical c \<or> c = NilNode \<or> is_value c" "strip c = c" "stored_below db sha c"
    "is_inner c \<Longrightarrow> \<not> big sha c \<Longrightarrow> backed db sha False (opened sha gen None c) c"
  shows "backed db sha False (opened_ref sha gen c) c"
proof (cases "big sha c")
  case True
  then have "hash_ok db sha False (sha (encoding sha c)) c"
    using assms stored_big[OF True] by (cases c) (auto simp: hash_ok_def big_def simp del: canonical.simps)
  then show ?thesis using True by (simp add: backed_hash)
next
  case False
  then show ?thesis using assms by (cases c) (auto intro: backed_nil backed_value)
qed

lemma opened_backed:
  "canonical x \<Longrightarrow> is_inner x \<Longrightarrow> strip x = x \<Longrightarrow> stored_below db sha x \<Longrightarrow>
   flag_ok db sha rt \<lparr>nf_hash = h, nf_gen = gen, nf_dirty = False\<rparr> x \<Longrightarrow> backed db sha rt (opened sha gen h x) x"
proof (induction x arbitrary: rt h rule: canonical.induct)
  case (2 cs f)
  have c: "backed db sha False (opened_ref sha gen c) c" if "c \<in> set cs" for c
  proof (rule opened_ref_backed)
    have cs: "strip (FullNode cs f) = FullNode cs f" by (rule "2.prems"(3))
    show s: "strip c = c" using cs that by (auto simp: map_idI list_eq_iff_nth_eq in_set_conv_nth)
    show b: "stored_below db sha c" using stored_below_child(2)[OF "2.prems"(4) that] .
    obtain ds v where d: "cs = ds @ [v]" "length ds = 16" "\<forall>c\<in>set ds. canonical c" "v = NilNode \<or> (\<exists>w. w \<noteq> [] \<and> v = ValueNode w)"
      using canonical_children[OF "2.prems"(1)] .
    then show "canonical c \<or> c = NilNode \<or> is_value c" using that by auto
    assume "is_inner c" "\<not> big sha c"
    moreover have "c \<in> set (take 16 cs)" "canonical c" using d that calculation(1) by auto
    ultimately show "backed db sha False (opened sha gen None c) c"
      using "2.IH"[of c False None] s b by (simp add: flag_ok_def)
  qed
  have "f = blank" using "2.prems"(3) by simp
  then show ?case using c "2.prems"(5) by (auto intro!: backed_full_all2 simp: list_all2_conv_all_nth)
next
  case (3 k c f)
  have c: "backed db sha False (opened_ref sha gen c) c"
  proof (rule opened_ref_backed)
    show s: "strip c = c" using "3.prems"(3) by simp
    show b: "stored_below db sha c" using stored_below_child(1)[OF "3.prems"(4)] .
    show k: "canonical c \<or> c = NilNode \<or> is_value c" using "3.prems"(1) by (auto split: node.splits)
    assume "is_inner c" "\<not> big sha c"
    then show "backed db sha False (opened sha gen None c) c"
      using "3.IH"[of _ _ False None] "3.prems"(1) s b by (cases c) (auto simp: flag_ok_def)
  qed
  have "f = blank" using "3.prems"(3) by simp
  then show ?case using c "3.prems"(5) by (auto intro: backed_short)
qed auto

lemma loaded_hash_ok:
  assumes "hash_ok db sha rt h x" "t_db t = Some db" "\<And>e. length (sha e) = 32"
  shows "loaded t h = Some (opened sha (t_cachegen t) (Some h) x)" "backed db sha rt (opened sha (t_cachegen t) (Some h) x) x"
proof -
  have h: "canonical x" "is_inner x" "strip x = x" "rt \<or> big sha x" "h = sha (encoding sha x)" "stored db sha x"
    using assms(1) by (auto simp: hash_ok_def)
  have e: "db h = Some (encoding sha x)" "length (encoding sha x) < 2 ^ 63"
    using h(5,6) by (auto simp: stored_def node_encodings_def)
  show "loaded t h = Some (opened sha (t_cachegen t) (Some h) x)"
    using mustDecodeNode_encoding[OF h(1,2) e(2) assms(3)] e(1) assms(2) by (simp add: loaded_def resolveHash_def)
  show "backed db sha rt (opened sha (t_cachegen t) (Some h) x) x"
    using h by (intro opened_backed) (auto simp: flag_ok_def intro: stored_below_child(3))
qed

lemma opened_inner: "is_inner x \<Longrightarrow> is_inner (opened sha gen h x)"
  by (cases x) auto

lemma backed_expands:
  assumes db: "t_db t = Some db" and sha: "\<And>e. length (sha e) = 32"
  shows "backed db sha rt n x \<Longrightarrow> expands (loaded t) n x"
proof (induction "size x" arbitrary: n x rt rule: less_induct)
  case less
  have loaded: "expands (loaded t) n' x" if "backed db sha rt n' x" "hash_of n' = None" for n'
    using that
  proof (cases rule: backed.cases)
    case (backed_short c y f k)
    then show ?thesis using less(1)[of y False c] by (auto intro: exp_short)
  next
    case (backed_full ys cs f)
    have "expands (loaded t) (cs ! i) (ys ! i)" if "i < length cs" for i
    proof -
      have "size (ys ! i) \<le> size_list size ys" using that backed_full(3) by (intro size_list_estimation') auto
      then show ?thesis using less(1)[of "ys ! i" False "cs ! i"] that backed_full by simp
    qed
    then show ?thesis using backed_full by (auto intro: exp_full)
  qed (auto simp: hash_of_def intro: exp_nil exp_value)
  show ?case
  proof (cases "hash_of n")
    case (Some h)
    then have n: "n = HashNode h" by (auto simp: hash_of_def split: node.splits)
    then have h: "hash_ok db sha rt h x" using less.prems by (auto elim: backed_hashE)
    have "is_inner (opened sha (t_cachegen t) (Some h) x)" using h by (simp add: hash_ok_def opened_inner)
    then have "hash_of (opened sha (t_cachegen t) (Some h) x) = None" by (auto simp: hash_of_def is_inner_def split: node.splits)
    then show ?thesis unfolding n using exp_hash loaded_hash_ok[OF h db sha] loaded by blast
  qed (use less.prems loaded in blast)
qed

inductive_cases expands_nilE: "expands R NilNode y"
inductive_cases expands_valueE: "expands R (ValueNode v) y"
inductive_cases expands_shortE: "expands R (ShortNode k c f) y"
inductive_cases expands_fullE: "expands R (FullNode cs f) y"
inductive_cases expands_hashE: "expands R (HashNode h) y"

lemma expands_unique: "expands R n x \<Longrightarrow> expands R n y \<Longrightarrow> x = y"
proof (induction arbitrary: y rule: expands.induct)
  case (exp_full xs cs f)
  then show ?case by (elim expands_fullE) (simp add: list_eq_iff_nth_eq)
next
  case (exp_short c x k f)
  then show ?case by (elim expands_shortE) simp
next
  case (exp_hash h n x)
  then show ?case by (elim expands_hashE) simp
qed (auto elim: expands_nilE expands_valueE)

text \<open>A node represents what its expansion represents. Decoding only gives full and short nodes.\<close>

lemma loaded_inner: "loaded t h = Some n \<Longrightarrow> is_inner n"
proof -
  have sum: "map_sum f g z = Inr y \<longleftrightarrow> (\<exists>w. z = Inr w \<and> y = g w)" for f :: "decode_error \<Rightarrow> decode_error" and g z and y :: node
    by (cases z) auto
  have "decode_node fuel gen h buf = Some (Inr n) \<Longrightarrow> is_inner n" for fuel gen h buf
    by (cases fuel)
      (auto simp: sum decodeShort_def decodeFull_def Let_def split: if_splits sum.splits option.splits prod.splits)
  then show "loaded t h = Some n \<Longrightarrow> is_inner n"
    by (auto simp: loaded_def resolveHash_def mustDecodeNode_def decodeNode_def simp del: decode_node.simps split: option.splits sum.splits)
qed

lemma expands_kinds:
  assumes R: "\<forall>h n. R h = Some n \<longrightarrow> is_inner n" and "expands R n x"
  shows "x = NilNode \<longleftrightarrow> n = NilNode" "x = ValueNode v \<longleftrightarrow> n = ValueNode v" "is_branch in_memory x \<Longrightarrow> is_branch R n"
proof -
  have inner: "(x = NilNode \<longleftrightarrow> n = NilNode) \<and> (x = ValueNode v \<longleftrightarrow> n = ValueNode v) \<and> (is_branch in_memory x \<longrightarrow> (\<exists>cs f. n = FullNode cs f))"
    if "expands R n x" "\<not> (\<exists>h. n = HashNode h)" for n
    using that by (cases rule: expands.cases) (auto simp: is_branch_def)
  have "(x = NilNode \<longleftrightarrow> n = NilNode) \<and> (x = ValueNode v \<longleftrightarrow> n = ValueNode v) \<and> (is_branch in_memory x \<longrightarrow> is_branch R n)"
  proof (cases "\<exists>h. n = HashNode h")
    case True
    then obtain h n' where h: "n = HashNode h" "R h = Some n'" "expands R n' x" using assms(2) by (auto elim: expands_hashE)
    moreover have "is_inner n'" using R h(2) by blast
    ultimately show ?thesis using inner[OF h(3)] by (cases n') (auto simp: is_branch_def)
  next
    case False
    then show ?thesis using inner[OF assms(2)] by (auto simp: is_branch_def)
  qed
  then show "x = NilNode \<longleftrightarrow> n = NilNode" "x = ValueNode v \<longleftrightarrow> n = ValueNode v" "is_branch in_memory x \<Longrightarrow> is_branch R n" by auto
qed

lemma expands_rep:
  assumes R: "\<forall>h n. R h = Some n \<longrightarrow> is_inner n"
  shows "expands R n x \<Longrightarrow> rep in_memory x m \<Longrightarrow> rep R n m"
proof (induction arbitrary: m rule: expands.induct)
  case (exp_short c x k f)
  note kinds = expands_kinds[OF R exp_short.hyps]
  from exp_short.prems show ?case
  proof (cases rule: rep.cases)
    case (rep_leaf v)
    then show ?thesis using kinds(2)[of v] by (auto simp del: fun_upd_apply intro: rep.rep_leaf)
  next
    case (rep_ext m')
    then show ?thesis using kinds(3) exp_short.IH by (auto intro: rep.rep_ext)
  qed
next
  case (exp_full xs cs f)
  obtain ms where ms: "m = branch ms" "length xs = 17" "2 \<le> entries xs" "\<forall>i<17. slot in_memory i (xs ! i) (ms i)"
    using rep_full_slotsD[OF exp_full.prems] .
  have len: "length cs = 17" using ms(2) exp_full.hyps(1) by simp
  have kinds: "xs ! i = NilNode \<longleftrightarrow> cs ! i = NilNode" "xs ! i = ValueNode v \<longleftrightarrow> cs ! i = ValueNode v" if "i < 17" for i v
    using expands_kinds[OF R] exp_full.IH that len by metis+
  have "{i. i < length cs \<and> cs ! i \<noteq> NilNode} = {i. i < length xs \<and> xs ! i \<noteq> NilNode}" using kinds(1) len ms(2) by auto
  then have "2 \<le> entries cs" using ms(3) by (simp add: entries_def length_filter_conv_card)
  moreover have "slot R i (cs ! i) (ms i)" if "i < 17" for i
  proof (cases "i < 16")
    case True
    then show ?thesis using ms(4) that exp_full.IH len by (auto simp: slot_def)
  next
    case False
    then have "value_slot (xs ! i) (ms i)" using ms(4) that by (auto simp: slot_def)
    then have "value_slot (cs ! i) (ms i)" unfolding value_slot_def using kinds[OF that] by metis
    then show ?thesis using False by (simp add: slot_def)
  qed
  ultimately show ?case unfolding ms(1) using len by (intro rep_full_slots) auto
next
  case (exp_hash h n x)
  moreover have "is_inner n" using R exp_hash.hyps(1) by blast
  ultimately show ?case by (intro rep_hash) auto
qed (auto elim: rep_nilE rep_valueE intro: rep_nil)

lemma backed_rep:
  assumes "backed db sha rt n x" "t_db t = Some db" "\<And>e. length (sha e) = 32" "rep in_memory x m"
  shows "rep (loaded t) n m"
  using expands_rep[OF _ backed_expands[OF assms(2,3,1)] assms(4)] loaded_inner by blast

end
