(* ===== verification/Trie_Kept.thy ===== *)
theory Trie_Kept
  imports Trie_Backed
begin

text \<open>
  Insertion, deletion and lookup keep a trie backed by its database: what they change gets a new flag without a hash, and what they
  load is backed by the tree that its hash stands for. The proofs are inductions over the results of the partial functions.
\<close>

lemma resolve_backed:
  assumes "backed db sha rt (HashNode h) x" "resolveHash t h p = Inr n" "t_db t = Some db" "\<forall>e. length (sha e) = 32"
  shows "backed db sha rt n x"
proof -
  have "hash_ok db sha rt h x" using assms(1) by (elim backed_hashE)
  moreover have "loaded t h = Some n" using assms(2) resolveHash_loaded by blast
  ultimately show ?thesis using loaded_hash_ok[of db sha rt h x t] assms(3,4) by simp
qed

lemma nil_backed: "\<exists>x. backed db sha rt NilNode x"
  by (blast intro: backed_nil)

lemma new_short_backed: "backed db sha False c x \<Longrightarrow> \<exists>x. backed db sha rt (ShortNode k c (newFlag t)) x"
  by (blast intro: backed_short new_flag_ok)

lemma new_full_backed:
  assumes "\<forall>c\<in>set cs. \<exists>x. backed db sha False c x"
  shows "\<exists>x. backed db sha rt (FullNode cs (newFlag t)) x"
proof -
  obtain g where "\<forall>c\<in>set cs. backed db sha False c (g c)" using assms by metis
  then have "list_all2 (backed db sha False) cs (map g cs)" by (auto simp: list_all2_conv_all_nth)
  then show ?thesis by (blast intro: backed_full_all2 new_flag_ok)
qed

lemma backed_kids:
  "backed db sha rt (FullNode cs f) x \<Longrightarrow> c \<in> set cs \<Longrightarrow> \<exists>x. backed db sha False c x"
  "backed db sha rt (ShortNode k c f) x \<Longrightarrow> \<exists>x. backed db sha False c x"
  by (auto elim!: backed_fullE backed_shortE simp: in_set_conv_nth)

lemma map_sum_Inr: "map_sum id g z = Inr y \<longleftrightarrow> (\<exists>w. z = Inr w \<and> y = g w)"
  by (cases z) auto

lemma case_sum_Inr: "(case y of Inl e \<Rightarrow> Some (Inl e) | Inr x \<Rightarrow> g x) = Some (Inr z) \<longleftrightarrow> (\<exists>x. y = Inr x \<and> g x = Some (Inr z))"
  by (cases y) auto

lemma sum_bind_Inr: "(case y of Inl e \<Rightarrow> Inl e | Inr x \<Rightarrow> g x) = Inr z \<longleftrightarrow> (\<exists>x. y = Inr x \<and> g x = Inr z)"
  by (cases y) auto

lemmas result_simps = sum_bind_Inr map_sum_Inr case_sum_Inr bind_eq_Some_conv Let_def

lemma insert_backed:
  assumes "trie_insert t n prefix key value = Some r" "t_db t = Some db" "\<forall>e. length (sha e) = 32"
    "r = Inr (d, n')" "backed db sha rt n x" "backed db sha False value y" "rt \<longrightarrow> key \<noteq> []"
  shows "\<exists>x'. backed db sha rt n' x'"
  using assms(2-7)
proof (induction arbitrary: rt x y d n' rule: trie_insert.raw_induct[OF _ assms(1)])
  case (1 ins t n prefix key w r)
  note IH = "1.IH"[OF _ "1.prems"(1,2) refl]
  show ?case
  proof (cases "key = []")
    case True
    then have "n' = w" "\<not> rt" using "1.hyps" "1.prems"(3,6) by (auto split: node.splits)
    then show ?thesis using "1.prems"(5) by auto
  next
    case False
    show ?thesis
    proof (cases n)
      case NilNode
      then have "n' = ShortNode key w (newFlag t)" using "1.hyps" "1.prems"(3) False by simp
      then show ?thesis using "1.prems"(5) new_short_backed by blast
    next
      case (FullNode cs f)
      obtain i d2 c where c: "i < length cs" "ins t (cs ! i) (prefix @ [key ! 0]) (drop 1 key) w = Some (Inr (d2, c))"
          "n' = (if d2 then FullNode (cs[i := c]) (newFlag t) else n)"
        using "1.hyps" "1.prems"(3) False FullNode by (auto simp: result_simps split: if_splits)
      obtain z where z: "backed db sha False (cs ! i) z" using backed_kids(1) "1.prems"(4) FullNode c(1) nth_mem by metis
      have "\<exists>z. backed db sha False c z" using IH[OF c(2) z "1.prems"(5)] by simp
      then have "\<exists>x. backed db sha rt (FullNode (cs[i := c]) (newFlag t)) x"
        using backed_kids(1)[OF "1.prems"(4)[unfolded FullNode]] by (intro new_full_backed) (auto dest: set_update_subset_insert[THEN subsetD])
      then show ?thesis using c(3) "1.prems"(4) by auto
    next
      case (ShortNode k v f)
      obtain z where z: "backed db sha False v z" using backed_kids(2) "1.prems"(4) ShortNode by metis
      show ?thesis
      proof (cases "prefixLen key k = length k")
        case True
        then obtain d2 c where c: "ins t v (prefix @ take (length k) key) (drop (length k) key) w = Some (Inr (d2, c))"
            "n' = (if d2 then ShortNode k c (newFlag t) else n)"
          using "1.hyps" "1.prems"(3) False ShortNode by (auto simp: result_simps split: if_splits)
        then show ?thesis using IH[OF c(1) z "1.prems"(5)] new_short_backed "1.prems"(4) by auto
      next
        case part: False
        obtain i j p q l m d1 c1 d2 c2 b where c: "ins t NilNode p l v = Some (Inr (d1, c1))" "ins t NilNode q m w = Some (Inr (d2, c2))"
            "b = FullNode ((replicate 17 NilNode)[i := c1, j := c2]) (newFlag t)" "n' = b \<or> n' = ShortNode (take (prefixLen key k) key) b (newFlag t)"
          using "1.hyps" "1.prems"(3) False ShortNode part
          by (auto simp: result_simps split: if_splits)
        have kids: "\<exists>z. backed db sha False c1 z" "\<exists>z. backed db sha False c2 z"
          using IH[OF c(1) backed_nil z] IH[OF c(2) backed_nil "1.prems"(5)] by auto
        have "\<exists>z. backed db sha False c' z" if "c' \<in> set ((replicate 17 NilNode)[i := c1, j := c2])" for c'
          using that kids by (auto dest!: set_update_subset_insert[THEN subsetD] intro: nil_backed)
        then have "\<exists>z. backed db sha rt b z" for rt unfolding c(3) by (intro new_full_backed) blast
        then show ?thesis using c(4) new_short_backed by blast
      qed
    next
      case (HashNode h)
      then obtain rn d2 c where c: "resolveHash t h prefix = Inr rn" "ins t rn prefix key w = Some (Inr (d2, c))"
          "n' = (if d2 then c else rn)"
        using "1.hyps" "1.prems"(3) False by (auto simp: result_simps split: if_splits)
      have rn: "backed db sha rt rn x" using resolve_backed[OF _ c(1) "1.prems"(1,2)] "1.prems"(4) HashNode by blast
      then show ?thesis using IH[OF c(2) rn "1.prems"(5,6)] c(3) by auto
    next
      case (ValueNode v)
      then show ?thesis using "1.hyps" "1.prems"(3) False by simp
    qed
  qed
qed

lemma single_child_range: "single_child i pos cs = p \<Longrightarrow> 0 \<le> p \<Longrightarrow> pos < i \<Longrightarrow> p = pos \<or> i \<le> p \<and> p < i + int (length cs)"
  by (induction cs arbitrary: i pos) (fastforce split: if_splits)+

lemma reduce_backed:
  assumes "\<forall>c\<in>set cs. \<exists>x. backed db sha False c x" "reduce_full t p cs = Inr n" "t_db t = Some db" "\<forall>e. length (sha e) = 32"
  shows "\<exists>x. backed db sha rt n x"
proof -
  define pos where "pos = single_child 0 (- 1) cs"
  show ?thesis
  proof (cases "0 \<le> pos")
    case True
    then have "nat pos < length cs" using single_child_range[of 0 "- 1" cs pos] by (simp add: pos_def)
    then obtain x where x: "backed db sha False (cs ! nat pos) x" using assms(1) nth_mem by blast
    have "n = ShortNode [of_int pos] (cs ! nat pos) (newFlag t) \<or>
      (\<exists>k c f. trie_resolve t (cs ! nat pos) p = Inr (ShortNode k c f) \<and> n = ShortNode (of_int pos # k) c (newFlag t))"
      using assms(2) True by (cases "trie_resolve t (cs ! nat pos) p") (auto simp: reduce_full_def Let_def simp flip: pos_def split: if_splits node.splits)
    then show ?thesis
    proof
      assume "\<exists>k c f. trie_resolve t (cs ! nat pos) p = Inr (ShortNode k c f) \<and> n = ShortNode (of_int pos # k) c (newFlag t)"
      then obtain k c f where r: "trie_resolve t (cs ! nat pos) p = Inr (ShortNode k c f)" "n = ShortNode (of_int pos # k) c (newFlag t)" by blast
      then have "backed db sha False (ShortNode k c f) x"
        using x resolve_backed[OF _ _ assms(3,4)] by (auto simp: trie_resolve_def split: node.splits)
      then show ?thesis using r(2) backed_kids(2) new_short_backed by metis
    qed (use x new_short_backed in blast)
  next
    case False
    then have "n = FullNode cs (newFlag t)" using assms(2) by (simp add: reduce_full_def Let_def flip: pos_def)
    then show ?thesis using new_full_backed[OF assms(1)] by simp
  qed
qed

lemma delete_backed:
  assumes "trie_delete t n prefix key = Some r" "t_db t = Some db" "\<forall>e. length (sha e) = 32"
    "r = Inr (d, n')" "backed db sha rt n x"
  shows "\<exists>x'. backed db sha rt n' x'"
  using assms(2-5)
proof (induction arbitrary: rt x d n' rule: trie_delete.raw_induct[OF _ assms(1)])
  case (1 del t n prefix key r)
  note IH = "1.IH"[OF _ "1.prems"(1,2) refl]
  show ?case
  proof (cases n)
    case (FullNode cs f)
    then obtain i nn d2 where c: "i < length cs" "del t (cs ! i) (prefix @ [key ! 0]) (drop 1 key) = Some (Inr (d2, nn))"
        "n' = n \<or> reduce_full t prefix (cs[i := nn]) = Inr n'"
      using "1.hyps" "1.prems"(3) by (auto simp: result_simps split: if_splits)
    obtain z where z: "backed db sha False (cs ! i) z" using backed_kids(1) "1.prems"(4) FullNode c(1) nth_mem by metis
    have "\<exists>z. backed db sha False nn z" using IH[OF c(2) z] .
    then have "\<forall>c\<in>set (cs[i := nn]). \<exists>x. backed db sha False c x"
      using backed_kids(1)[OF "1.prems"(4)[unfolded FullNode]] by (auto dest: set_update_subset_insert[THEN subsetD])
    then show ?thesis using reduce_backed "1.prems" c(3) by blast
  next
    case (ShortNode k v f)
    obtain z where z: "backed db sha False v z" using backed_kids(2) "1.prems"(4) ShortNode by metis
    consider "n' = n" | "n' = NilNode" | c d2 p q where "del t v p q = Some (Inr (d2, c))" 
        "n' = ShortNode k c (newFlag t) \<or> (\<exists>k' c' f. c = ShortNode k' c' f \<and> n' = ShortNode (k @ k') c' (newFlag t))"
      using "1.hyps" "1.prems"(3) ShortNode by (auto simp: result_simps split: if_splits node.split_asm)
    then show ?thesis
    proof cases
      case 3
      then obtain y where "backed db sha False c y" using IH[OF 3(1) z] by blast
      then show ?thesis using 3(2) new_short_backed backed_kids(2) by metis
    qed (use "1.prems"(4) backed_nil in blast)+
  next
    case (HashNode h)
    then obtain rn d2 c where c: "resolveHash t h prefix = Inr rn" "del t rn prefix key = Some (Inr (d2, c))"
        "n' = (if d2 then c else rn)"
      using "1.hyps" "1.prems"(3) by (auto simp: result_simps split: if_splits)
    have rn: "backed db sha rt rn x" using resolve_backed[OF _ c(1) "1.prems"(1,2)] "1.prems"(4) HashNode by blast
    then show ?thesis using IH[OF c(2) rn] c(3) by auto
  qed (use "1.hyps" "1.prems"(3) in \<open>auto intro: nil_backed\<close>)
qed

lemma get_backed:
  assumes "tryGet t n key pos = Some r" "t_db t = Some db" "\<forall>e. length (sha e) = 32"
    "r = Inr (v, n', d)" "backed db sha rt n x"
  shows "backed db sha rt n' x"
  using assms(2-5)
proof (induction arbitrary: rt x v d n' rule: tryGet.raw_induct[OF _ assms(1)])
  case (1 get t n key pos r)
  note IH = "1.IH"[OF _ "1.prems"(1,2) refl]
  show ?case
  proof (cases n)
    case (FullNode cs f)
    then obtain i v2 c d2 where c: "i < length cs" "get t (cs ! i) key (pos + 1) = Some (Inr (v2, c, d2))"
        "n' = n \<or> n' = FullNode (cs[i := c]) (f\<lparr>nf_gen := t_cachegen t\<rparr>)"
      using "1.hyps" "1.prems"(3) by (auto simp: result_simps split: if_splits)
    obtain xs where xs: "x = FullNode xs blank" "length xs = length cs" "\<forall>i<length cs. backed db sha False (cs ! i) (xs ! i)"
        "flag_ok db sha rt f (FullNode xs blank)"
      using "1.prems"(4) FullNode by (auto elim: backed_fullE)
    have "backed db sha False c (xs ! i)" using IH[OF c(2)] xs(3) c(1) by blast
    then have "backed db sha rt (FullNode (cs[i := c]) (f\<lparr>nf_gen := t_cachegen t\<rparr>)) x"
      unfolding xs(1) using xs c(1) by (intro backed_full) (auto simp: nth_list_update)
    then show ?thesis using c(3) "1.prems"(4) by blast
  next
    case (ShortNode k w f)
    obtain y where y: "x = ShortNode k y blank" "backed db sha False w y" "flag_ok db sha rt f (ShortNode k y blank)"
      using "1.prems"(4) ShortNode by (auto elim: backed_shortE)
    consider "n' = n" | v2 c d2 p where "get t w key p = Some (Inr (v2, c, d2))" "n' = ShortNode k c (f\<lparr>nf_gen := t_cachegen t\<rparr>)"
      using "1.hyps" "1.prems"(3) ShortNode by (auto simp: result_simps split: if_splits)
    then show ?thesis
    proof cases
      case 2
      then show ?thesis using IH[OF 2(1) y(2)] y(1,3) by (auto intro: backed_short)
    qed (use "1.prems"(4) in blast)
  next
    case (HashNode h)
    then obtain rn v2 d2 where c: "resolveHash t h (take pos key) = Inr rn" "get t rn key pos = Some (Inr (v2, n', d2))"
      using "1.hyps" "1.prems"(3) by (auto simp: result_simps split: if_splits)
    have rn: "backed db sha rt rn x" using resolve_backed[OF _ c(1) "1.prems"(1,2)] "1.prems"(4) HashNode by blast
    then show ?thesis using IH[OF c(2) rn] by auto
  qed (use "1.hyps" "1.prems" in \<open>auto\<close>)
qed

end
