(* ===== verification/Trie_Commit.thy ===== *)
theory Trie_Commit
  imports Trie_Kept
begin

text \<open>
  Hashing a backed trie gives the hash of its expanded form, whatever of it is loaded, cached or dirty, and committing it
  writes every large node, so that the trie can be opened again from its root hash with the same contents.
\<close>

section \<open>Writes\<close>

text \<open>A database that keeps its nodes, as far as they are under their own hash.\<close>

definition grows :: "(byte list \<Rightarrow> byte list) \<Rightarrow> (byte list \<rightharpoonup> byte list) \<Rightarrow> (byte list \<rightharpoonup> byte list) \<Rightarrow> bool" where
  "grows sha db db' \<longleftrightarrow> (\<forall>e. db (sha e) = Some e \<longrightarrow> db' (sha e) = Some e)"

lemma grows_refl [simp]: "grows sha db db"
  by (simp add: grows_def)

lemma grows_trans: "grows sha db db1 \<Longrightarrow> grows sha db1 db2 \<Longrightarrow> grows sha db db2"
  by (auto simp: grows_def)

lemma stored_mono: "stored db sha x \<Longrightarrow> grows sha db db' \<Longrightarrow> stored db' sha x"
  by (auto simp: stored_def grows_def)

lemma flag_ok_mono: "flag_ok db sha rt f x \<Longrightarrow> grows sha db db' \<Longrightarrow> flag_ok db' sha rt f x"
  by (auto simp: flag_ok_def stored_mono split: option.splits)

lemma backed_mono: "backed db sha rt n x \<Longrightarrow> grows sha db db' \<Longrightarrow> backed db' sha rt n x"
proof (induction rule: backed.induct)
  case (backed_hash rt h x)
  then show ?case by (auto simp: hash_ok_def stored_mono intro: backed.backed_hash)
next
  case (backed_full xs cs rt f)
  then show ?case by (intro backed.backed_full) (auto intro: flag_ok_mono)
next
  case (backed_short c x rt f k)
  then show ?case by (intro backed.backed_short) (auto intro: flag_ok_mono)
qed (auto intro: backed.intros)

lemma write_grows:
  assumes "inj_on sha E" "ran db \<subseteq> E" "e \<in> E"
  shows "grows sha db (db(sha e \<mapsto> e))" "ran (db(sha e \<mapsto> e)) \<subseteq> E"
proof -
  have "e' = e" if "db (sha e') = Some e'" "sha e' = sha e" for e'
    using assms that by (metis inj_onD ranI subsetD)
  then show "grows sha db (db(sha e \<mapsto> e))" by (auto simp: grows_def)
  show "ran (db(sha e \<mapsto> e)) \<subseteq> E" using assms(2,3) by (auto simp: ran_def split: if_splits)
qed

section \<open>Hashing\<close>

text \<open>The encodings that a commit has to store: those of the large nodes, and that of the root.\<close>

definition needed :: "(byte list \<Rightarrow> byte list) \<Rightarrow> bool \<Rightarrow> node \<Rightarrow> byte list set" where
  "needed sha rt x = (if rt then node_encodings sha x else large sha x)"

definition database :: "bool \<Rightarrow> 'w \<Rightarrow> 'w option" where
  "database wr db = (if wr then Some db else None)"

text \<open>What hashing a node that is backed by \<open>x\<close> gives, with a database to write to or without.\<close>

definition hashes_to ::
    "(byte list \<Rightarrow> byte list) \<Rightarrow> byte list set \<Rightarrow> bool \<Rightarrow> (byte list \<rightharpoonup> byte list) \<Rightarrow> bool \<Rightarrow> node \<Rightarrow>
     ((unit + node \<times> node) \<times> (byte list \<rightharpoonup> byte list) option) option \<Rightarrow> bool" where
  "hashes_to sha E wr db rt x r \<longleftrightarrow>
     (\<exists>hashed cached db'. r = Some (Inr (hashed, cached), database wr db') \<and>
        (if rt \<or> big sha x then hashed = HashNode (sha (encoding sha x)) else is_inner hashed \<and> node_item hashed = tree_item sha x) \<and>
        backed db' sha rt cached x \<and> grows sha db db' \<and> ran db' \<subseteq> E \<and> (if wr then (\<forall>e\<in>needed sha rt x. db' (sha e) = Some e) else db' = db))"

text \<open>What walking the children of an inner node gives: the collapsed node encodes as the tree does.\<close>

definition collapses_to ::
    "(byte list \<Rightarrow> byte list) \<Rightarrow> byte list set \<Rightarrow> bool \<Rightarrow> (byte list \<rightharpoonup> byte list) \<Rightarrow> nodeFlag \<Rightarrow> node \<Rightarrow>
     ((unit + node \<times> node) \<times> (byte list \<rightharpoonup> byte list) option) option \<Rightarrow> bool" where
  "collapses_to sha E wr db f x r \<longleftrightarrow>
     (\<exists>collapsed cached db'. r = Some (Inr (collapsed, cached), database wr db') \<and>
        is_inner collapsed \<and> node_item collapsed = tree_item sha x \<and> node_cache collapsed = (nf_hash f, nf_dirty f) \<and>
        (\<forall>db2 h rt. grows sha db' db2 \<longrightarrow> flag_ok db2 sha rt (f\<lparr>nf_hash := h, nf_dirty := nf_dirty f \<and> \<not> wr\<rparr>) x \<longrightarrow>
           backed db2 sha rt (cache_hash h wr cached) x) \<and>
        grows sha db db' \<and> ran db' \<subseteq> E \<and> (if wr then (\<forall>e\<in>large sha x - {encoding sha x}. db' (sha e) = Some e) else db' = db))"

lemma database_simps [simp]: "database True db = Some db" "database False db = None"
  by (simp_all add: database_def)

lemma canUnload_clean: "canUnload n g l \<Longrightarrow> \<not> snd (node_cache n)"
  by (cases n) (auto simp: flag_canUnload_def)

lemma hash_reused:
  assumes "reuse_cached h n (database wr db) = Some r" "node_cache n = (nf_hash f, nf_dirty f)" "backed db sha rt n x" "flag_ok db sha rt f x"
    "canonical x" "is_inner x" "strip x = x" "ran db \<subseteq> E" "n \<noteq> NilNode"
  shows "hashes_to sha E wr db rt x (hasher_hash h mem_Put n (database wr db) rt)"
proof -
  obtain b where b: "nf_hash f = Some b" "r = (HashNode b, n) \<or> r = (HashNode b, HashNode b)"
      "wr \<or> r = (HashNode b, HashNode b) \<longrightarrow> \<not> nf_dirty f"
    using assms(1,2) canUnload_clean[of n "h_cachegen h" "h_cachelimit h"]
    by (cases n; cases wr) (auto simp: reuse_cached_def split: option.splits if_splits)
  have ok: "rt \<or> big sha x" "b = sha (encoding sha x)" "nf_dirty f \<or> stored db sha x" using assms(4) b(1) by (auto simp: flag_ok_def)
  have "backed db sha rt (HashNode b) x" if "\<not> nf_dirty f" using that ok assms(5-7) by (intro backed_hash) (auto simp: hash_ok_def)
  then have "backed db sha rt (snd r) x" using b(2,3) assms(3) by auto
  moreover have "fst r = HashNode (sha (encoding sha x))" using b(2) ok(2) by auto
  moreover have "\<forall>e\<in>needed sha rt x. db (sha e) = Some e" if wr
    using that b(3) ok(3) by (auto simp: stored_def needed_def node_encodings_def split: if_splits)
  moreover have "hasher_hash h mem_Put n (database wr db) rt = Some (Inr r, database wr db)" using assms(1,9) by simp
  ultimately have "\<exists>a b. hasher_hash h mem_Put n (database wr db) rt = Some (Inr (a, b), database wr db) \<and>
      a = HashNode (sha (encoding sha x)) \<and> backed db sha rt b x \<and> (wr \<longrightarrow> (\<forall>e\<in>needed sha rt x. db (sha e) = Some e))"
    by (metis prod.collapse)
  then show ?thesis unfolding hashes_to_def using ok(1) assms(8) grows_refl by (metis (no_types, lifting))
qed

lemma large_length: "e \<in> large sha x \<Longrightarrow> 32 \<le> length e"
  by (induction x) (auto simp: big_def split: if_splits)

lemma hash_stored:
  assumes "reuse_cached h n (database wr db) = None" "n \<noteq> NilNode" "node_cache n = (nf_hash f, nf_dirty f)" "flag_ok db sha rt f x"
    "canonical x" "is_inner x" "h_sha h = sha" "inj_on sha E" "\<forall>e\<in>needed sha rt x. e \<in> E \<and> length e < 2 ^ 63"
    "collapses_to sha E wr db f x (hashChildren h mem_Put n (database wr db))"
  shows "hashes_to sha E wr db rt x (hasher_hash h mem_Put n (database wr db) rt)"
proof -
  obtain c d db1 where c: "hashChildren h mem_Put n (database wr db) = Some (Inr (c, d), database wr db1)"
      "is_inner c" "node_item c = tree_item sha x" "node_cache c = (nf_hash f, nf_dirty f)"
      "\<And>db2 h rt. grows sha db1 db2 \<Longrightarrow> flag_ok db2 sha rt (f\<lparr>nf_hash := h, nf_dirty := nf_dirty f \<and> \<not> wr\<rparr>) x \<Longrightarrow> backed db2 sha rt (cache_hash h wr d) x"
      "grows sha db db1" "ran db1 \<subseteq> E" "if wr then (\<forall>e\<in>large sha x - {encoding sha x}. db1 (sha e) = Some e) else db1 = db"
    using assms(10) unfolding collapses_to_def by blast
  have run: "hasher_hash h mem_Put n (database wr db) rt =
      (case hasher_store h mem_Put c (database wr db1) rt of
         (Inl e, db2) \<Rightarrow> Some (Inl e, db2)
       | (Inr hashed, db2) \<Rightarrow> Some (Inr (hashed, cache_hash (hash_of hashed) (database wr db \<noteq> None) d), db2))"
    using assms(1,2) c(1) by simp
  have wr: "(database wr db \<noteq> None) = wr" by (simp add: database_def)
  have E: "encoding sha x \<in> needed sha rt x" if "rt \<or> big sha x"
    using that big_large[of sha x] by (auto simp: needed_def node_encodings_def)
  have "length (rlp (tree_item sha x)) < 2 ^ 63"
    using E assms(6,9) by (cases "rt \<or> big sha x") (auto simp: big_def encoding_def)
  then have enc: "EncodeToBytes (node_item c) = encoding sha x" using EncodeToBytes_rlp c(3) by (simp add: encoding_def)
  have c0: "c \<noteq> NilNode" "hash_of c = None" using c(2) by (auto simp: is_inner_def hash_of_def split: node.splits)
  show ?thesis
  proof (cases "rt \<or> big sha x")
    case True
    define db2 where "db2 = (if wr then db1(sha (encoding sha x) \<mapsto> encoding sha x) else db1)"
    have g: "grows sha db1 db2" "ran db2 \<subseteq> E" using write_grows[OF assms(8) c(7)] assms(9) E[OF True] c(7) by (auto simp: db2_def)
    have st: "hasher_store h mem_Put c (database wr db1) rt = (Inr (HashNode (sha (encoding sha x))), database wr db2)"
      using True enc c0 c(4) assms(4,6,7)
      by (cases wr) (auto simp: hasher_store_def Let_def db2_def mem_Put_def flag_ok_def big_def split: option.splits)
    have all: "db2 (sha e) = Some e" if "e \<in> node_encodings sha x" wr for e
      using that c(8) g(1) by (cases "e = encoding sha x") (auto simp: db2_def node_encodings_def grows_def)
    have "node_encodings sha x = needed sha rt x" using True big_large[of sha x] by (auto simp: needed_def node_encodings_def)
    then have "stored db2 sha x" if wr using all that assms(9) by (auto simp: stored_def)
    moreover have "nf_dirty f" if "\<not> wr"
      using that True assms(1,3,4) by (auto simp: reuse_cached_def flag_ok_def split: option.splits if_splits)
    ultimately have "backed db2 sha rt (cache_hash (Some (sha (encoding sha x))) wr d) x"
      using True assms(5) by (intro c(5)[OF g(1)]) (auto simp: flag_ok_def)
    then show ?thesis unfolding hashes_to_def run st wr
      using True g grows_trans[OF c(6) g(1)] all c(8) \<open>node_encodings sha x = needed sha rt x\<close>
      by (intro exI[of _ "HashNode (sha (encoding sha x))"] exI[of _ "cache_hash (Some (sha (encoding sha x))) wr d"] exI[of _ db2])
        (auto simp: hash_of_def db2_def)
  next
    case False
    then have st: "hasher_store h mem_Put c (database wr db1) rt = (Inr c, database wr db1)"
      using enc assms(6) by (simp add: hasher_store_def Let_def big_def)
    have "backed db1 sha rt (cache_hash None wr d) x" using False by (intro c(5)) (auto simp: flag_ok_def)
    moreover have "encoding sha x \<notin> large sha x" using large_length[of "encoding sha x" sha x] False assms(6) by (auto simp: big_def)
    ultimately show ?thesis unfolding hashes_to_def run st wr
      using False c c0 by (intro exI[of _ c] exI[of _ "cache_hash None wr d"] exI[of _ db1]) (auto simp: needed_def)
  qed
qed

text \<open>The children of a node, given that hashing each of them is right.\<close>

definition hashes_well :: "hasher \<Rightarrow> (byte list \<Rightarrow> byte list) \<Rightarrow> byte list set \<Rightarrow> bool \<Rightarrow> node \<Rightarrow> bool" where
  "hashes_well h sha E wr y \<longleftrightarrow> (\<forall>db c. backed db sha False c y \<longrightarrow> ran db \<subseteq> E \<longrightarrow>
     hashes_to sha E wr db False y (hasher_hash h mem_Put c (database wr db) False))"

lemma backed_kinds:
  "backed db sha rt c NilNode \<longleftrightarrow> c = NilNode" "backed db sha rt c (ValueNode v) \<longleftrightarrow> c = ValueNode v"
  "backed db sha rt c y \<Longrightarrow> is_inner y \<Longrightarrow> c \<noteq> NilNode \<and> \<not> is_value c"
  by (auto elim: backed.cases intro: backed_nil backed_value simp: hash_ok_def)

lemma hashes_item:
  assumes "hashes_to sha E wr db False y r" "is_inner y"
  obtains hashed cached db' where "r = Some (Inr (hashed, cached), database wr db')" "hashed \<noteq> NilNode" "node_item hashed = ref_item sha y"
    "backed db' sha False cached y" "grows sha db db'" "ran db' \<subseteq> E" "if wr then (\<forall>e\<in>large sha y. db' (sha e) = Some e) else db' = db"
proof -
  obtain hashed cached db' where r: "r = Some (Inr (hashed, cached), database wr db')"
      "if big sha y then hashed = HashNode (sha (encoding sha y)) else is_inner hashed \<and> node_item hashed = tree_item sha y"
      "backed db' sha False cached y" "grows sha db db'" "ran db' \<subseteq> E" "if wr then (\<forall>e\<in>large sha y. db' (sha e) = Some e) else db' = db"
    using assms(1) unfolding hashes_to_def needed_def by auto
  have "hashed \<noteq> NilNode" "node_item hashed = ref_item sha y" using r(2) by (auto simp: ref_item_eq split: if_splits)
  then show thesis using that r by blast
qed

lemma collapse_short:
  assumes can: "canonical (ShortNode k y blank)" and c: "backed db sha False c y" "ran db \<subseteq> E" and y: "is_inner y \<Longrightarrow> hashes_well h sha E wr y"
  shows "collapses_to sha E wr db f (ShortNode k y blank) (hashChildren h mem_Put (ShortNode k c f) (database wr db))"
proof -
  have k: "tkey k \<and> (\<exists>v. y = ValueNode v) \<or> nibbles k \<and> is_inner y" using can by (cases y) auto
  then obtain ck where ck: "hexToCompact k = Some ck" using hexToCompact_canonical by metis
  show ?thesis
  proof (cases "is_inner y")
    case True
    obtain hashed cached db' where r: "hasher_hash h mem_Put c (database wr db) False = Some (Inr (hashed, cached), database wr db')"
        "hashed \<noteq> NilNode" "node_item hashed = ref_item sha y" "backed db' sha False cached y" "grows sha db db'" "ran db' \<subseteq> E"
        "if wr then (\<forall>e\<in>large sha y. db' (sha e) = Some e) else db' = db"
      using hashes_item[of sha E wr db y "hasher_hash h mem_Put c (database wr db) False"] y[OF True] c True unfolding hashes_well_def by blast
    have "hashChildren h mem_Put (ShortNode k c f) (database wr db) =
        Some (Inr (ShortNode ck hashed f, ShortNode k cached f), database wr db')"
      using r(1,2) ck backed_kinds(3)[OF c(1) True] by (simp add: or_empty_def del: hasher_hash.simps)
    then show ?thesis unfolding collapses_to_def using r ck
      by (intro exI[of _ "ShortNode ck hashed f"] exI[of _ "ShortNode k cached f"] exI[of _ db'])
        (auto intro: backed_short backed_mono split: if_splits)
  next
    case False
    then obtain v where v: "y = ValueNode v" using k by blast
    then have "c = ValueNode v" using c(1) by (simp add: backed_kinds)
    then have "hashChildren h mem_Put (ShortNode k c f) (database wr db) = Some (Inr (ShortNode ck c f, ShortNode k c f), database wr db)"
      using ck by simp
    then show ?thesis unfolding collapses_to_def using ck c v \<open>c = ValueNode v\<close>
      by (intro exI[of _ "ShortNode ck c f"] exI[of _ "ShortNode k c f"] exI[of _ db])
        (auto intro: backed_short backed_value simp: ref_of_def split: if_splits)
  qed
qed

lemma collapse_slots:
  assumes z: "z = NilNode \<or> (\<exists>v. z = ValueNode v)"
  shows "list_all2 (backed db sha False) cs (ys @ [z]) \<Longrightarrow> ran db \<subseteq> E \<Longrightarrow> \<forall>y\<in>set ys. y = NilNode \<or> is_inner y \<and> hashes_well h sha E wr y \<Longrightarrow>
    \<exists>hs ds db'. hash_slots h mem_Put (length ys) cs (database wr db) = Some (Inr (hs, ds), database wr db') \<and>
      map node_item hs = map (ref_item sha) (ys @ [z]) \<and> list_all2 (backed db' sha False) ds (ys @ [z]) \<and> grows sha db db' \<and> ran db' \<subseteq> E \<and>
      (if wr then (\<forall>y\<in>set ys. \<forall>e\<in>large sha y. db' (sha e) = Some e) else db' = db)"
proof (induction ys arbitrary: db cs)
  case Nil
  then obtain c where c: "cs = [c]" "backed db sha False c z" by (auto simp: list_all2_Cons2)
  then have "c = z" using z by (auto simp: backed_kinds)
  moreover have "node_item (or_empty z) = ref_item sha z" using z by (auto simp: or_empty_def ref_of_def)
  ultimately show ?case using c Nil.prems(2)
    by (intro exI[of _ "[or_empty z]"] exI[of _ "[z]"] exI[of _ db]) simp
next
  case (Cons y ys)
  then obtain c cs' where c: "cs = c # cs'" "backed db sha False c y" "list_all2 (backed db sha False) cs' (ys @ [z])"
    by (auto simp: list_all2_Cons2)
  show ?case
  proof (cases "y = NilNode")
    case True
    then have "c = NilNode" using c(2) by (simp add: backed_kinds)
    obtain hs ds db' where r: "hash_slots h mem_Put (length ys) cs' (database wr db) = Some (Inr (hs, ds), database wr db')"
        "map node_item hs = map (ref_item sha) (ys @ [z])" "list_all2 (backed db' sha False) ds (ys @ [z])" "grows sha db db'" "ran db' \<subseteq> E"
        "if wr then (\<forall>y\<in>set ys. \<forall>e\<in>large sha y. db' (sha e) = Some e) else db' = db"
      using Cons.IH[OF c(3) Cons.prems(2)] Cons.prems(3) by auto
    then show ?thesis using True c(1) \<open>c = NilNode\<close>
      by (intro exI[of _ "ValueNode [] # hs"] exI[of _ "NilNode # ds"] exI[of _ db']) (auto simp: ref_of_def intro: backed_nil)
  next
    case False
    then have y: "is_inner y" "hashes_well h sha E wr y" using Cons.prems(3) by auto
    obtain hashed cached db1 where h: "hasher_hash h mem_Put c (database wr db) False = Some (Inr (hashed, cached), database wr db1)"
        "hashed \<noteq> NilNode" "node_item hashed = ref_item sha y" "backed db1 sha False cached y" "grows sha db db1" "ran db1 \<subseteq> E"
        "if wr then (\<forall>e\<in>large sha y. db1 (sha e) = Some e) else db1 = db"
      using hashes_item[of sha E wr db y "hasher_hash h mem_Put c (database wr db) False"] y c(2) Cons.prems(2) unfolding hashes_well_def by blast
    have b: "list_all2 (backed db1 sha False) cs' (ys @ [z])" using c(3) by (rule list_all2_mono) (rule backed_mono[OF _ h(5)])
    obtain hs ds db' where r: "hash_slots h mem_Put (length ys) cs' (database wr db1) = Some (Inr (hs, ds), database wr db')"
        "map node_item hs = map (ref_item sha) (ys @ [z])" "list_all2 (backed db' sha False) ds (ys @ [z])" "grows sha db1 db'" "ran db' \<subseteq> E"
        "if wr then (\<forall>y\<in>set ys. \<forall>e\<in>large sha y. db' (sha e) = Some e) else db' = db1"
      using Cons.IH[OF b h(6)] Cons.prems(3) by auto
    have "hash_slots h mem_Put (length (y # ys)) cs (database wr db) = Some (Inr (hashed # hs, cached # ds), database wr db')"
      using c(1) h(1) r(1) backed_kinds(3)[OF c(2) y(1)] by (simp del: hasher_hash.simps)
    moreover have "list_all2 (backed db' sha False) (cached # ds) ((y # ys) @ [z])" using r(3) backed_mono[OF h(4) r(4)] by simp
    moreover have "if wr then (\<forall>y\<in>set (y # ys). \<forall>e\<in>large sha y. db' (sha e) = Some e) else db' = db"
      using h(7) r(4,6) by (auto simp: grows_def)
    ultimately show ?thesis using h(3) r(2,5) grows_trans[OF h(5) r(4)]
      by (intro exI[of _ "hashed # hs"] exI[of _ "cached # ds"] exI[of _ db']) (simp del: hash_slots.simps)
  qed
qed

lemma collapse_full:
  assumes can: "canonical (FullNode xs blank)" and c: "list_all2 (backed db sha False) cs xs" "ran db \<subseteq> E"
    and y: "\<And>y. y \<in> set xs \<Longrightarrow> is_inner y \<Longrightarrow> hashes_well h sha E wr y"
  shows "collapses_to sha E wr db f (FullNode xs blank) (hashChildren h mem_Put (FullNode cs f) (database wr db))"
proof -
  obtain ys z where x: "xs = ys @ [z]" "length ys = 16" "\<forall>c\<in>set ys. canonical c" "z = NilNode \<or> (\<exists>w. w \<noteq> [] \<and> z = ValueNode w)"
    using canonical_children[OF can] .
  have "\<forall>y\<in>set ys. y = NilNode \<or> is_inner y \<and> hashes_well h sha E wr y" using x(1,3) y canonical_kinds by auto
  then obtain hs ds db' where r: "hash_slots h mem_Put 16 cs (database wr db) = Some (Inr (hs, ds), database wr db')"
      "map node_item hs = map (ref_item sha) xs" "list_all2 (backed db' sha False) ds xs" "grows sha db db'" "ran db' \<subseteq> E"
      "if wr then (\<forall>y\<in>set ys. \<forall>e\<in>large sha y. db' (sha e) = Some e) else db' = db"
    using collapse_slots[of z db sha cs ys E h wr] c x by auto
  have "backed db2 sha rt (cache_hash b wr (FullNode ds f)) (FullNode xs blank)"
    if "grows sha db' db2" "flag_ok db2 sha rt (f\<lparr>nf_hash := b, nf_dirty := nf_dirty f \<and> \<not> wr\<rparr>) (FullNode xs blank)" for db2 b rt
    using r(3) that by (auto intro!: backed_full_all2 elim: list_all2_mono backed_mono)
  moreover have "large sha z = {}" using x(4) by auto
  then have "if wr then (\<forall>e\<in>large sha (FullNode xs blank) - {encoding sha (FullNode xs blank)}. db' (sha e) = Some e) else db' = db"
    using r(6) x(1) by (auto split: if_splits)
  ultimately show ?thesis unfolding collapses_to_def using r
    by (intro exI[of _ "FullNode hs f"] exI[of _ "FullNode ds f"] exI[of _ db']) (simp del: large.simps cache_hash.simps)
qed

lemma hash_hash:
  assumes "hash_ok db sha rt b x" "ran db \<subseteq> E"
  shows "hashes_to sha E wr db rt x (hasher_hash h mem_Put (HashNode b) (database wr db) rt)"
proof -
  have "hasher_hash h mem_Put (HashNode b) (database wr db) rt = Some (Inr (HashNode b, HashNode b), database wr db)"
    by (simp add: reuse_cached_def hasher_store_def hash_of_def)
  then show ?thesis unfolding hashes_to_def using assms backed_hash[OF assms(1)]
    by (intro exI[of _ "HashNode b"] exI[of _ db]) (auto simp: hash_ok_def stored_def needed_def node_encodings_def split: if_splits)
qed

lemma hash_backed:
  assumes h: "h_sha h = sha" and inj: "inj_on sha E"
  shows "backed db sha rt n x \<Longrightarrow> canonical x \<Longrightarrow> is_inner x \<Longrightarrow> ran db \<subseteq> E \<Longrightarrow> \<forall>e\<in>needed sha rt x. e \<in> E \<and> length e < 2 ^ 63 \<Longrightarrow>
    hashes_to sha E wr db rt x (hasher_hash h mem_Put n (database wr db) rt)"
proof (induction "size x" arbitrary: db rt n x rule: less_induct)
  case less
  have well: "hashes_well h sha E wr y" if "is_inner y" "canonical y" "size y < size x" "large sha y \<subseteq> large sha x" for y
    unfolding hashes_well_def
  proof (intro allI impI)
    fix db c
    assume "backed db sha False c y" "ran db \<subseteq> E"
    moreover have "\<forall>e\<in>needed sha False y. e \<in> E \<and> length e < 2 ^ 63"
      using less.prems(5) that(4) by (auto simp: needed_def node_encodings_def split: if_splits)
    ultimately show "hashes_to sha E wr db False y (hasher_hash h mem_Put c (database wr db) False)"
      using that by (intro less.hyps) auto
  qed
  have inner: ?case if "n \<noteq> NilNode" "node_cache n = (nf_hash f, nf_dirty f)" "flag_ok db sha rt f x" 
      "collapses_to sha E wr db f x (hashChildren h mem_Put n (database wr db))" for f
  proof (cases "reuse_cached h n (database wr db)")
    case None
    show ?thesis using hash_stored[OF None that(1-3) less.prems(2,3) h inj less.prems(5) that(4)] .
  next
    case (Some r)
    show ?thesis using hash_reused[OF Some that(2) less.prems(1) that(3) less.prems(2,3) backed_strip[OF less.prems(1)] less.prems(4) that(1)] .
  qed
  from less.prems(1) show ?case
  proof (cases rule: backed.cases)
    case (backed_short c y f k)
    have "canonical y" if "is_inner y" using less.prems(2) that unfolding backed_short by (cases y) auto
    then have "hashes_well h sha E wr y" if "is_inner y" using that backed_short by (intro well) auto
    then show ?thesis
      using inner[of f] collapse_short[OF less.prems(2)[unfolded backed_short] backed_short(3) less.prems(4)] backed_short by auto
  next
    case (backed_full ys cs f)
    have y: "hashes_well h sha E wr y" if "y \<in> set ys" "is_inner y" for y
    proof (rule well)
      have "size y \<le> size_list size ys" using that(1) by (rule size_list_estimation') simp
      then show "size y < size x" using backed_full(2) by simp
      show "canonical y" using canonical_kids less.prems(2) that unfolding backed_full by blast
      show "large sha y \<subseteq> large sha x" using that(1) backed_full(2) by auto
    qed (use that in simp)
    have "list_all2 (backed db sha False) cs ys" using backed_full by (auto simp: list_all2_conv_all_nth)
    then show ?thesis
      using inner[of f] collapse_full[OF less.prems(2)[unfolded backed_full] _ less.prems(4) y] backed_full by auto
  next
    case (backed_hash b)
    then show ?thesis using hash_hash[OF _ less.prems(4)] by blast
  qed (use less.prems(3) in auto)
qed

end
