(* ===== verification/Trie_Sizes.thy ===== *)
theory Trie_Sizes
  imports Trie_Encoding
begin

text \<open>
  Bounds for the encodings of a trie: with keys and values of less than \<open>2 ^ 56\<close> bytes every node is encoded in less than \<open>2 ^ 63\<close>
  bytes, the sizes that the codec handles.
\<close>

lemma length_rlp_Str: "length (rlp (Str b)) \<le> 9 + length b"
  using length_kind_head[of "kind_of b" "length b"] by (simp add: framed_def)

lemma length_rlp_Lst: "length (rlp (Lst is)) \<le> 9 + (\<Sum>i\<leftarrow>is. length (rlp i))"
  using length_kind_head[of Kind_List "length (concat (map rlp is))"] by (simp add: framed_def length_concat comp_def)

lemma decodeNibbles_length: "decodeNibbles ns = Some bs \<Longrightarrow> length bs \<le> length ns"
  by (induction ns arbitrary: bs rule: decodeNibbles.induct) (auto intro: le_SucI)

lemma hexToCompact_length: "hexToCompact k = Some ck \<Longrightarrow> length ck \<le> length k + 1"
  by (auto simp: hexToCompact_def Let_def split: if_splits dest!: decodeNibbles_length)

lemma ref_item_length:
  assumes "\<And>e. length (sha e) = 32" "is_inner c \<or> c = NilNode \<or> c = ValueNode v \<and> length v < 2 ^ 56"
  shows "length (rlp (ref_item sha c)) < 2 ^ 56 + 41"
proof (cases "is_inner c")
  case True
  then show ?thesis using length_rlp_Str[of "sha (encoding sha c)"] assms(1)[of "encoding sha c"]
    by (auto simp: ref_item_eq big_def encoding_def simp del: rlp.simps)
next
  case False
  then obtain w where "ref_item sha c = Str w" "length w < 2 ^ 56" using assms(2) by (auto simp: ref_of_def)
  then show ?thesis using length_rlp_Str[of w] by (simp del: rlp.simps)
qed

definition bounded :: "(byte list \<rightharpoonup> byte list) \<Rightarrow> bool" where
  "bounded m \<longleftrightarrow> (\<forall>k v. m k = Some v \<longrightarrow> length k < 2 ^ 58 \<and> length v < 2 ^ 56)"

lemma short_length:
  assumes "\<And>e. length (sha e) = 32" "is_inner c \<or> c = ValueNode v \<and> length v < 2 ^ 56" "length k < 2 ^ 58" "tkey k \<or> nibbles k"
  shows "length (encoding sha (ShortNode k c f)) < 2 ^ 63"
proof -
  obtain ck where ck: "hexToCompact k = Some ck" using hexToCompact_canonical[OF assms(4)] by metis
  have "length (rlp (ref_item sha c)) < 2 ^ 56 + 41" using assms(1,2) by (intro ref_item_length) auto
  then show ?thesis
    using length_rlp_Lst[of "[Str ck, ref_item sha c]"] length_rlp_Str[of ck] hexToCompact_length[OF ck] assms(3) ck
    by (simp add: encoding_def del: rlp.simps)
qed

lemma full_length:
  assumes "\<And>e. length (sha e) = 32" "length cs = 17" "\<forall>c\<in>set cs. is_inner c \<or> c = NilNode \<or> (\<exists>v. c = ValueNode v \<and> length v < 2 ^ 56)"
  shows "length (encoding sha (FullNode cs f)) < 2 ^ 63"
proof -
  have "length (rlp (ref_item sha c)) \<le> 2 ^ 56 + 41" if "c \<in> set cs" for c
    using assms(1,3) that ref_item_length[of sha c] by (metis less_imp_le)
  then have "(\<Sum>c\<leftarrow>cs. length (rlp (ref_item sha c))) \<le> (\<Sum>c\<leftarrow>cs. 2 ^ 56 + 41)" by (intro sum_list_mono)
  also have "\<dots> = 17 * (2 ^ 56 + 41)" using assms(2) by (simp add: sum_list_triv)
  finally show ?thesis using length_rlp_Lst[of "map (ref_item sha) cs"] by (simp add: encoding_def comp_def del: rlp.simps)
qed

lemma encodings_bounded:
  assumes sha: "\<And>e. length (sha e) = 32"
  shows "rep in_memory x m \<Longrightarrow> bounded m \<Longrightarrow> \<forall>e\<in>node_encodings sha x. length e < 2 ^ 63"
proof (induction rule: rep.induct)
  case rep_nil
  then show ?case by (simp add: node_encodings_def encoding_def framed_def kind_head_def kind_of_def puthead_def)
next
  case (rep_leaf k v f)
  have "length k < 2 ^ 58" "length v < 2 ^ 56" using rep_leaf.prems by (auto simp: bounded_def)
  then show ?case using short_length[of sha "ValueNode v" v k f] sha rep_leaf.hyps by (auto simp: node_encodings_def)
next
  case (rep_ext k c m f)
  have m: "bounded m"
    unfolding bounded_def
  proof (intro allI impI)
    fix l v
    assume "m l = Some v"
    then have "shift k m (k @ l) = Some v" by simp
    then show "length l < 2 ^ 58 \<and> length v < 2 ^ 56" using rep_ext.prems unfolding bounded_def by fastforce
  qed
  obtain l v where "m l = Some v" using rep_nonempty[OF rep_ext.hyps(3)] rep_ext.hyps(4) by fastforce
  then have "shift k m (k @ l) = Some v" by simp
  then have "length k < 2 ^ 58" using rep_ext.prems unfolding bounded_def by fastforce
  moreover have "is_inner c" using rep_ext.hyps(4) by (auto simp: is_branch_def)
  ultimately show ?case using short_length[of sha c _ k f] sha rep_ext.hyps(2) rep_ext.IH[OF m] by (auto simp: node_encodings_def)
next
  case (rep_full cs ms f)
  have ms: "bounded (ms i)" if "i < 17" for i
    unfolding bounded_def
  proof (intro allI impI)
    fix l v
    assume "ms i l = Some v"
    then have "branch ms (of_nat i # l) = Some v" using that by (simp add: branch_def unat_of_nat)
    then show "length l < 2 ^ 58 \<and> length v < 2 ^ 56" using rep_full.prems unfolding bounded_def by fastforce
  qed
  have kid: "(is_inner c \<or> c = NilNode \<or> (\<exists>v. c = ValueNode v \<and> length v < 2 ^ 56)) \<and> (\<forall>e\<in>large sha c. length e < 2 ^ 63)" if c: "c \<in> set cs" for c
  proof -
    obtain i where i: "i < 17" "c = cs ! i" using c rep_full.hyps(1) by (auto simp: in_set_conv_nth)
    show ?thesis
    proof (cases "i < 16")
      case True
      have "canonical c" using canonical_rep rep_full.IH True i(2) by blast
      moreover have "\<forall>e\<in>node_encodings sha c. length e < 2 ^ 63" using rep_full.IH True ms[OF i(1)] i(2) by blast
      ultimately show ?thesis using canonical_kinds by (auto simp: node_encodings_def)
    next
      case False
      then have "i = 16" using i(1) by simp
      then have "value_slot c (ms 16)" using i(2) rep_full.hyps(3) by simp
      then show ?thesis using ms[of 16] by (auto simp: value_slot_def bounded_def)
    qed
  qed
  then have "length (encoding sha (FullNode cs f)) < 2 ^ 63" using sha rep_full.hyps(1) by (intro full_length) auto
  then show ?case using kid by (auto simp: node_encodings_def)
next
  case (rep_hash h n m)
  then show ?case by simp
qed

end
