(* ===== verification/Trie_Reopen.thy ===== *)
theory Trie_Reopen
  imports Trie_Commit Trie_Sizes
begin

text \<open>
  The life of a trie over its database: opened, updated, hashed, committed and opened again from the hash of its root. The state
  of a trie relates it to its expanded form and to its contents; every operation keeps it.
\<close>

section \<open>The state of a trie\<close>

definition trie_state :: "(byte list \<Rightarrow> byte list) \<Rightarrow> Trie \<Rightarrow> node \<Rightarrow> (byte list \<rightharpoonup> byte list) \<Rightarrow> bool" where
  "trie_state sha t x m \<longleftrightarrow>
     (\<exists>db hm. t_db t = Some db \<and> backed db sha True (t_root t) x \<and>
        rep in_memory x hm \<and> dom hm \<subseteq> range keybytesToHex \<and> m = hm \<circ> keybytesToHex)"

text \<open>No two of the encodings in the trie and in the database have the same hash, nor that of the empty trie, and none has the hash
  zero, which stands for no root at all.\<close>

definition collision_free :: "(byte list \<Rightarrow> byte list) \<Rightarrow> (byte list \<rightharpoonup> byte list) \<Rightarrow> node \<Rightarrow> bool" where
  "collision_free sha db x \<longleftrightarrow>
     inj_on sha (insert [0x80] (node_encodings sha x \<union> ran db)) \<and> (\<forall>e\<in>node_encodings sha x. sha e \<noteq> zeroHash)"

lemma trie_state_map:
  assumes "trie_state sha t x m" "\<forall>e. length (sha e) = 32"
  shows "trie_map t m" "expands (loaded t) (t_root t) x"
proof -
  obtain db hm where s: "t_db t = Some db" "backed db sha True (t_root t) x" "rep in_memory x hm" "dom hm \<subseteq> range keybytesToHex" "m = hm \<circ> keybytesToHex"
    using assms(1) by (auto simp: trie_state_def)
  show "trie_map t m" unfolding trie_map_def using backed_rep[OF s(2,1) _ s(3)] assms(2) s(4,5) by blast
  show "expands (loaded t) (t_root t) x" using backed_expands[OF s(1) _ s(2)] assms(2) by blast
qed

text \<open>A trie that represents a map and is backed is in that state.\<close>

lemma trie_stateI:
  assumes "t_db t = Some db" "\<exists>x. backed db sha True (t_root t) x" "trie_map t m" "\<forall>e. length (sha e) = 32"
  shows "\<exists>x. trie_state sha t x m"
proof -
  obtain x where x: "backed db sha True (t_root t) x" using assms(2) by blast
  obtain hm where hm: "rep (loaded t) (t_root t) hm" "dom hm \<subseteq> range keybytesToHex" "m = hm \<circ> keybytesToHex"
    using assms(3) by (auto simp: trie_map_def)
  obtain y where y: "expands (loaded t) (t_root t) y" "rep in_memory y hm" using rep_expands[OF hm(1)] by blast
  have "expands (loaded t) (t_root t) x" using backed_expands[OF assms(1) _ x] assms(4) by blast
  then have "x = y" using expands_unique y(1) by blast
  then show ?thesis using assms(1) x y(2) hm(2,3) unfolding trie_state_def by blast
qed

section \<open>Updates\<close>

definition state_rel :: "(byte list \<Rightarrow> byte list) \<Rightarrow> (byte list \<rightharpoonup> byte list) \<Rightarrow> Trie \<Rightarrow> (byte list \<rightharpoonup> byte list) \<Rightarrow> bool" where
  "state_rel sha db t m \<longleftrightarrow> (\<forall>e. length (sha e) = 32) \<and> t_db t = Some db \<and> (\<exists>x. trie_state sha t x m)"

lemma state_rel_step:
  assumes "state_rel sha db t m" "\<exists>t'. r = Some t' \<and> trie_rel (Some db) t' m'"
    and "\<And>t' x. r = Some t' \<Longrightarrow> backed db sha True (t_root t) x \<Longrightarrow> \<exists>x. backed db sha True (t_root t') x"
  shows "\<exists>t'. r = Some t' \<and> state_rel sha db t' m'"
proof -
  obtain t' where t': "r = Some t'" "t_db t' = Some db" "trie_map t' m'" using assms(2) by (auto simp: trie_rel_def)
  have "\<exists>x. backed db sha True (t_root t) x" using assms(1) by (auto simp: state_rel_def trie_state_def)
  then have "\<exists>x. trie_state sha t' x m'" using assms(1,3) t' by (intro trie_stateI) (auto simp: state_rel_def)
  then show ?thesis using t' assms(1) by (auto simp: state_rel_def)
qed

lemma state_rel_map: "state_rel sha db t m \<Longrightarrow> trie_rel (Some db) t m"
  using trie_state_map by (auto simp: state_rel_def trie_rel_def)

lemma store_root_backed:
  assumes "no_error (store_root t r) = Some t'" "\<And>d n. r = Some (Inr (d, n)) \<Longrightarrow> \<exists>x. backed db sha True n x"
  shows "\<exists>x. backed db sha True (t_root t') x"
proof -
  obtain d n where "r = Some (Inr (d, n))" "t' = t\<lparr>t_root := n\<rparr>"
    using assms(1) by (auto simp: no_error_def store_root_def split: option.splits sum.splits)
  then show ?thesis using assms(2) by simp
qed

lemma keybytes_not_empty: "keybytesToHex k \<noteq> []"
  by (simp add: keybytesToHex_def)

interpretation state_store: map_store "state_rel sha db" "\<lambda>v. v = []" trie_get "\<lambda>k v t. no_error (TryUpdate k v t)" "\<lambda>k t. no_error (TryDelete k t)"
  for sha db
proof
  fix t m k v
  assume r: "state_rel sha db t m"
  have db: "t_db t = Some db" "\<forall>e. length (sha e) = 32" using r by (auto simp: state_rel_def)
  have del: "\<exists>x. backed db sha True (t_root t') x"
    if "no_error (store_root t (trie_delete t (t_root t) [] (keybytesToHex k))) = Some t'" "backed db sha True (t_root t) x" for t' x
    using that(1) delete_backed[OF _ db refl that(2)] by (rule store_root_backed)
  have ins: "\<exists>x. backed db sha True (t_root t') x"
    if "no_error (store_root t (trie_insert t (t_root t) [] (keybytesToHex k) (ValueNode v))) = Some t'" "backed db sha True (t_root t) x" for t' x
    using that(1) insert_backed[OF _ db refl that(2) backed_value] keybytes_not_empty by (intro store_root_backed[OF that(1)]) blast
  show "\<exists>t'. no_error (TryDelete k t) = Some t' \<and> state_rel sha db t' (m(k := None))"
    using trie_store.del_refines[OF state_rel_map[OF r]] del by (intro state_rel_step[OF r]) (auto simp: TryDelete_def)
  show "\<exists>t'. no_error (TryUpdate k v t) = Some t' \<and> state_rel sha db t' (m(k := if v = [] then None else Some v))"
    using trie_store.upd_refines[OF state_rel_map[OF r], of k v] ins del by (intro state_rel_step[OF r]) (auto simp: TryUpdate_def Let_def split: if_splits)
  have get: "\<exists>x. backed db sha True (t_root t') x" if got: "trie_get k t = Some (w, t')" and b: "backed db sha True (t_root t) x" for w t' x
  proof -
    obtain u n d where g: "tryGet t (t_root t) (keybytesToHex k) 0 = Some (Inr (u, n, d))" "t' = (if d then t\<lparr>t_root := n\<rparr> else t)"
      using got by (cases "tryGet t (t_root t) (keybytesToHex k) 0") (auto simp: trie_get_def TryGet_def split: sum.splits)
    show ?thesis using get_backed[OF g(1) db refl b] g(2) b by auto
  qed
  show "\<exists>t'. trie_get k t = Some (m k, t') \<and> state_rel sha db t' m"
    using state_rel_step[OF r, of "map_option snd (trie_get k t)" m] trie_store.get_refines[OF state_rel_map[OF r], of k] get by force
qed

section \<open>Hashing and committing\<close>

lemma BytesToHash_id: "length h = 32 \<Longrightarrow> BytesToHash h = h"
  by (simp add: BytesToHash_def)

lemma encoding_nil: "encoding sha NilNode = [0x80]"
  by (simp add: encoding_def framed_def kind_head_def kind_of_def puthead_def)

lemma encoding_inner: "is_inner x \<Longrightarrow> length (encoding sha x) < 2 ^ 63 \<Longrightarrow> encoding sha x \<noteq> [0x80]"
proof
  assume x: "is_inner x" "length (encoding sha x) < 2 ^ 63" "encoding sha x = [0x80]"
  obtain js where "tree_item sha x = Lst js" using x(1) by (cases x) auto
  then have "encoding sha x = framed Kind_List (concat (map rlp js)) []" by (simp add: encoding_def)
  moreover have "encoding sha x = framed Kind_String [] []" using x(3) by (simp add: framed_def kind_head_def puthead_def)
  ultimately have "Split (encoding sha x) = Inr (Kind_List, concat (map rlp js), [])" "Split (encoding sha x) = Inr (Kind_String, [], [])"
    using Split_iff[OF x(2)] by (auto simp: kind_ok_def)
  then show False by simp
qed

lemma root_hashed:
  assumes "t_db t = Some db" "backed db sha True (t_root t) x" "canonical x" "\<forall>e. length (sha e) = 32" "collision_free sha db x"
    "\<forall>e\<in>node_encodings sha x. length e < 2 ^ 63"
  shows "\<exists>cached db'. hashRoot sha (sha [0x80]) mem_Put t (database wr db) = Some (Inr (HashNode (sha (encoding sha x)), cached), database wr db') \<and>
    backed db' sha True cached x \<and> grows sha db db' \<and> (if wr then x = NilNode \<or> stored db' sha x else db' = db)"
proof (cases "x = NilNode")
  case True
  then have "t_root t = NilNode" using assms(2) by (simp add: backed_kinds)
  then show ?thesis using True by (auto simp: hashRoot_def encoding_nil intro: backed_nil)
next
  case False
  then have x: "is_inner x" using canonical_kinds[OF assms(3)] by blast
  let ?E = "insert [0x80] (node_encodings sha x \<union> ran db)"
  have "t_root t \<noteq> NilNode" using backed_kinds(3)[OF assms(2) x] by blast
  moreover have "hashes_to sha ?E wr db True x (hasher_hash \<lparr>h_sha = sha, h_cachegen = t_cachegen t, h_cachelimit = t_cachelimit t\<rparr> mem_Put (t_root t) (database wr db) True)"
    using assms(2,3,5,6) x by (intro hash_backed) (auto simp: collision_free_def needed_def)
  ultimately obtain cached db' where "hashRoot sha (sha [0x80]) mem_Put t (database wr db) = Some (Inr (HashNode (sha (encoding sha x)), cached), database wr db')"
      "backed db' sha True cached x" "grows sha db db'" "if wr then (\<forall>e\<in>node_encodings sha x. db' (sha e) = Some e) else db' = db"
    unfolding hashes_to_def hashRoot_def needed_def by (auto simp del: hasher_hash.simps)
  moreover have "if wr then x = NilNode \<or> stored db' sha x else db' = db" using calculation(4) assms(6) by (auto simp: stored_def split: if_splits)
  ultimately show ?thesis by blast
qed

lemma state_bounded:
  assumes "rep in_memory x hm" "dom hm \<subseteq> range keybytesToHex" "\<forall>k v. (hm \<circ> keybytesToHex) k = Some v \<longrightarrow> length k < 2 ^ 56 \<and> length v < 2 ^ 56"
    "\<forall>e. length (sha e) = 32"
  shows "\<forall>e\<in>node_encodings sha x. length e < 2 ^ 63"
proof -
  have hex: "length (keybytesToHex k) = 2 * length k + 1" for k by (induction k) (simp_all add: keybytesToHex_def)
  have "length l < 2 ^ 58 \<and> length v < 2 ^ 56" if l: "hm l = Some v" for l v
  proof -
    obtain k where "l = keybytesToHex k" using assms(2) l by blast
    then show ?thesis using assms(3)[rule_format, of k v] l hex[of k] by auto
  qed
  then have "bounded hm" by (simp add: bounded_def)
  then show ?thesis using encodings_bounded[OF _ assms(1)] assms(4) by blast
qed

lemma New_opens:
  assumes can: "canonical x" "strip x = x" and st: "x = NilNode \<or> stored db' sha x" and sha: "\<forall>e. length (sha e) = 32"
    and col: "collision_free sha db x" and len: "\<forall>e\<in>node_encodings sha x. length e < 2 ^ 63"
  shows "\<exists>t. trie_New (sha [0x80]) (sha (encoding sha x)) (Some db') = Inr t \<and> t_db t = Some db' \<and> backed db' sha True (t_root t) x"
proof (cases "x = NilNode")
  case True
  then show ?thesis by (simp add: trie_New_def encoding_nil backed_nil)
next
  case False
  define root where "root = sha (encoding sha x)"
  have x: "is_inner x" using canonical_kinds[OF can(1)] False by blast
  then have ok: "hash_ok db' sha True root x" using can st False by (simp add: hash_ok_def root_def)
  let ?t = "\<lparr>t_root = NilNode, t_db = Some db', t_originalRoot = root, t_cachegen = 0, t_cachelimit = 0\<rparr>"
  have l: "loaded ?t root = Some (opened sha 0 (Some root) x)" "backed db' sha True (opened sha 0 (Some root) x) x"
    using loaded_hash_ok[OF ok, of ?t] sha by simp_all
  have "encoding sha x \<noteq> [0x80]" using encoding_inner[OF x] len by (simp add: node_encodings_def)
  then have "root \<noteq> sha [0x80]" "root \<noteq> zeroHash"
    using col by (auto simp: collision_free_def inj_on_def node_encodings_def root_def)
  then have "trie_New (sha [0x80]) root (Some db') = Inr (?t\<lparr>t_root := opened sha 0 (Some root) x\<rparr>)"
    using l(1) resolveHash_loaded[of ?t root _ "[]"] by (simp add: trie_New_def Let_def)
  then show ?thesis using l(2) by (simp add: root_def)
qed

lemma hash_commit:
  assumes s: "trie_state sha t x m" and sha: "\<forall>e. length (sha e) = 32" and col: "collision_free sha (the (t_db t)) x"
    and small: "\<forall>k v. m k = Some v \<longrightarrow> length k < 2 ^ 56 \<and> length v < 2 ^ 56"
  shows "\<exists>t1. trie_Hash sha (sha [0x80]) t = Some (sha (encoding sha x), t1) \<and> trie_state sha t1 x m"
    and "\<exists>t2 t3. trie_Commit sha (sha [0x80]) t = Some (Inr (sha (encoding sha x)), t2) \<and> trie_state sha t2 x m \<and>
      trie_New (sha [0x80]) (sha (encoding sha x)) (t_db t2) = Inr t3 \<and> trie_state sha t3 x m"
proof -
  obtain db hm where d: "t_db t = Some db" "backed db sha True (t_root t) x" "rep in_memory x hm" "dom hm \<subseteq> range keybytesToHex" "m = hm \<circ> keybytesToHex"
    using s by (auto simp: trie_state_def)
  have state: "trie_state sha t' x m" if "t_db t' = Some db'" "backed db' sha True (t_root t') x" for t' db'
    using that d(3-5) unfolding trie_state_def by blast
  have len: "\<forall>e\<in>node_encodings sha x. length e < 2 ^ 63" using state_bounded[OF d(3,4)] small sha d(5) by blast
  have can: "canonical x" using canonical_rep[OF d(3)] .
  have col': "collision_free sha db x" using col d(1) by simp
  note root = root_hashed[OF d(1,2) can sha col' len]
  have id: "BytesToHash (sha e) = sha e" for e using sha by (simp add: BytesToHash_id)
  show "\<exists>t1. trie_Hash sha (sha [0x80]) t = Some (sha (encoding sha x), t1) \<and> trie_state sha t1 x m"
    using root[of False] d(1) state by (auto simp: trie_Hash_def id)
  obtain cached db' where r: "hashRoot sha (sha [0x80]) mem_Put t (Some db) = Some (Inr (HashNode (sha (encoding sha x)), cached), Some db')"
      "backed db' sha True cached x" "grows sha db db'" "x = NilNode \<or> stored db' sha x"
    using root[of True] by auto
  define t2 where "t2 = t\<lparr>t_root := cached, t_cachegen := t_cachegen t + 1, t_db := Some db'\<rparr>"
  have t2: "trie_Commit sha (sha [0x80]) t = Some (Inr (sha (encoding sha x)), t2)"
    using r(1) d(1) by (simp add: trie_Commit_def CommitTo_def id t2_def)
  obtain t3 where "trie_New (sha [0x80]) (sha (encoding sha x)) (Some db') = Inr t3" "t_db t3 = Some db'" "backed db' sha True (t_root t3) x"
    using New_opens[OF can backed_strip[OF d(2)] r(4) sha col' len] by blast
  then have "\<exists>t3. trie_New (sha [0x80]) (sha (encoding sha x)) (Some db') = Inr t3 \<and> trie_state sha t3 x m" using state by blast
  moreover have "trie_state sha t2 x m" using r(2) state by (simp add: t2_def)
  ultimately show "\<exists>t2 t3. trie_Commit sha (sha [0x80]) t = Some (Inr (sha (encoding sha x)), t2) \<and> trie_state sha t2 x m \<and>
      trie_New (sha [0x80]) (sha (encoding sha x)) (t_db t2) = Inr t3 \<and> trie_state sha t3 x m"
    using t2 by (auto simp: t2_def)
qed

text \<open>C40: a committed trie opens again with its contents. Take any trie that is backed by its database, such as an empty or an opened
  one, and any sequence of lookups, updates and deletions on it. If the hash has no collisions among the encodings in the trie and the
  database, and keys and values have less than \<open>2 ^ 56\<close> bytes, then hashing and committing give the hash of the reference encoding of
  the expanded trie, whatever is cached, embedded or not loaded; the database then holds all that the root refers to, so that the root
  opens as a trie with the updated contents; and the tries are all backed again.\<close>

theorem commit_reopens:
  assumes "trie_state sha t0 x0 m0" "trie_run ops t0 = Some (vs, t)" "expands (loaded t) (t_root t) x"
    and "\<forall>e. length (sha e) = 32" "collision_free sha (the (t_db t)) x"
    and "m = snd (run_map (\<lambda>v. v = []) ops m0)" "\<forall>k v. m k = Some v \<longrightarrow> length k < 2 ^ 56 \<and> length v < 2 ^ 56"
    and "root = sha (encoding sha x)" "emptyRoot = sha [0x80]"
  shows "(\<exists>t1. trie_Hash sha emptyRoot t = Some (root, t1) \<and> trie_state sha t1 x m) \<and>
    (\<exists>t2 t3. trie_Commit sha emptyRoot t = Some (Inr root, t2) \<and> trie_state sha t2 x m \<and>
       trie_New emptyRoot root (t_db t2) = Inr t3 \<and> trie_state sha t3 x m \<and> trie_map t3 m)"
proof -
  obtain db where db: "t_db t0 = Some db" using assms(1) by (auto simp: trie_state_def)
  then have "state_rel sha db t0 m0" using assms(1,4) by (auto simp: state_rel_def)
  then have "state_rel sha db t m"
    using state_store.run_refines[of sha db t0 m0 ops] assms(2,6) by (auto simp: trie_run_def)
  then obtain y where y: "trie_state sha t y m" by (auto simp: state_rel_def)
  have "y = x" using expands_unique[OF trie_state_map(2)[OF y assms(4)] assms(3)] .
  then show ?thesis
    using hash_commit[OF y assms(4) _ assms(7)] assms(5) trie_state_map(1)[OF _ assms(4)] unfolding assms(8,9) by blast
qed

text \<open>An empty trie over an empty database, one update, and a hash that pads its argument.\<close>

definition fresh_trie :: Trie where
  "fresh_trie = \<lparr>t_root = NilNode, t_db = Some Map.empty, t_originalRoot = zeroHash, t_cachegen = 0, t_cachelimit = 0\<rparr>"

definition pad_hash :: "byte list \<Rightarrow> byte list" where
  "pad_hash e = take 32 (e @ replicate 32 1)"

lemma fresh_trie_state: "trie_state sha fresh_trie NilNode Map.empty"
  unfolding trie_state_def
  by (intro exI[of _ Map.empty]) (auto simp: fresh_trie_def intro: backed_nil rep_nil)

lemma fresh_trie_run:
  "trie_run [Update [1] [7]] fresh_trie = Some ([], fresh_trie\<lparr>t_root := ShortNode [0, 1, 16] (ValueNode [7]) (newFlag fresh_trie)\<rparr>)"
proof -
  have "keybytesToHex [1] = [0, 1, 16]" by (simp add: keybytesToHex_def)
  then show ?thesis by (simp add: trie_run_def no_error_def TryUpdate_def store_root_def fresh_trie_def trie_insert.simps)
qed

theorem commit_reopens_witness:
  "\<exists>t t2 t3. trie_run [Update [1] [7]] fresh_trie = Some ([], t) \<and>
     trie_Commit pad_hash (pad_hash [0x80]) t = Some (Inr (pad_hash [0xC4, 0x82, 0x20, 1, 7]), t2) \<and>
     trie_New (pad_hash [0x80]) (pad_hash [0xC4, 0x82, 0x20, 1, 7]) (t_db t2) = Inr t3 \<and> trie_map t3 [[1] \<mapsto> [7]]"
proof -
  let ?x = "ShortNode [0, 1, 16] (ValueNode [7]) blank"
  let ?t = "fresh_trie\<lparr>t_root := ShortNode [0, 1, 16] (ValueNode [7]) (newFlag fresh_trie)\<rparr>"
  have e: "encoding pad_hash ?x = [0xC4, 0x82, 0x20, 1, 7]"
    by (simp add: encoding_def ref_of_def hexToCompact_def hasTerm_def Let_def framed_def kind_head_def kind_of_def puthead_def)
  then have n: "node_encodings pad_hash ?x = {[0xC4, 0x82, 0x20, 1, 7]}" by (simp add: node_encodings_def big_def)
  have "hd (pad_hash [0xC4, 0x82, 0x20, 1, 7]) \<noteq> hd zeroHash" by (simp add: zeroHash_def pad_hash_def)
  then have "pad_hash [0xC4, 0x82, 0x20, 1, 7] \<noteq> zeroHash" by metis
  then have "collision_free pad_hash (the (t_db ?t)) ?x"
    by (simp add: collision_free_def n fresh_trie_def) (simp add: pad_hash_def)
  moreover have "expands (loaded ?t) (t_root ?t) ?x" by (simp add: exp_short exp_value)
  moreover have "\<forall>e. length (pad_hash e) = 32" by (auto simp: pad_hash_def min_def)
  moreover have "[[1] \<mapsto> [7]] = snd (run_map (\<lambda>v. v = []) [Update [1] [7]] Map.empty)" by simp
  moreover have "\<forall>k v. [[1] \<mapsto> [7]] k = Some v \<longrightarrow> length k < 2 ^ 56 \<and> length v < 2 ^ 56" by simp
  ultimately show ?thesis
    using commit_reopens[of pad_hash fresh_trie NilNode Map.empty "[Update [1] [7]]" "[]" ?t ?x "[[1] \<mapsto> [7]]",
      OF fresh_trie_state fresh_trie_run _ _ _ _ _ refl refl, unfolded e] fresh_trie_run by blast
qed

end
