(* ===== verification/Spec2Isabelle.thy ===== *)
theory Spec2Isabelle
  imports Asset_Info Addresses State_Commit Vote_Counting Gas_Accounting Bloom_Bits Shuffle_Round Trie_Reopen
begin

text \<open>
  Verification of the Aurora chain node, go-aoa. The node is a fork of Ethereum with two additions: accounts hold balances of many
  assets, and blocks are produced by delegates that accounts vote for. The development follows the data from the bytes to the blocks:
  the codec and the trie at the bottom, the states of accounts and of delegates above them, the processing of messages on those states,
  and the rules for headers, signatures and rounds on top. Every path below is relative to \<open>src\<close>.

  \<^bold>\<open>Conventions.\<close> A Go struct is a record, a slice a list, a Go map a map; machine integers are words (\<^typ>\<open>64 word\<close>, \<^typ>\<open>160 word\<close>
  for addresses, \<^typ>\<open>256 word\<close> for hashes), \<open>big.Int\<close> is \<^typ>\<open>int\<close>. A method takes the receiver and returns it updated. A panic is the value
  \<^const>\<open>None\<close> unless a theory says otherwise; an error is a value of a sum or of an error type. Iteration over a Go map takes the order as
  an argument. Functions whose loop may not end are partial functions, where \<^const>\<open>None\<close> is not returning. What the repository does not
  contain is a parameter: the Keccak hash and elliptic curves (of \<open>backend\<close>, \<open>sha\<close> and the recovery of keys), the clock, the
  database behind the state, and the instruction loop of the virtual machine.

  \<^bold>\<open>Foundations.\<close> \<open>Aoa_Prelude\<close> has the types, the parts of Go's library that several theories use, and the locale of a journaled
  state, which both state databases interpret. \<open>Addresses\<close> (\<open>common/types.go\<close>, \<open>common/bytes.go\<close>, \<open>common/hexutil\<close>) shows that addresses and
  hexadecimal text are read back as they were printed, and that nothing else decodes (C12, C13).

  \<^bold>\<open>Codec and trie.\<close> \<open>Rlp_Codec\<close> (\<open>rlp/encode.go\<close>, \<open>rlp/raw.go\<close>): the buffer of the encoder writes the encoding of the specification, and
  splitting accepts that encoding and nothing else (C37). \<open>Trie_Nodes\<close> (\<open>trie/encoding.go\<close>, \<open>trie/node.go\<close>) and \<open>Merkle_Trie\<close>
  (\<open>trie/trie.go\<close>) have nodes, their decoding, lookup, insertion and deletion. \<open>Trie_Maps\<close> says what map a trie represents, and
  \<open>Trie_Updates\<close> that the operations act on that map. \<open>Trie_Canonical\<close> has the locale of a store of values, which the trie interprets: any
  sequence of operations returns and refines the map (C38), and two histories with the same outcome build the same nodes (C39). \<open>Trie_Hasher\<close>
  (\<open>trie/hasher.go\<close>, \<open>Hash\<close>, \<open>Commit\<close> and \<open>CommitTo\<close>, \<open>aoadb/memory_database.go\<close>) hashes and commits. \<open>Trie_Encoding\<close> has the encoding of
  a trie as a function of its expanded form and shows that the decoder inverts it; \<open>Trie_Backed\<close> is the invariant between the trie, its cached hashes
  and its database, \<open>Trie_Kept\<close> that the updates keep it, \<open>Trie_Sizes\<close> the bounds on encodings, \<open>Trie_Commit\<close> that hashing computes the
  reference; \<open>Trie_Reopen\<close> concludes that a trie that was updated and committed opens again with its contents (C40).

  \<^bold>\<open>Accounts.\<close> \<open>Assets\<close> (\<open>core/types/asset.go\<close>): the sorted slice of balances is a map (C1, C2). \<open>Asset_Info\<close>
  (\<open>core/types/asset_info.go\<close>): what validation guarantees (C3). \<open>State_DB\<close> (\<open>core/state\<close>) is the database of accounts with its journal. Tries are
  the maps they store in it. \<open>State_Revert\<close> and \<open>Snapshots\<close> show that a revert restores what can be observed of the accounts, and that the ABI of a contract
  and entries of zero in the list of assets are not restored (C4); \<open>State_Commit\<close> that
  \<open>Finalise\<close> does not depend on the order of the dirty set, what a new database reads, how the storage cache behaves, what a copy keeps and drops, what
  publishing an asset does, and two faults (C5 to C11).

  \<^bold>\<open>Delegates and votes.\<close> \<open>Delegate_DB\<close> and \<open>Delegate_Votes\<close> (\<open>consensus/delegatestate\<close>, \<open>core/types/delegatePoll.go\<close>): the database of
  delegates is a map of votes, survives the trie, and yields one list of candidates; what its journal does not restore (C14 to C18).
  \<open>Voting\<close> (\<open>core/evm.go\<close>) is the side of the voter, with the aliasing of the slice of votes (C19 to C22), \<open>Vote_Counting\<close>
  (\<open>core/vote_util.go\<close>, \<open>core/state_processor.go\<close>) the side of the delegates (C23, C24).

  \<^bold>\<open>Messages.\<close> \<open>State_Views\<close> gives each operation of the account state as an equation on what can be observed. \<open>Evm_Call\<close> and \<open>Evm_Create\<close>
  (\<open>core/vm/evm.go\<close>, \<open>core/vm/contract.go\<close>): calls that do not vote are atomic, and the outcomes of a deployment, whatever its code does to the state (C25, C26). \<open>Transition\<close>,
  \<open>Transfers\<close> and \<open>Gas_Accounting\<close> (\<open>core/state_transition.go\<close>, \<open>core/gaspool.go\<close>): the intrinsic gas, a complete account of a transfer, and where the
  gas goes for any message (C27 to C29).

  \<^bold>\<open>Logs.\<close> \<open>Log_Bloom\<close> (\<open>core/types/bloom9.go\<close>, \<open>aoa/filters/filter.go\<close>) and \<open>Bloom_Bits\<close> (\<open>core/bloombits\<close>): a search misses no log, and the
  index finds the same blocks (C30, C31).

  \<^bold>\<open>Consensus.\<close> \<open>Dpos_Headers\<close> (\<open>consensus/dpos/dpos_consensus.go\<close>, \<open>core/block_validator.go\<close>, and the gas limit of \<open>core/dpos_miner.go\<close>): a batch of headers is verified completely and
  in order by workers that interleave in any way, as a step relation, and exactly which of the gas limits that producers compute are accepted (C32, C33). \<open>Dpos_Quorum\<close>: two
  blocks of a round have signers in common (C34). \<open>Shuffle_Round\<close> (\<open>util/shuffle.go\<close>, with SHA-256 written out): every elected delegate has one slot,
  and the search for a round ends, on \<open>int64\<close> (C35, C36).

  \<^bold>\<open>Bounds.\<close> The decoder of nodes recurses at most as often as its buffer has bytes, for embedded nodes are shorter than the node around them;
  \<open>decode_opened\<close> shows that this is enough. Slices have less than \<open>2 ^ 63\<close> elements, as in Go, and C40 asks for keys and values of less than
  \<open>2 ^ 56\<close> bytes so that every encoding does. In the shuffle times are at most \<open>2 ^ 53\<close> seconds, where its floating point arithmetic is exact; the search for a round is on
  words, for times up to \<open>2 ^ 62\<close>. Vote
  counts are bounded where the sums of \<open>uint64\<close> would wrap around; the theorems carry these bounds as hypotheses. C40 assumes that the hash has no
  collision among the encodings in the trie and in the database, which no function to 32 bytes has in general, and is therefore stated for those encodings only.

  \<^bold>\<open>Not modelled.\<close> The instructions of the virtual machine, its gas table and the native contracts (parameters, of which the calls use
  \<open>exec_ok\<close>). The chain of blocks, its indexer and the transaction pool: concurrent code over the database. The application of a whole block with its
  receipts, rewards and body, and the recovery of senders. Errors of reading a storage trie other than that of opening it. The writing of state databases to the key-value store: the account and delegate
  states stand on maps, and the trie that implements such maps is verified on its own. Of the trie, the secure trie, iterators, proofs and synchronisation. Of the
  codec, the derivation of encoders from Go types, which is reflection, and the stream decoder. The network, the RPC interface, the light client, wallets, command
  line, metrics and the operating system interfaces, which are input and output.
\<close>

end
